(* ===== verification/Crt_Prelude.thy ===== *)
theory Crt_Prelude
  imports Main "HOL-Library.Word" "HOL-Library.Multiset"
begin

text \<open>
  Shared vocabulary of the development: the machine integer types of the sources, the return
  codes of \<^verbatim>\<open>src/include/gurt/errno.h\<close> together with the POSIX codes the SWIM library returns,
  the collections of simplification rules the component theories fill, and the generic facts on
  lists and words that several components use.
\<close>

unbundle bit_operations_syntax

section \<open>Types and return codes\<close>

type_synonym u32 = "32 word"
type_synonym u64 = "64 word"
type_synonym d_rank_t = u32

text \<open>
  A C function that returns \<open>int rc\<close> returns a value of this type: \<open>DER_SUCCESS\<close> is \<open>0\<close>, a
  constructor \<open>DER_X\<close> is the value \<open>-DER_X\<close>, \<open>EX\<close> is \<open>-EX\<close>, and \<open>RC_OTHER n\<close> is any other
  integer (a code chosen by user code the sources only pass on). The numbers behind the names are
  pairwise different, so equality of codes is equality of constructors.
\<close>

datatype rc =
    DER_SUCCESS
  | DER_INVAL | DER_EXIST | DER_NONEXIST | DER_UNREACH | DER_ALREADY | DER_NOMEM | DER_TIMEDOUT
  | DER_BUSY | DER_AGAIN | DER_PROTO | DER_UNINIT | DER_TRUNC | DER_OVERFLOW | DER_CANCELED
  | DER_OOG | DER_HG | DER_UNREG | DER_MISC | DER_EVICTED | DER_NOREPLY | DER_DOS
  | DER_BAD_TARGET | DER_GRPVER | DER_NO_PERM
  | EINVAL | ENOMEM | EALREADY | ESHUTDOWN | ETIMEDOUT | EINTR | ENOTCONN
  | RC_OTHER int

section \<open>Collections of rules\<close>

named_theorems rank_simps \<open>functional behaviour of the rank list operations\<close>
named_theorems heap_simps \<open>projections of the binary heap accessors\<close>
named_theorems tree_simps \<open>arithmetic facts of the tree topologies\<close>
named_theorems swim_simps \<open>projections of the SWIM operations\<close>
named_theorems ctx_simps \<open>projections of the context operations\<close>

section \<open>Lists\<close>

lemma take_list_update_ge [simp]: "n \<le> i \<Longrightarrow> take n (xs[i := v]) = take n xs"
  by (simp add: take_update_swap list_update_beyond)

lemma count_list_eq_count_mset: "count_list xs x = count (mset xs) x"
  by (induction xs) auto

lemma remove1_distinct_filter: "distinct xs \<Longrightarrow> remove1 x xs = filter (\<lambda>y. y \<noteq> x) xs"
  by (simp add: distinct_remove1_removeAll removeAll_filter_not_eq eq_commute)

lemma distinct_concat_map:
  assumes "distinct xs" "\<And>x. x \<in> set xs \<Longrightarrow> distinct (f x)"
    and "\<And>x y. x \<in> set xs \<Longrightarrow> y \<in> set xs \<Longrightarrow> x \<noteq> y \<Longrightarrow> set (f x) \<inter> set (f y) = {}"
  shows "distinct (concat (map f xs))"
  using assms
proof (induction xs)
  case (Cons x xs)
  have "set (f x) \<inter> set (f y) = {}" if "y \<in> set xs" for y
    using Cons.prems that by (metis distinct.simps(2) list.set_intros)
  moreover have "distinct (concat (map f xs))" using Cons by simp
  ultimately show ?case using Cons.prems(2) by auto
qed simp

lemma those_map_Some: "(\<And>x. x \<in> set xs \<Longrightarrow> f x = Some (g x)) \<Longrightarrow> those (map f xs) = Some (map g xs)"
  by (induction xs) auto

section \<open>Words\<close>

lemma unat_mod_size: "unat ((a :: 'a::len word) mod b) = unat a mod unat b"
  by (simp add: unat_mod)

lemma unat_plus_no_wrap:
  "unat (a :: u32) + unat b < 2 ^ 32 \<Longrightarrow> unat (a + b) = unat a + unat b"
  by (simp add: unat_word_ariths)

lemma unat_times_no_wrap:
  "unat (a :: u32) * unat b < 2 ^ 32 \<Longrightarrow> unat (a * b) = unat a * unat b"
  by (simp add: unat_word_ariths)

lemma unat_minus_le: "(b :: 'a::len word) \<le> a \<Longrightarrow> unat (a - b) = unat a - unat b"
  by (simp add: unat_sub)

lemma unat_u32_less: "unat (x :: u32) < 2 ^ 32"
  by (rule order_less_le_trans [OF unsigned_less]) simp

lemma unat_add_1_less: "i < (n :: u32) \<Longrightarrow> unat (i + 1) = Suc (unat i)"
proof -
  assume "i < n"
  then have "unat i + 1 < 2 ^ 32"
    using unat_u32_less [of n] by (simp add: word_less_nat_alt)
  then show ?thesis by (simp add: unat_word_ariths)
qed

end
