(* ===== verification/Rank_List.thy ===== *)
theory Rank_List
  imports Crt_Prelude
begin

text \<open>
  The rank list of gurt (\<^verbatim>\<open>src/gurt/misc.c\<close>): duplication, sorting, duplicate removal, filtering,
  lookup, append and delete, each as the array loop of the source, with the functional behaviour of
  every loop proved against the list operation it stands for. The environment variable readers of
  the same file are modelled at the end.
\<close>

section \<open>The data type\<close>

text \<open>
  \<open>rl_ranks\<close> is the allocated array (\<open>[]\<close> is the \<open>NULL\<close> pointer) and \<open>rl_nr\<close> the number of valid
  entries; after entries have been removed the array is longer than \<open>rl_nr\<close>. Functions that
  allocate take one Boolean per allocation, which says whether it succeeds.
\<close>

record d_rank_list =
  rl_ranks :: "d_rank_t list"
  rl_nr :: nat

definition rl_wf :: "d_rank_list \<Rightarrow> bool" where
  "rl_wf rl \<longleftrightarrow> rl_nr rl \<le> length (rl_ranks rl)"

definition ranks_of :: "d_rank_list \<Rightarrow> d_rank_t list" where
  "ranks_of rl = take (rl_nr rl) (rl_ranks rl)"

section \<open>Operations\<close>

definition d_rank_list_dup ::
  "bool \<Rightarrow> bool \<Rightarrow> bool \<Rightarrow> d_rank_list option \<Rightarrow> rc + d_rank_list option" where
  "d_rank_list_dup dst_ok alloc1 alloc2 src =
     (if \<not> dst_ok then Inl DER_INVAL
      else case src of
        None \<Rightarrow> Inr None
      | Some s \<Rightarrow>
          if \<not> alloc1 then Inl DER_NOMEM
          else if rl_nr s = 0 then Inr (Some \<lparr>rl_ranks = [], rl_nr = 0\<rparr>)
          else if \<not> alloc2 then Inl DER_NOMEM
          else Inr (Some \<lparr>rl_ranks = take (rl_nr s) (rl_ranks s), rl_nr = rl_nr s\<rparr>))"

text \<open>\<open>qsort\<close> with \<open>rank_compare\<close>, a total order, on the first \<open>rl_nr\<close> entries.\<close>

definition d_rank_list_sort :: "d_rank_list \<Rightarrow> d_rank_list" where
  "d_rank_list_sort rl =
     rl\<lparr>rl_ranks := sort (take (rl_nr rl) (rl_ranks rl)) @ drop (rl_nr rl) (rl_ranks rl)\<rparr>"

text \<open>The inner copy loop \<open>for (j = i; j < n; j++) a[j - 1] = a[j]\<close>.\<close>

function shift_down :: "nat \<Rightarrow> nat \<Rightarrow> 'a list \<Rightarrow> 'a list" where
  "shift_down j n xs = (if j < n then shift_down (Suc j) n (xs[j - 1 := xs ! j]) else xs)"
  by pat_completeness auto
termination
  by (relation "measure (\<lambda>(j, n, xs). n - j)") auto

declare shift_down.simps [simp del]

text \<open>The duplicate removal loop of \<open>d_rank_list_dup_sort_uniq\<close>.\<close>

function uniq_loop ::
  "nat \<Rightarrow> nat \<Rightarrow> nat \<Rightarrow> d_rank_t \<Rightarrow> d_rank_t list \<Rightarrow> nat \<times> d_rank_t list" where
  "uniq_loop rank_num i identical_num rank_tmp xs =
     (if i < rank_num - identical_num then
        (if rank_tmp = xs ! i then
           (let ys = shift_down i rank_num xs in
            uniq_loop rank_num (Suc i) (Suc identical_num) (ys ! i) ys)
         else uniq_loop rank_num (Suc i) identical_num (xs ! i) xs)
      else (identical_num, xs))"
  by pat_completeness auto
termination
  by (relation "measure (\<lambda>(n, i, k, t, xs). n - i)") auto

declare uniq_loop.simps [simp del]

definition d_rank_list_dup_sort_uniq ::
  "bool \<Rightarrow> bool \<Rightarrow> bool \<Rightarrow> d_rank_list option \<Rightarrow> rc + d_rank_list option" where
  "d_rank_list_dup_sort_uniq dst_ok alloc1 alloc2 src =
     (case d_rank_list_dup dst_ok alloc1 alloc2 src of
        Inl e \<Rightarrow> Inl e
      | Inr None \<Rightarrow> Inr None
      | Inr (Some rank_list) \<Rightarrow>
          if rl_ranks rank_list = [] then Inr (Some rank_list)
          else
            (let sorted_list = d_rank_list_sort rank_list; rank_num = rl_nr (the src) in
             if rank_num \<le> 1 then Inr (Some sorted_list)
             else
               (let (identical_num, xs) =
                      uniq_loop rank_num 1 0 (rl_ranks sorted_list ! 0) (rl_ranks sorted_list)
                in Inr (Some \<lparr>rl_ranks = xs, rl_nr = rl_nr sorted_list - identical_num\<rparr>))))"

fun find_idx :: "nat \<Rightarrow> d_rank_t list \<Rightarrow> d_rank_t \<Rightarrow> nat option" where
  "find_idx i [] r = None"
| "find_idx i (x # xs) r = (if x = r then Some i else find_idx (Suc i) xs r)"

definition d_rank_in_rank_list :: "d_rank_list option \<Rightarrow> d_rank_t \<Rightarrow> bool" where
  "d_rank_in_rank_list rank_list rank =
     (case rank_list of
        None \<Rightarrow> False
      | Some rl \<Rightarrow> (case find_idx 0 (take (rl_nr rl) (rl_ranks rl)) rank of
                     None \<Rightarrow> False | Some _ \<Rightarrow> True))"

definition d_idx_in_rank_list :: "bool \<Rightarrow> d_rank_list option \<Rightarrow> d_rank_t \<Rightarrow> rc + nat" where
  "d_idx_in_rank_list idx_ok rank_list rank =
     (case rank_list of
        None \<Rightarrow> Inl DER_INVAL
      | Some rl \<Rightarrow>
          if \<not> idx_ok then Inl DER_INVAL
          else (case find_idx 0 (take (rl_nr rl) (rl_ranks rl)) rank of
                  None \<Rightarrow> Inl DER_NONEXIST | Some i \<Rightarrow> Inr i))"

text \<open>
  The filter loop. The C counter is decremented after a removal and incremented by the loop head,
  so the same index is looked at again.
\<close>

function filter_loop ::
  "d_rank_list \<Rightarrow> bool \<Rightarrow> nat \<Rightarrow> nat \<Rightarrow> nat \<Rightarrow> d_rank_t list \<Rightarrow> nat \<times> d_rank_t list" where
  "filter_loop src exclude rank_num i filter_num xs =
     (if i < rank_num - filter_num then
        (if d_rank_in_rank_list (Some src) (xs ! i) \<noteq> exclude
         then filter_loop src exclude rank_num (Suc i) filter_num xs
         else filter_loop src exclude rank_num i (Suc filter_num)
                (shift_down (Suc i) rank_num xs))
      else (filter_num, xs))"
  by pat_completeness auto
termination
  by (relation "measure (\<lambda>(s, e, n, i, k, xs). n - k - i)") auto

declare filter_loop.simps [simp del]

definition d_rank_list_filter ::
  "d_rank_list option \<Rightarrow> d_rank_list option \<Rightarrow> bool \<Rightarrow> d_rank_list option" where
  "d_rank_list_filter src_set dst_set exclude =
     (case (src_set, dst_set) of
        (Some src, Some dst) \<Rightarrow>
          if rl_ranks src = [] \<or> rl_ranks dst = [] then Some dst
          else if rl_nr dst = 0 then Some dst
          else (let (filter_num, xs) = filter_loop src exclude (rl_nr dst) 0 0 (rl_ranks dst)
                in Some \<lparr>rl_ranks = xs, rl_nr = rl_nr dst - filter_num\<rparr>)
      | _ \<Rightarrow> dst_set)"

definition d_rank_list_alloc :: "bool \<Rightarrow> bool \<Rightarrow> nat \<Rightarrow> d_rank_list option" where
  "d_rank_list_alloc alloc1 alloc2 nr =
     (if \<not> alloc1 then None
      else if nr = 0 then Some \<lparr>rl_ranks = [], rl_nr = 0\<rparr>
      else if \<not> alloc2 then None
      else Some \<lparr>rl_ranks = map of_nat [0..<nr], rl_nr = nr\<rparr>)"

text \<open>
  \<open>realloc\<close> keeps the common prefix; what the grown part holds is the argument \<open>fill\<close>. The result
  pairs the returned pointer with what the argument's structure has become (\<open>None\<close>: it was freed).
\<close>

definition d_rank_list_realloc ::
  "bool \<Rightarrow> bool \<Rightarrow> (nat \<Rightarrow> d_rank_t) \<Rightarrow> d_rank_list option \<Rightarrow> nat \<Rightarrow>
     d_rank_list option \<times> d_rank_list option" where
  "d_rank_list_realloc alloc1 alloc2 fill ptr nr =
     (case ptr of
        None \<Rightarrow> (d_rank_list_alloc alloc1 alloc2 nr, None)
      | Some rl \<Rightarrow>
          if nr = 0 then (None, None)
          else if alloc1
          then (let rl' = \<lparr>rl_ranks = map (\<lambda>i. if i < length (rl_ranks rl) then rl_ranks rl ! i
                                               else fill i) [0..<nr],
                           rl_nr = nr\<rparr> in (Some rl', Some rl'))
          else (None, Some rl))"

definition d_rank_list_copy ::
  "bool \<Rightarrow> (nat \<Rightarrow> d_rank_t) \<Rightarrow> d_rank_list option \<Rightarrow> d_rank_list option \<Rightarrow>
     rc \<times> d_rank_list option" where
  "d_rank_list_copy alloc fill dst src =
     (case (dst, src) of
        (Some d, Some s) \<Rightarrow>
          (let overwrite = (\<lambda>d. d\<lparr>rl_ranks := take (rl_nr d) (rl_ranks s)
                                             @ drop (rl_nr d) (rl_ranks d)\<rparr>) in
           if rl_nr d \<noteq> rl_nr s then
             (case d_rank_list_realloc alloc alloc fill (Some d) (rl_nr s) of
                (None, left) \<Rightarrow> (DER_NOMEM, left)
              | (Some d', _) \<Rightarrow> (DER_SUCCESS, Some (overwrite (d'\<lparr>rl_nr := rl_nr s\<rparr>))))
           else (DER_SUCCESS, Some (overwrite d)))
      | _ \<Rightarrow> (DER_INVAL, dst))"

definition d_rank_list_find :: "d_rank_list option \<Rightarrow> d_rank_t \<Rightarrow> nat option" where
  "d_rank_list_find rank_list rank =
     (case rank_list of
        None \<Rightarrow> None
      | Some rl \<Rightarrow> find_idx 0 (take (rl_nr rl) (rl_ranks rl)) rank)"

text \<open>
  Deleting moves the tail down by one (\<open>memmove\<close>) and shrinks the array. The state component is
  \<open>None\<close> when the structure has been freed.
\<close>

definition d_rank_list_del ::
  "bool \<Rightarrow> (nat \<Rightarrow> d_rank_t) \<Rightarrow> d_rank_list option \<Rightarrow> d_rank_t \<Rightarrow> rc \<times> d_rank_list option" where
  "d_rank_list_del alloc fill rank_list rank =
     (case rank_list of
        None \<Rightarrow> (DER_INVAL, None)
      | Some rl \<Rightarrow>
          (case d_rank_list_find rank_list rank of
             None \<Rightarrow> (DER_SUCCESS, Some rl)
           | Some idx \<Rightarrow>
               (let new_num = rl_nr rl - 1;
                    xs = rl_ranks rl;
                    moved = take idx xs @ take (new_num - idx) (drop (Suc idx) xs) @ drop new_num xs
                in case d_rank_list_realloc alloc alloc fill
                          (Some (rl\<lparr>rl_ranks := moved\<rparr>)) new_num of
                     (None, left) \<Rightarrow> (DER_NOMEM, left)
                   | (Some rl', _) \<Rightarrow> (DER_SUCCESS, Some rl'))))"

definition d_rank_list_append ::
  "bool \<Rightarrow> (nat \<Rightarrow> d_rank_t) \<Rightarrow> d_rank_list \<Rightarrow> d_rank_t \<Rightarrow> rc \<times> d_rank_list option" where
  "d_rank_list_append alloc fill rl rank =
     (case d_rank_list_realloc alloc alloc fill (Some rl) (rl_nr rl + 1) of
        (None, left) \<Rightarrow> (DER_NOMEM, left)
      | (Some rl', _) \<Rightarrow> (DER_SUCCESS, Some (rl'\<lparr>rl_ranks := (rl_ranks rl')[rl_nr rl := rank]\<rparr>)))"

text \<open>
  The comparison sorts its first argument in place and only that one; the argument \<open>same\<close> says
  that both pointers are equal. The second component is the first list afterwards.
\<close>

definition d_rank_list_identical ::
  "bool \<Rightarrow> d_rank_list option \<Rightarrow> d_rank_list option \<Rightarrow> bool \<times> d_rank_list option" where
  "d_rank_list_identical same rank_list1 rank_list2 =
     (if same then (True, rank_list1)
      else case (rank_list1, rank_list2) of
        (Some l1, Some l2) \<Rightarrow>
          if rl_nr l1 \<noteq> rl_nr l2 then (False, Some l1)
          else (let s1 = d_rank_list_sort l1 in
                (take (rl_nr s1) (rl_ranks s1) = take (rl_nr s1) (rl_ranks l2), Some s1))
      | _ \<Rightarrow> (False, rank_list1))"

section \<open>Environment variables\<close>

text \<open>
  \<open>getenv\<close> is the argument \<open>genv\<close>. \<open>atoi\<close> skips white space, reads an optional sign and the longest
  run of digits; the C function leaves overflow undefined, so it is modelled on unbounded integers
  and the conversion to \<open>unsigned\<close> is the wrap-around of the assignment.
\<close>

definition is_digit :: "char \<Rightarrow> bool" where
  "is_digit c \<longleftrightarrow> (of_char c :: nat) \<le> 57 \<and> 48 \<le> (of_char c :: nat)"

definition is_space :: "char \<Rightarrow> bool" where
  "is_space c \<longleftrightarrow> (of_char c :: nat) = 32 \<or> (9 \<le> (of_char c :: nat) \<and> (of_char c :: nat) \<le> 13)"

fun digits_val :: "int \<Rightarrow> string \<Rightarrow> int" where
  "digits_val acc [] = acc"
| "digits_val acc (c # cs) =
     (if is_digit c then digits_val (acc * 10 + (of_char c - 48)) cs else acc)"

definition atoi :: "string \<Rightarrow> int" where
  "atoi str =
     (case dropWhile is_space str of
        [] \<Rightarrow> 0
      | c # cs \<Rightarrow>
          if c = CHR ''-'' then - digits_val 0 cs
          else if c = CHR ''+'' then digits_val 0 cs
          else digits_val 0 (c # cs))"

fun all_digits :: "string \<Rightarrow> bool" where
  "all_digits [] = True"
| "all_digits (c # cs) = (if is_digit c then all_digits cs else False)"

definition dis_integer_str :: "string option \<Rightarrow> bool" where
  "dis_integer_str str =
     (case str of None \<Rightarrow> False | Some p \<Rightarrow> if length p = 0 then False else all_digits p)"

definition d_getenv_bool :: "(string \<Rightarrow> string option) \<Rightarrow> string option \<Rightarrow> bool \<Rightarrow> bool" where
  "d_getenv_bool genv env bool_val =
     (case env of
        None \<Rightarrow> bool_val
      | Some name \<Rightarrow>
          (case genv name of
             None \<Rightarrow> bool_val
           | Some env_val \<Rightarrow>
               (let bool_val1 = (if \<not> dis_integer_str (Some env_val) then True else bool_val);
                    bool_val2 = (if atoi env_val = 0 then False else True)
                in bool_val2)))"

definition d_getenv_int :: "(string \<Rightarrow> string option) \<Rightarrow> string option \<Rightarrow> u32 \<Rightarrow> u32" where
  "d_getenv_int genv env int_val =
     (case env of
        None \<Rightarrow> int_val
      | Some name \<Rightarrow>
          (case genv name of
             None \<Rightarrow> int_val
           | Some env_val \<Rightarrow>
               if \<not> dis_integer_str (Some env_val) then int_val
               else word_of_int (atoi env_val)))"

section \<open>Lookup\<close>

lemma find_idx_None [rank_simps]: "find_idx i xs r = None \<longleftrightarrow> r \<notin> set xs"
  by (induction xs arbitrary: i) auto

lemma find_idx_SomeD:
  "find_idx i xs r = Some k \<Longrightarrow>
     i \<le> k \<and> k - i < length xs \<and> xs ! (k - i) = r \<and> (\<forall>j < k - i. xs ! j \<noteq> r)"
proof (induction xs arbitrary: i)
  case Nil
  then show ?case by simp
next
  case (Cons x xs)
  show ?case
  proof (cases "x = r")
    case True
    with Cons.prems show ?thesis by simp
  next
    case False
    with Cons.prems have "find_idx (Suc i) xs r = Some k" by simp
    then have IH: "Suc i \<le> k \<and> k - Suc i < length xs \<and> xs ! (k - Suc i) = r \<and>
        (\<forall>j < k - Suc i. xs ! j \<noteq> r)"
      by (rule Cons.IH)
    then obtain m where m: "k - i = Suc m" "k - Suc i = m" by (metis Suc_diff_Suc Suc_le_lessD)
    with IH False show ?thesis by (auto simp: less_Suc_eq_0_disj)
  qed
qed

lemma find_idx_nth:
  "distinct xs \<Longrightarrow> k < length xs \<Longrightarrow> find_idx i xs (xs ! k) = Some (i + k)"
proof (induction xs arbitrary: i k)
  case Nil
  then show ?case by simp
next
  case (Cons x xs)
  then show ?case by (cases k) (auto simp: nth_mem)
qed

lemma in_rank_list_iff [rank_simps]:
  "d_rank_in_rank_list (Some rl) r \<longleftrightarrow> r \<in> set (ranks_of rl)"
  using find_idx_None [of 0 "ranks_of rl" r]
  by (auto simp: d_rank_in_rank_list_def ranks_of_def split: option.splits)

lemma idx_in_rank_list_InrD:
  assumes "d_idx_in_rank_list ok (Some rl) r = Inr k"
  shows "k < length (ranks_of rl) \<and> ranks_of rl ! k = r"
  using assms find_idx_SomeD [of 0 "ranks_of rl" r k]
  by (auto simp: d_idx_in_rank_list_def ranks_of_def split: option.splits if_splits)

lemma idx_in_rank_list_nth:
  assumes "distinct (ranks_of rl)" and "k < length (ranks_of rl)"
  shows "d_idx_in_rank_list True (Some rl) (ranks_of rl ! k) = Inr k"
  using find_idx_nth [OF assms, of 0] by (simp add: d_idx_in_rank_list_def ranks_of_def)

lemma idx_in_rank_list_notin:
  "r \<notin> set (ranks_of rl) \<Longrightarrow> d_idx_in_rank_list True (Some rl) r = Inl DER_NONEXIST"
  using find_idx_None [of 0 "ranks_of rl" r]
  by (simp add: d_idx_in_rank_list_def ranks_of_def)

section \<open>Array loops\<close>

lemma shift_down_eq:
  "1 \<le> j \<Longrightarrow> j \<le> n \<Longrightarrow> n \<le> length xs \<Longrightarrow>
     shift_down j n xs = take (j - 1) xs @ take (n - j) (drop j xs) @ drop (n - 1) xs"
proof (induction j n xs rule: shift_down.induct)
  case (1 j n xs)
  show ?case
  proof (cases "j < n")
    case False
    with "1.prems" have "j = n" by simp
    then show ?thesis by (simp add: shift_down.simps [of n n xs])
  next
    case True
    let ?ys = "xs[j - 1 := xs ! j]"
    have jl: "j < length xs" using True "1.prems" by simp
    have t: "take j ?ys = take (j - 1) xs @ [xs ! j]"
    proof -
      have "take j ?ys = take (Suc (j - 1)) ?ys" using "1.prems" by simp
      also have "\<dots> = take (j - 1) ?ys @ [?ys ! (j - 1)]"
        using jl by (subst take_Suc_conv_app_nth) auto
      finally show ?thesis using jl by simp
    qed
    have d: "drop (Suc j) ?ys = drop (Suc j) xs" "drop (n - 1) ?ys = drop (n - 1) xs"
      using True "1.prems" by auto
    have m: "take (n - j) (drop j xs) = xs ! j # take (n - Suc j) (drop (Suc j) xs)"
      using True jl by (metis Cons_nth_drop_Suc Suc_diff_Suc take_Suc_Cons)
    have "shift_down (Suc j) n ?ys =
        take j ?ys @ take (n - Suc j) (drop (Suc j) ?ys) @ drop (n - 1) ?ys"
      using "1.IH" [OF True] True "1.prems" by simp
    then show ?thesis
      using True t d m by (simp add: shift_down.simps [of j n xs])
  qed
qed

lemma length_shift_down [simp]: "length (shift_down j n xs) = length xs"
  by (induction j n xs rule: shift_down.induct)
    (metis length_list_update shift_down.simps)

text \<open>What remains of the first \<open>m\<close> entries when entry \<open>i\<close> is overwritten by its successors.\<close>

lemma take_shift_down:
  assumes "i < m" "m \<le> n" "n \<le> length xs"
  shows "take (m - 1) (shift_down (Suc i) n xs) = take i xs @ drop (Suc i) (take m xs)"
proof -
  have "shift_down (Suc i) n xs =
      take i xs @ take (n - Suc i) (drop (Suc i) xs) @ drop (n - 1) xs"
    using shift_down_eq [of "Suc i" n xs] assms by simp
  moreover have "length (take i xs) = i" "length (take (n - Suc i) (drop (Suc i) xs)) = n - Suc i"
    using assms by simp_all
  ultimately have "take (m - 1) (shift_down (Suc i) n xs) =
      take i xs @ take (m - 1 - i) (take (n - Suc i) (drop (Suc i) xs))"
    using assms by simp
  also have "take (m - 1 - i) (take (n - Suc i) (drop (Suc i) xs)) = drop (Suc i) (take m xs)"
    using assms by (simp add: drop_take min_def)
  finally show ?thesis .
qed

text \<open>
  The list function the duplicate removal loop computes: after a match the next entry is taken
  over without being compared with its predecessor.
\<close>

fun uniq_pairs :: "'a list \<Rightarrow> 'a list" where
  "uniq_pairs [] = []"
| "uniq_pairs [x] = [x]"
| "uniq_pairs (x # y # zs) = (if x = y then x # uniq_pairs zs else x # uniq_pairs (y # zs))"

lemma nth_take_split: "take m xs = A @ x # B \<Longrightarrow> xs ! length A = x"
  by (metis append_take_drop_id nth_append_length append.assoc append_Cons)

lemma take_shift_down_split:
  assumes "take m xs = A @ x # B" "m \<le> n" "n \<le> length xs"
  shows "take (m - 1) (shift_down (Suc (length A)) n xs) = A @ B"
proof -
  have m: "m = length A + Suc (length B)"
    using assms by (metis length_append length_Cons length_take le_trans min.absorb2)
  then have "take (length A) xs = A"
    using assms(1) by (metis append_eq_conv_conj le_add1 min.absorb1 take_take)
  moreover have "drop (Suc (length A)) (take m xs) = B" using assms(1) by simp
  ultimately show ?thesis using take_shift_down [of "length A" m n xs] assms m by simp
qed

lemma distinct_count_le_1: "distinct xs \<longleftrightarrow> (\<forall>r. count_list xs r \<le> 1)"
proof (induction xs)
  case (Cons x xs)
  have "(\<forall>r. count_list (x # xs) r \<le> 1) \<longleftrightarrow> (\<forall>r. count_list xs r \<le> 1) \<and> count_list xs x = 0"
    by (metis One_nat_def Suc_eq_plus1 Suc_le_mono count_list.simps(2) le_SucI le_zero_eq not_less_eq_eq)
  with Cons.IH show ?case by (auto simp: count_list_0_iff)
qed simp

lemma uniq_loop_correct:
  assumes "uniq_loop n i k t xs = (k', ys)"
    and "take (n - k) xs = A @ t # B" "i = Suc (length A)" "n \<le> length xs"
  shows "take (n - k') ys = A @ uniq_pairs (t # B) \<and> k' \<le> n \<and> n \<le> length ys"
  using assms
proof (induction n i k t xs arbitrary: A B rule: uniq_loop.induct)
  case (1 n i k t xs)
  note eq = "1.prems"(1) [unfolded uniq_loop.simps [of n i k t xs]]
  have len: "n - k = length A + Suc (length B)"
    using "1.prems"(2,4) by (metis diff_le_self le_trans length_append length_Cons length_take min.absorb2)
  show ?case
  proof (cases B)
    case Nil
    then show ?thesis using eq len "1.prems" by simp
  next
    case (Cons b C)
    have lt: "i < n - k" using len Cons "1.prems"(3) by simp
    have split: "take (n - k) xs = (A @ [t]) @ b # C" using "1.prems"(2) Cons by simp
    have xi: "xs ! i = b" using nth_take_split [OF split] "1.prems"(3) by simp
    show ?thesis
    proof (cases "t = b")
      case False
      then have rec: "uniq_loop n (Suc i) k (xs ! i) xs = (k', ys)" using eq lt xi by simp
      have "take (n - k') ys = (A @ [t]) @ uniq_pairs (xs ! i # C) \<and> k' \<le> n \<and> n \<le> length ys"
        by (rule "1.IH"(2) [OF lt _ rec]) (use False xi split "1.prems"(3,4) in auto)
      then show ?thesis using False Cons xi by simp
    next
      case True
      let ?us = "shift_down i n xs"
      have us: "take (n - Suc k) ?us = A @ t # C"
        using take_shift_down_split [OF "1.prems"(2), of n] "1.prems"(3,4) Cons True by simp
      have rec: "uniq_loop n (Suc i) (Suc k) (?us ! i) ?us = (k', ys)"
        using eq lt xi True by (simp add: Let_def)
      show ?thesis
      proof (cases C)
        case Nil
        then have "\<not> Suc i < n - Suc k" using len Cons "1.prems"(3) by simp
        then have "k' = Suc k \<and> ys = ?us"
          using rec by (subst (asm) uniq_loop.simps) simp
        then show ?thesis using us Nil Cons True len "1.prems"(4) by simp
      next
        case C: (Cons c D)
        have split': "take (n - Suc k) ?us = (A @ [t]) @ c # D" using us C by simp
        have ui: "?us ! i = c" using nth_take_split [OF split'] "1.prems"(3) by simp
        have "take (n - k') ys = (A @ [t]) @ uniq_pairs (?us ! i # D) \<and> k' \<le> n \<and> n \<le> length ys"
          by (rule "1.IH"(1) [OF lt _ refl rec])
            (use xi True split' ui "1.prems"(3,4) in auto)
        then show ?thesis using True Cons C ui by simp
      qed
    qed
  qed
qed

lemma set_uniq_pairs [simp]: "set (uniq_pairs xs) = set xs"
  by (induction xs rule: uniq_pairs.induct) auto

lemma sorted_uniq_pairs: "sorted xs \<Longrightarrow> sorted (uniq_pairs (xs :: 'a::linorder list))"
  by (induction xs rule: uniq_pairs.induct) auto

lemma count_uniq_pairs:
  "sorted xs \<Longrightarrow> count_list (uniq_pairs (xs :: 'a::linorder list)) r = (count_list xs r + 1) div 2"
proof (induction xs rule: uniq_pairs.induct)
  case (3 x y zs)
  show ?case
  proof (cases "x = y")
    case True
    with 3 show ?thesis by simp
  next
    case False
    with "3.prems" have "x \<notin> set (y # zs)" by fastforce
    then have "count_list (y # zs) x = 0" by (metis count_list_0_iff)
    with 3 False show ?thesis by (cases "r = x") auto
  qed
qed auto

lemma filter_loop_correct:
  assumes "filter_loop src ex n i k xs = (k', ys)"
    and "take (n - k) xs = A @ B" "i = length A" "n \<le> length xs" "k \<le> n"
  shows "take (n - k') ys = A @ filter (\<lambda>r. d_rank_in_rank_list (Some src) r \<noteq> ex) B
    \<and> k' \<le> n \<and> n \<le> length ys"
  using assms
proof (induction src ex n i k xs arbitrary: A B rule: filter_loop.induct)
  case (1 src ex n i k xs)
  note eq = "1.prems"(1) [unfolded filter_loop.simps [of src ex n i k xs]]
  have len: "n - k = length A + length B"
    using "1.prems"(2,4) by (metis diff_le_self le_trans length_append length_take min.absorb2)
  show ?case
  proof (cases B)
    case Nil
    then show ?thesis using eq len "1.prems" by simp
  next
    case (Cons b C)
    have lt: "i < n - k" using len Cons "1.prems"(3) by simp
    have split: "take (n - k) xs = A @ b # C" using "1.prems"(2) Cons by simp
    have xi: "xs ! i = b" using nth_take_split [OF split] "1.prems"(3) by simp
    show ?thesis
    proof (cases "d_rank_in_rank_list (Some src) b \<noteq> ex")
      case True
      then have rec: "filter_loop src ex n (Suc i) k xs = (k', ys)" using eq lt xi by simp
      have "take (n - k') ys = (A @ [b]) @ filter (\<lambda>r. d_rank_in_rank_list (Some src) r \<noteq> ex) C
          \<and> k' \<le> n \<and> n \<le> length ys"
        by (rule "1.IH"(1) [OF lt _ rec]) (use True xi split "1.prems"(3,4,5) in auto)
      then show ?thesis using True Cons by simp
    next
      case False
      let ?us = "shift_down (Suc i) n xs"
      have rec: "filter_loop src ex n i (Suc k) ?us = (k', ys)" using eq lt xi False by simp
      have us: "take (n - Suc k) ?us = A @ C"
        using take_shift_down_split [OF split, of n] "1.prems"(3,4) by simp
      have "take (n - k') ys = A @ filter (\<lambda>r. d_rank_in_rank_list (Some src) r \<noteq> ex) C
          \<and> k' \<le> n \<and> n \<le> length ys"
        by (rule "1.IH"(2) [OF lt _ rec]) (use False xi us lt "1.prems"(3,4) in auto)
      then show ?thesis using False Cons by simp
    qed
  qed
qed

section \<open>Behaviour of the operations\<close>

lemma ranks_of_sort [rank_simps]: "rl_wf rl \<Longrightarrow> ranks_of (d_rank_list_sort rl) = sort (ranks_of rl)"
  by (simp add: d_rank_list_sort_def ranks_of_def rl_wf_def)

lemma rl_wf_sort [rank_simps]: "rl_wf (d_rank_list_sort rl) = rl_wf rl"
  by (auto simp: d_rank_list_sort_def rl_wf_def)

lemma length_ranks_of [simp]: "rl_wf rl \<Longrightarrow> length (ranks_of rl) = rl_nr rl"
  by (simp add: ranks_of_def rl_wf_def)

lemma dup_sort_uniq_eq:
  assumes "rl_wf s"
  obtains rl where "d_rank_list_dup_sort_uniq True True True (Some s) = Inr (Some rl)"
    and "rl_wf rl" and "ranks_of rl = uniq_pairs (sort (ranks_of s))"
proof (cases "rl_nr s \<le> 1")
  case True
  then consider "rl_nr s = 0" | "rl_nr s = 1" by linarith
  then show thesis
  proof cases
    case 1
    then show thesis
      using that [of "\<lparr>rl_ranks = [], rl_nr = 0\<rparr>"]
      by (simp add: d_rank_list_dup_sort_uniq_def d_rank_list_dup_def rl_wf_def ranks_of_def)
  next
    case 2
    then obtain x xs where x: "rl_ranks s = x # xs"
      using assms by (cases "rl_ranks s") (auto simp: rl_wf_def)
    then show thesis
      using 2 that [of "\<lparr>rl_ranks = [x], rl_nr = 1\<rparr>"]
      by (simp add: d_rank_list_dup_sort_uniq_def d_rank_list_dup_def d_rank_list_sort_def
          rl_wf_def ranks_of_def)
  qed
next
  case False
  define ys where "ys = sort (ranks_of s)"
  have ly: "length ys = rl_nr s" using assms by (simp add: ys_def)
  obtain k zs where loop: "uniq_loop (rl_nr s) 1 0 (ys ! 0) ys = (k, zs)" by fastforce
  obtain y ys' where y: "ys = y # ys'" using ly False by (cases ys) auto
  have "take (rl_nr s - k) zs = [] @ uniq_pairs (ys ! 0 # ys') \<and> k \<le> rl_nr s \<and> rl_nr s \<le> length zs"
    by (rule uniq_loop_correct [OF loop]) (use ly y in auto)
  then have r: "take (rl_nr s - k) zs = uniq_pairs ys" "rl_nr s \<le> length zs" using y by auto
  have ne: "rl_ranks s \<noteq> []" using False assms by (auto simp: rl_wf_def)
  show thesis
  proof (rule that [of "\<lparr>rl_ranks = zs, rl_nr = rl_nr s - k\<rparr>"])
    show "d_rank_list_dup_sort_uniq True True True (Some s) =
        Inr (Some \<lparr>rl_ranks = zs, rl_nr = rl_nr s - k\<rparr>)"
      using False loop ne by (simp add: d_rank_list_dup_sort_uniq_def d_rank_list_dup_def
          d_rank_list_sort_def ys_def ranks_of_def)
  qed (use r in \<open>auto simp: rl_wf_def ranks_of_def ys_def\<close>)
qed

lemma filter_eq:
  assumes "rl_wf s" "rl_wf d" "rl_ranks s \<noteq> []"
  obtains rl where "d_rank_list_filter (Some s) (Some d) ex = Some rl" and "rl_wf rl"
    and "ranks_of rl = filter (\<lambda>r. r \<in> set (ranks_of s) \<longleftrightarrow> \<not> ex) (ranks_of d)"
proof (cases "rl_nr d = 0")
  case True
  then show thesis using that [of d] assms
    by (auto simp: d_rank_list_filter_def ranks_of_def rl_wf_def)
next
  case False
  obtain k zs where loop: "filter_loop s ex (rl_nr d) 0 0 (rl_ranks d) = (k, zs)" by fastforce
  have "take (rl_nr d - k) zs
      = [] @ filter (\<lambda>r. d_rank_in_rank_list (Some s) r \<noteq> ex) (ranks_of d)
      \<and> k \<le> rl_nr d \<and> rl_nr d \<le> length zs"
    by (rule filter_loop_correct [OF loop]) (use assms in \<open>auto simp: ranks_of_def rl_wf_def\<close>)
  moreover have "rl_ranks d \<noteq> []" using False assms by (auto simp: rl_wf_def)
  ultimately show thesis
    using False loop assms
    by (intro that [of "\<lparr>rl_ranks = zs, rl_nr = rl_nr d - k\<rparr>"])
      (auto simp: d_rank_list_filter_def in_rank_list_iff rl_wf_def ranks_of_def)
qed

lemma remove1_find_idx:
  "find_idx i xs r = Some k \<Longrightarrow> remove1 r xs = take (k - i) xs @ drop (Suc (k - i)) xs"
proof (induction xs arbitrary: i)
  case (Cons x xs)
  show ?case
  proof (cases "x = r")
    case True
    with Cons.prems show ?thesis by simp
  next
    case False
    with Cons.prems have f: "find_idx (Suc i) xs r = Some k" by simp
    then have "Suc i \<le> k" using find_idx_SomeD by fastforce
    then have "k - i = Suc (k - Suc i)" by simp
    with Cons.IH [OF f] False show ?thesis by simp
  qed
qed simp

lemma realloc_shrink:
  assumes "0 < n" "n \<le> length (rl_ranks rl)"
  shows "d_rank_list_realloc True a fill (Some rl) n =
    (let rl' = \<lparr>rl_ranks = take n (rl_ranks rl), rl_nr = n\<rparr> in (Some rl', Some rl'))"
proof -
  have "map (\<lambda>i. if i < length (rl_ranks rl) then rl_ranks rl ! i else fill i) [0..<n]
      = take n (rl_ranks rl)"
    using assms by (intro nth_equalityI) auto
  then show ?thesis using assms by (simp add: d_rank_list_realloc_def)
qed

lemma del_found:
  assumes "rl_wf rl" "r \<in> set (ranks_of rl)" "rl_nr rl \<noteq> 1"
  obtains rl' where "d_rank_list_del True fill (Some rl) r = (DER_SUCCESS, Some rl')"
    and "rl_wf rl'" and "ranks_of rl' = remove1 r (ranks_of rl)"
proof -
  obtain k where k: "find_idx 0 (ranks_of rl) r = Some k"
    using assms(2) find_idx_None [of 0 "ranks_of rl" r] by auto
  have kl: "k < rl_nr rl" using find_idx_SomeD [OF k] assms(1) by simp
  have nl: "rl_nr rl \<le> length (rl_ranks rl)" using assms(1) by (simp add: rl_wf_def)
  define moved where "moved = take k (rl_ranks rl)
      @ take (rl_nr rl - 1 - k) (drop (Suc k) (rl_ranks rl)) @ drop (rl_nr rl - 1) (rl_ranks rl)"
  have tk: "take (rl_nr rl - 1) moved = take k (rl_ranks rl)
      @ take (rl_nr rl - 1 - k) (drop (Suc k) (rl_ranks rl))"
    using kl nl by (simp add: moved_def)
  have "rl_nr rl - 1 \<le> length moved" using kl nl by (simp add: moved_def)
  then have d: "d_rank_list_del True fill (Some rl) r =
      (DER_SUCCESS, Some \<lparr>rl_ranks = take (rl_nr rl - 1) moved, rl_nr = rl_nr rl - 1\<rparr>)"
    using k kl assms(3) realloc_shrink [of "rl_nr rl - 1" "rl\<lparr>rl_ranks := moved\<rparr>" True fill]
    by (simp add: d_rank_list_del_def d_rank_list_find_def ranks_of_def moved_def Let_def)
  have "take (rl_nr rl - 1) moved = remove1 r (ranks_of rl)"
    using remove1_find_idx [OF k] kl nl tk
    by (simp add: ranks_of_def drop_take min_def)
  then show thesis
    using assms(1,2) length_remove1 [of r "ranks_of rl"]
    by (intro that [OF d]) (auto simp: rl_wf_def ranks_of_def)
qed

lemma append_eq:
  assumes "rl_wf rl"
  obtains rl' where "d_rank_list_append True fill rl r = (DER_SUCCESS, Some rl')"
    and "rl_wf rl'" and "ranks_of rl' = ranks_of rl @ [r]"
proof -
  define xs where "xs = map (\<lambda>i. if i < length (rl_ranks rl) then rl_ranks rl ! i else fill i)
      [0..<Suc (rl_nr rl)]"
  have lx: "length xs = Suc (rl_nr rl)" by (simp add: xs_def)
  have "take (rl_nr rl) xs = ranks_of rl"
    using assms by (intro nth_equalityI) (auto simp: xs_def ranks_of_def rl_wf_def simp del: upt_Suc)
  then have "xs[rl_nr rl := r] = ranks_of rl @ [r]"
    using lx by (metis append_butlast_last_id butlast_conv_take diff_Suc_1 length_0_conv
        list_update_length nat.distinct(1) upd_conv_take_nth_drop lessI drop_all order_refl)
  moreover have d: "d_rank_list_append True fill rl r =
      (DER_SUCCESS, Some \<lparr>rl_ranks = xs[rl_nr rl := r], rl_nr = Suc (rl_nr rl)\<rparr>)"
    by (simp add: d_rank_list_append_def d_rank_list_realloc_def xs_def Let_def)
  ultimately show thesis
    using assms lx by (intro that [OF d]) (auto simp: rl_wf_def ranks_of_def)
qed

section \<open>Properties\<close>

text \<open>
  Property C37. \<open>d_rank_list_dup_sort_uniq\<close> returns a well-formed, ascending list with exactly the
  ranks of the source. A rank that occurs \<open>n\<close> times is kept \<open>(n + 1) div 2\<close> times: the loop takes
  over the entry behind a removed duplicate without looking at it, so only pairs are collapsed.
\<close>

theorem dup_sort_uniq_counts:
  assumes "rl_wf s"
  shows "\<exists>rl. d_rank_list_dup_sort_uniq True True True (Some s) = Inr (Some rl) \<and> rl_wf rl
    \<and> sorted (ranks_of rl) \<and> set (ranks_of rl) = set (ranks_of s)
    \<and> (\<forall>r. count_list (ranks_of rl) r = (count_list (ranks_of s) r + 1) div 2)"
proof -
  obtain rl where rl: "d_rank_list_dup_sort_uniq True True True (Some s) = Inr (Some rl)" "rl_wf rl"
    "ranks_of rl = uniq_pairs (sort (ranks_of s))"
    using dup_sort_uniq_eq [OF assms] by metis
  have "count_list (sort (ranks_of s)) r = count_list (ranks_of s) r" for r
    by (simp add: count_list_eq_count_mset)
  with rl show ?thesis by (auto simp: sorted_uniq_pairs count_uniq_pairs)
qed

theorem dup_sort_uniq_counts_witness:
  "rl_wf \<lparr>rl_ranks = [7, 3, 7, 7], rl_nr = 4\<rparr> \<and>
   (\<exists>rl. d_rank_list_dup_sort_uniq True True True (Some \<lparr>rl_ranks = [7, 3, 7, 7], rl_nr = 4\<rparr>)
           = Inr (Some rl) \<and> count_list (ranks_of rl) 7 = 2)"
proof -
  have wf: "rl_wf \<lparr>rl_ranks = [7, 3, 7, 7], rl_nr = 4\<rparr>" by (simp add: rl_wf_def)
  show ?thesis using wf dup_sort_uniq_counts [OF wf] by (auto simp: ranks_of_def)
qed







text \<open>
  Appending a rank that is not yet in a non-empty list and deleting it again gives the
  original sequence of ranks back.
\<close>

lemma append_del_roundtrip:
  assumes "rl_wf rl" "r \<notin> set (ranks_of rl)" "0 < rl_nr rl"
  shows "\<exists>rl1 rl2. d_rank_list_append True fill rl r = (DER_SUCCESS, Some rl1)
    \<and> d_rank_list_del True fill (Some rl1) r = (DER_SUCCESS, Some rl2)
    \<and> rl_wf rl2 \<and> ranks_of rl2 = ranks_of rl"
proof -
  obtain rl1 where 1: "d_rank_list_append True fill rl r = (DER_SUCCESS, Some rl1)" "rl_wf rl1"
    "ranks_of rl1 = ranks_of rl @ [r]"
    using append_eq [OF assms(1)] by metis
  have "rl_nr rl1 \<noteq> 1"
    using 1 assms by (metis Suc_eq_plus1 length_append_singleton length_ranks_of less_not_refl
        nat.inject One_nat_def)
  then obtain rl2 where 2: "d_rank_list_del True fill (Some rl1) r = (DER_SUCCESS, Some rl2)"
    "rl_wf rl2" "ranks_of rl2 = remove1 r (ranks_of rl1)"
    using del_found [OF 1(2), of r fill] 1(3) by auto
  with 1 assms(2) show ?thesis by (simp add: remove1_append)
qed

text \<open>
  \<open>d_rank_list_identical\<close> sorts the first list only: it answers that two lists are the
  same when the second one is the ascending arrangement of the first, and rejects every
  permutation whose second list is not ascending.
\<close>

lemma rank_list_identical_iff:
  assumes "rl_wf l1" "rl_wf l2"
  shows "fst (d_rank_list_identical False (Some l1) (Some l2)) \<longleftrightarrow>
    mset (ranks_of l1) = mset (ranks_of l2) \<and> sorted (ranks_of l2)"
proof -
  have "fst (d_rank_list_identical False (Some l1) (Some l2)) \<longleftrightarrow>
      length (ranks_of l1) = length (ranks_of l2) \<and> sort (ranks_of l1) = ranks_of l2"
    using assms by (auto simp: d_rank_list_identical_def Let_def d_rank_list_sort_def ranks_of_def
        rl_wf_def)
  also have "\<dots> \<longleftrightarrow> mset (ranks_of l1) = mset (ranks_of l2) \<and> sorted (ranks_of l2)"
    by (auto dest: mset_eq_length simp: properties_for_sort)
      (metis mset_sort, metis sorted_sort)
  finally show ?thesis .
qed

text \<open>
  \<open>d_getenv_bool\<close> lets the numeric reading decide: a variable whose value does not
  start with a number (after white space and a sign) reads as \<open>false\<close>, whatever the caller's
  default. The comment in the source says such strings count as \<open>true\<close>.
\<close>

lemma getenv_bool_numeric:
  "d_getenv_bool genv (Some name) dflt = (case genv name of None \<Rightarrow> dflt | Some v \<Rightarrow> atoi v \<noteq> 0)
   \<and> d_getenv_bool (\<lambda>_. Some ''yes'') (Some name) True = False"
proof -
  have "atoi ''yes'' = 0" by code_simp
  then show ?thesis by (auto simp: d_getenv_bool_def split: option.splits)
qed

end
