(* ===== verification/Tree_Topo.thy ===== *)
theory Tree_Topo
  imports Crt_Prelude
begin

text \<open>
  The tree topologies of the collective RPCs: the helpers of \<^verbatim>\<open>src/cart/crt_tree.h\<close> and the three
  tables of operations of \<^verbatim>\<open>crt_tree_flat.c\<close>, \<^verbatim>\<open>crt_tree_kary.c\<close> and \<^verbatim>\<open>crt_tree_knomial.c\<close>, on 32-bit
  unsigned ranks. The contract of a table (\<open>struct crt_topo_ops\<close>) is the locale \<open>spanning_topo\<close>; from
  it follows that forwarding a message from the root to children reaches every rank exactly once.
  All three tables are interpretations.

  A function whose \<open>D_ASSERT\<close> can fail returns an \<open>option\<close>: \<open>None\<close> is the abort.
\<close>

section \<open>Helpers of crt_tree.h and the topology code\<close>

definition CRT_TREE_MIN :: int where "CRT_TREE_MIN = 1"
definition CRT_TREE_FLAT :: int where "CRT_TREE_FLAT = 1"
definition CRT_TREE_KARY :: int where "CRT_TREE_KARY = 2"
definition CRT_TREE_KNOMIAL :: int where "CRT_TREE_KNOMIAL = 3"
definition CRT_TREE_MAX :: int where "CRT_TREE_MAX = 3"
definition CRT_TREE_MIN_RATIO :: nat where "CRT_TREE_MIN_RATIO = 2"
definition CRT_TREE_MAX_RATIO :: nat where "CRT_TREE_MAX_RATIO = 64"

lemmas tree_consts = CRT_TREE_MIN_def CRT_TREE_FLAT_def CRT_TREE_KARY_def CRT_TREE_KNOMIAL_def
  CRT_TREE_MAX_def CRT_TREE_MIN_RATIO_def CRT_TREE_MAX_RATIO_def

text \<open>The topology code is a C \<open>int\<close>; the right shift of a signed value rounds downwards.\<close>

definition crt_tree_topo :: "int \<Rightarrow> u32 \<Rightarrow> rc + int" where
  "crt_tree_topo tree_type branch_ratio =
     (if tree_type < CRT_TREE_MIN \<or> tree_type > CRT_TREE_MAX then Inl DER_INVAL
      else Inr (push_bit 16 tree_type OR (uint branch_ratio AND (push_bit 16 1 - 1))))"

definition crt_tree_type :: "int \<Rightarrow> int" where
  "crt_tree_type tree_topo = drop_bit 16 tree_topo"

definition crt_tree_ratio :: "int \<Rightarrow> int" where
  "crt_tree_ratio tree_topo = tree_topo AND (push_bit 16 1 - 1)"

definition crt_tree_topo_valid :: "int \<Rightarrow> bool" where
  "crt_tree_topo_valid tree_topo =
     (let tree_type = crt_tree_type tree_topo; tree_ratio = crt_tree_ratio tree_topo in
      tree_type \<ge> CRT_TREE_MIN \<and> tree_type \<le> CRT_TREE_MAX \<and>
      (tree_type = CRT_TREE_FLAT \<or>
       (tree_ratio \<ge> int CRT_TREE_MIN_RATIO \<and> tree_ratio \<le> int CRT_TREE_MAX_RATIO)))"

definition crt_treerank_2_grprank :: "u32 \<Rightarrow> u32 \<Rightarrow> u32 \<Rightarrow> u32 option" where
  "crt_treerank_2_grprank grp_size grp_root tree_rank =
     (if grp_size > 0 \<and> grp_root < grp_size \<and> tree_rank < grp_size
      then Some ((tree_rank + grp_root) mod grp_size) else None)"

definition crt_grprank_2_teerank :: "u32 \<Rightarrow> u32 \<Rightarrow> u32 \<Rightarrow> u32 option" where
  "crt_grprank_2_teerank grp_size grp_root grp_rank =
     (if grp_size > 0 \<and> grp_root < grp_size \<and> grp_rank < grp_size
      then Some ((grp_rank + grp_size - grp_root) mod grp_size) else None)"

text \<open>The ratio assertion the k-ary and k-nomial operations share.\<close>

definition ratio_assert :: "u32 \<Rightarrow> bool" where
  "ratio_assert tree_ratio \<longleftrightarrow>
     CRT_TREE_MIN_RATIO \<le> unat tree_ratio \<and> unat tree_ratio \<le> CRT_TREE_MAX_RATIO"

section \<open>The flat tree\<close>

definition crt_flat_get_children_cnt ::
  "u32 \<Rightarrow> u32 \<Rightarrow> u32 \<Rightarrow> u32 \<Rightarrow> (rc + u32) option" where
  "crt_flat_get_children_cnt grp_size branch_ratio grp_root grp_self =
     (if grp_size > 0 then Some (Inr (if grp_self = grp_root then grp_size - 1 else 0)) else None)"

text \<open>The loop variable \<open>i\<close> runs over \<open>0 .. grp_size - 1\<close>; \<open>m\<close> is how many values are left.\<close>

fun flat_loop :: "nat \<Rightarrow> u32 \<Rightarrow> u32 \<Rightarrow> u32 list" where
  "flat_loop 0 i grp_root = []"
| "flat_loop (Suc m) i grp_root =
     (if grp_root \<noteq> i then i # flat_loop m (i + 1) grp_root else flat_loop m (i + 1) grp_root)"

definition crt_flat_get_children ::
  "u32 \<Rightarrow> u32 \<Rightarrow> u32 \<Rightarrow> u32 \<Rightarrow> (rc + u32 list) option" where
  "crt_flat_get_children grp_size branch_ratio grp_root grp_self =
     (if grp_size > 0 then
        Some (if grp_self \<noteq> grp_root then Inl DER_INVAL
              else Inr (flat_loop (unat grp_size) 0 grp_root))
      else None)"

definition crt_flat_get_parent ::
  "u32 \<Rightarrow> u32 \<Rightarrow> u32 \<Rightarrow> u32 \<Rightarrow> (rc + u32) option" where
  "crt_flat_get_parent grp_size branch_ratio grp_root grp_self =
     (if grp_size > 0 then
        Some (if grp_self = grp_root then Inl DER_INVAL else Inr grp_root)
      else None)"

section \<open>The k-ary tree\<close>

text \<open>The loop of \<open>kary_get_children\<close>; the result lists the entries stored in \<open>children\<close>.\<close>

function kary_loop :: "u32 \<Rightarrow> u32 \<Rightarrow> u32 \<Rightarrow> u32 \<Rightarrow> u32 list" where
  "kary_loop i self sz ratio =
     (if i < ratio then
        (let rank = self * ratio + i + 1 in
         if rank \<ge> sz then [] else rank # kary_loop (i + 1) self sz ratio)
      else [])"
  by pat_completeness auto
termination
proof (relation "measure (\<lambda>(i, self, sz, ratio). unat ratio - unat i)", goal_cases)
  case (2 i self sz ratio x)
  then show ?case using unat_add_1_less [of i ratio] by (simp add: word_less_nat_alt)
qed simp

declare kary_loop.simps [simp del]

definition kary_get_children :: "u32 \<Rightarrow> u32 \<Rightarrow> u32 \<Rightarrow> u32 list option" where
  "kary_get_children self sz ratio = (if self < sz then Some (kary_loop 0 self sz ratio) else None)"

definition crt_kary_get_children_cnt ::
  "u32 \<Rightarrow> u32 \<Rightarrow> u32 \<Rightarrow> u32 \<Rightarrow> (rc + u32) option" where
  "crt_kary_get_children_cnt grp_size tree_ratio grp_root grp_self =
     (if grp_size > 0 \<and> ratio_assert tree_ratio then
        (case crt_grprank_2_teerank grp_size grp_root grp_self of
           None \<Rightarrow> None
         | Some tree_self \<Rightarrow>
             map_option (\<lambda>cs. Inr (of_nat (length cs))) (kary_get_children tree_self grp_size tree_ratio))
      else None)"

definition crt_kary_get_children ::
  "u32 \<Rightarrow> u32 \<Rightarrow> u32 \<Rightarrow> u32 \<Rightarrow> (rc + u32 list) option" where
  "crt_kary_get_children grp_size tree_ratio grp_root grp_self =
     (if grp_size > 0 \<and> ratio_assert tree_ratio then
        (case crt_grprank_2_teerank grp_size grp_root grp_self of
           None \<Rightarrow> None
         | Some tree_self \<Rightarrow>
             (case kary_get_children tree_self grp_size tree_ratio of
                None \<Rightarrow> None
              | Some cs \<Rightarrow>
                  map_option Inr (those (map (crt_treerank_2_grprank grp_size grp_root) cs))))
      else None)"

definition crt_kary_get_parent ::
  "u32 \<Rightarrow> u32 \<Rightarrow> u32 \<Rightarrow> u32 \<Rightarrow> (rc + u32) option" where
  "crt_kary_get_parent grp_size tree_ratio grp_root grp_self =
     (if grp_size > 0 \<and> ratio_assert tree_ratio then
        (if grp_self = grp_root then Some (Inl DER_INVAL)
         else case crt_grprank_2_teerank grp_size grp_root grp_self of
           None \<Rightarrow> None
         | Some tree_self \<Rightarrow>
             if tree_self \<noteq> 0 then
               map_option Inr
                 (crt_treerank_2_grprank grp_size grp_root ((tree_self - 1) div tree_ratio))
             else None)
      else None)"

section \<open>The k-nomial tree\<close>

record knomial_number =
  kn_digits :: "u32 list"
  kn_ndigits :: nat
  kn_ratio :: u32

text \<open>The loop of \<open>knomial_number_2_int\<close> from the most significant digit down to digit \<open>0\<close>.\<close>

fun k2i_loop :: "knomial_number \<Rightarrow> nat \<Rightarrow> u32 \<Rightarrow> u32" where
  "k2i_loop n 0 index = index * kn_ratio n + kn_digits n ! 0"
| "k2i_loop n (Suc i) index = k2i_loop n i (index * kn_ratio n + kn_digits n ! Suc i)"

definition knomial_number_2_int :: "knomial_number \<Rightarrow> u32" where
  "knomial_number_2_int n = (if kn_ndigits n = 0 then 0 else k2i_loop n (kn_ndigits n - 1) 0)"

function i2k_loop :: "u32 \<Rightarrow> u32 \<Rightarrow> knomial_number \<Rightarrow> knomial_number option" where
  "i2k_loop x ratio n =
     (if x > 0 then
        (if kn_ndigits n < CRT_TREE_MAX_RATIO then
           i2k_loop (x div ratio) ratio
             (n\<lparr>kn_digits := (kn_digits n)[kn_ndigits n := x mod ratio],
                kn_ndigits := Suc (kn_ndigits n)\<rparr>)
         else None)
      else Some n)"
  by pat_completeness auto
termination
  by (relation "measure (\<lambda>(x, ratio, n). CRT_TREE_MAX_RATIO - kn_ndigits n)") auto

declare i2k_loop.simps [simp del]

definition int_2_knomial_number :: "u32 \<Rightarrow> u32 \<Rightarrow> knomial_number option" where
  "int_2_knomial_number x ratio =
     i2k_loop x ratio
       \<lparr>kn_digits = replicate CRT_TREE_MAX_RATIO 0, kn_ndigits = 0, kn_ratio = ratio\<rparr>"

text \<open>
  The inner loop of \<open>knomial_get_children\<close>. The Boolean says that a child beyond \<open>size\<close> was met, on
  which the C function returns.
\<close>

function knomial_inner :: "u32 \<Rightarrow> u32 \<Rightarrow> u32 \<Rightarrow> u32 \<Rightarrow> u32 \<Rightarrow> bool \<times> u32 list" where
  "knomial_inner i self sz ratio inc =
     (if i < ratio then
        (let child = self + i * inc in
         if child \<ge> sz then (True, [])
         else (let (ret, cs) = knomial_inner (i + 1) self sz ratio inc in (ret, child # cs)))
      else (False, []))"
  by pat_completeness auto
termination
proof (relation "measure (\<lambda>(i, self, sz, ratio, inc). unat ratio - unat i)", goal_cases)
  case (2 i self sz ratio inc x)
  then show ?case using unat_add_1_less [of i ratio] by (simp add: word_less_nat_alt)
qed simp

declare knomial_inner.simps [simp del]

function knomial_outer ::
  "nat \<Rightarrow> knomial_number \<Rightarrow> u32 \<Rightarrow> u32 \<Rightarrow> u32 \<Rightarrow> u32 \<Rightarrow> u32 list" where
  "knomial_outer digit n self sz ratio inc =
     (if digit < CRT_TREE_MAX_RATIO \<and> (digit > kn_ndigits n \<or> kn_digits n ! digit = 0) then
        (let (ret, cs) = knomial_inner 1 self sz ratio inc in
         if ret then cs else cs @ knomial_outer (Suc digit) n self sz ratio (inc * ratio))
      else [])"
  by pat_completeness auto
termination
  by (relation "measure (\<lambda>(digit, n, self, sz, ratio, inc). CRT_TREE_MAX_RATIO - digit)") auto

declare knomial_outer.simps [simp del]

definition knomial_get_children :: "u32 \<Rightarrow> u32 \<Rightarrow> u32 \<Rightarrow> u32 list option" where
  "knomial_get_children self sz ratio =
     (if self < sz then
        map_option (\<lambda>n. knomial_outer 0 n self sz ratio 1) (int_2_knomial_number self ratio)
      else None)"

text \<open>The loop of \<open>knomial_get_parent\<close> over the digits below \<open>ndigits\<close>.\<close>

fun clear_lowest :: "nat \<Rightarrow> u32 list \<Rightarrow> u32 list" where
  "clear_lowest 0 ds = ds"
| "clear_lowest (Suc m) [] = []"
| "clear_lowest (Suc m) (d # ds) = (if d \<noteq> 0 then 0 # ds else d # clear_lowest m ds)"

definition knomial_get_parent :: "u32 \<Rightarrow> u32 \<Rightarrow> u32 option" where
  "knomial_get_parent self ratio =
     map_option (\<lambda>n. knomial_number_2_int (n\<lparr>kn_digits := clear_lowest (kn_ndigits n) (kn_digits n)\<rparr>))
       (int_2_knomial_number self ratio)"

definition crt_knomial_get_children_cnt ::
  "u32 \<Rightarrow> u32 \<Rightarrow> u32 \<Rightarrow> u32 \<Rightarrow> (rc + u32) option" where
  "crt_knomial_get_children_cnt grp_size tree_ratio grp_root grp_self =
     (if grp_size > 0 \<and> ratio_assert tree_ratio then
        (case crt_grprank_2_teerank grp_size grp_root grp_self of
           None \<Rightarrow> None
         | Some tree_self \<Rightarrow>
             map_option (\<lambda>cs. Inr (of_nat (length cs)))
               (knomial_get_children tree_self grp_size tree_ratio))
      else None)"

definition crt_knomial_get_children ::
  "u32 \<Rightarrow> u32 \<Rightarrow> u32 \<Rightarrow> u32 \<Rightarrow> (rc + u32 list) option" where
  "crt_knomial_get_children grp_size tree_ratio grp_root grp_self =
     (if grp_size > 0 \<and> ratio_assert tree_ratio then
        (case crt_grprank_2_teerank grp_size grp_root grp_self of
           None \<Rightarrow> None
         | Some tree_self \<Rightarrow>
             (case knomial_get_children tree_self grp_size tree_ratio of
                None \<Rightarrow> None
              | Some cs \<Rightarrow>
                  map_option Inr (those (map (crt_treerank_2_grprank grp_size grp_root) cs))))
      else None)"

definition crt_knomial_get_parent ::
  "u32 \<Rightarrow> u32 \<Rightarrow> u32 \<Rightarrow> u32 \<Rightarrow> (rc + u32) option" where
  "crt_knomial_get_parent grp_size tree_ratio grp_root grp_self =
     (if grp_size > 0 \<and> ratio_assert tree_ratio then
        (if grp_self = grp_root then Some (Inl DER_INVAL)
         else case crt_grprank_2_teerank grp_size grp_root grp_self of
           None \<Rightarrow> None
         | Some tree_self \<Rightarrow>
             if tree_self \<noteq> 0 then
               (case knomial_get_parent tree_self tree_ratio of
                  None \<Rightarrow> None
                | Some tree_parent \<Rightarrow>
                    map_option Inr (crt_treerank_2_grprank grp_size grp_root tree_parent))
             else None)
      else None)"

section \<open>Forwarding along a tree\<close>

text \<open>
  The ranks a message visits when every rank forwards it to its children, to depth \<open>f\<close>; a visit
  that is repeated shows up as a repeated entry.
\<close>

fun forward :: "('r \<Rightarrow> 'r list) \<Rightarrow> nat \<Rightarrow> 'r \<Rightarrow> 'r list" where
  "forward ch 0 x = []"
| "forward ch (Suc f) x = x # concat (map (forward ch f) (ch x))"

definition child_rel :: "('r \<Rightarrow> 'r list) \<Rightarrow> 'r set \<Rightarrow> ('r \<times> 'r) set" where
  "child_rel ch V = {(x, y). x \<in> V \<and> y \<in> set (ch x)}"

lemma child_rel_mono:
  assumes "(x, y) \<in> (child_rel ch V)\<^sup>*" and "\<And>x y. x \<in> V \<Longrightarrow> y \<in> set (ch x) \<Longrightarrow> m x < (m y :: nat)"
  shows "m x \<le> m y"
  using assms(1) by (induction rule: rtrancl_induct) (auto simp: child_rel_def dest: assms(2))

lemma siblings_disjoint:
  assumes up: "\<And>x y. x \<in> V \<Longrightarrow> y \<in> set (ch x) \<Longrightarrow> y \<in> V \<and> m x < (m y :: nat)"
    and one: "\<And>x x' y. x \<in> V \<Longrightarrow> x' \<in> V \<Longrightarrow> y \<in> set (ch x) \<Longrightarrow> y \<in> set (ch x') \<Longrightarrow> x = x'"
    and "x \<in> V" "c \<in> set (ch x)" "d \<in> set (ch x)"
    and "(c, y) \<in> (child_rel ch V)\<^sup>*" "(d, y) \<in> (child_rel ch V)\<^sup>*"
  shows "c = d"
proof -
  let ?R = "child_rel ch V"
  have sv: "single_valued (?R\<inverse>)"
    using one by (auto simp: single_valued_def child_rel_def)
  have below: "e = e'" if "e \<in> set (ch x)" "e' \<in> set (ch x)" "(e, e') \<in> ?R\<^sup>*" for e e'
  proof (rule ccontr)
    assume "e \<noteq> e'"
    with that(3) obtain z where z: "(e, z) \<in> ?R\<^sup>*" "(z, e') \<in> ?R"
      by (meson rtranclE)
    then have "z = x" using one \<open>x \<in> V\<close> that(2) by (auto simp: child_rel_def)
    then have "m e \<le> m x" using child_rel_mono [OF z(1)] up by blast
    with up [OF \<open>x \<in> V\<close> that(1)] show False by simp
  qed
  have "(c, d) \<in> ?R\<^sup>* \<or> (d, c) \<in> ?R\<^sup>*"
    using single_valued_confluent [OF sv, of y c d] assms(6,7) by (auto simp: rtrancl_converse)
  then show ?thesis using below assms(4,5) by metis
qed

lemma forward_exact:
  assumes up: "\<And>x y. x \<in> V \<Longrightarrow> y \<in> set (ch x) \<Longrightarrow> y \<in> V \<and> m x < (m y :: nat)"
    and one: "\<And>x x' y. x \<in> V \<Longrightarrow> x' \<in> V \<Longrightarrow> y \<in> set (ch x) \<Longrightarrow> y \<in> set (ch x') \<Longrightarrow> x = x'"
    and dist: "\<And>x. x \<in> V \<Longrightarrow> distinct (ch x)"
    and bound: "\<And>x. x \<in> V \<Longrightarrow> m x < N"
  shows "x \<in> V \<Longrightarrow> N \<le> f + m x \<Longrightarrow>
    distinct (forward ch f x) \<and> set (forward ch f x) = {y. (x, y) \<in> (child_rel ch V)\<^sup>*}"
proof (induction f arbitrary: x)
  case 0
  then show ?case using bound [of x] by simp
next
  case (Suc f)
  let ?R = "child_rel ch V"
  have IH: "distinct (forward ch f c) \<and> set (forward ch f c) = {y. (c, y) \<in> ?R\<^sup>*}"
    if "c \<in> set (ch x)" for c
    using up [OF Suc.prems(1) that] Suc.prems(2) by (intro Suc.IH) auto
  have set: "set (forward ch (Suc f) x) = {y. (x, y) \<in> ?R\<^sup>*}"
  proof -
    have "(x, y) \<in> ?R\<^sup>* \<longleftrightarrow> y = x \<or> (\<exists>c\<in>set (ch x). (c, y) \<in> ?R\<^sup>*)" for y
      using Suc.prems(1)
      by (auto simp: child_rel_def elim: converse_rtranclE intro: converse_rtrancl_into_rtrancl)
    then show ?thesis using IH by auto
  qed
  have notin: "x \<notin> set (forward ch f c)" if "c \<in> set (ch x)" for c
    using IH [OF that] child_rel_mono [of c x ch V m] up [OF Suc.prems(1) that] up by fastforce
  have "distinct (concat (map (forward ch f) (ch x)))"
  proof -
    have disj: "set (forward ch f c) \<inter> set (forward ch f d) = {}"
      if "c \<in> set (ch x)" "d \<in> set (ch x)" "c \<noteq> d" for c d
      using IH [OF that(1)] IH [OF that(2)] that(3)
        siblings_disjoint [where V = V and ch = ch and m = m, OF up one Suc.prems(1) that(1,2)]
      by auto
    show ?thesis
      using dist [OF Suc.prems(1)] disj IH by (intro distinct_concat_map) auto
  qed
  then show ?case using set notin by auto
qed

section \<open>The contract of a table of topology operations\<close>

text \<open>What a caller of the table uses: no children when the count is \<open>0\<close>, else the array.\<close>

definition topo_children ::
  "(u32 \<Rightarrow> u32 \<Rightarrow> u32 \<Rightarrow> u32 \<Rightarrow> (rc + u32) option) \<Rightarrow>
   (u32 \<Rightarrow> u32 \<Rightarrow> u32 \<Rightarrow> u32 \<Rightarrow> (rc + u32 list) option) \<Rightarrow> u32 \<Rightarrow> u32 \<Rightarrow> u32 \<Rightarrow> u32 \<Rightarrow> u32 list" where
  "topo_children get_cnt get_children grp_size ratio grp_root grp_self =
     (case get_cnt grp_size ratio grp_root grp_self of
        Some (Inr n) \<Rightarrow>
          if n = 0 then []
          else (case get_children grp_size ratio grp_root grp_self of
                  Some (Inr cs) \<Rightarrow> cs | _ \<Rightarrow> [])
      | _ \<Rightarrow> [])"

lemma length_distinct_ranks:
  assumes "distinct cs" "set cs \<subseteq> {y. y < (sz :: u32)}"
  shows "length cs \<le> unat sz"
proof -
  have "length cs = card (unat ` set cs)"
    using assms(1) by (metis card_image distinct_card inj_on_def word_unat_eq_iff)
  also have "\<dots> \<le> card {..<unat sz}"
    using assms(2) by (intro card_mono) (auto simp: word_less_nat_alt)
  finally show ?thesis by simp
qed

lemma of_nat_length_0_iff:
  assumes "length cs \<le> unat (sz :: u32)"
  shows "(of_nat (length cs) :: u32) = 0 \<longleftrightarrow> cs = []"
proof -
  have "unat (of_nat (length cs) :: u32) = length cs"
    using assms unat_u32_less [of sz] by (simp add: unat_of_nat)
  then show ?thesis by (simp add: word_unat_eq_iff)
qed

locale spanning_topo =
  fixes get_cnt :: "u32 \<Rightarrow> u32 \<Rightarrow> u32 \<Rightarrow> u32 \<Rightarrow> (rc + u32) option"
    and get_children :: "u32 \<Rightarrow> u32 \<Rightarrow> u32 \<Rightarrow> u32 \<Rightarrow> (rc + u32 list) option"
    and get_parent :: "u32 \<Rightarrow> u32 \<Rightarrow> u32 \<Rightarrow> u32 \<Rightarrow> (rc + u32) option"
    and ok :: "u32 \<Rightarrow> u32 \<Rightarrow> bool"
    and depth :: "u32 \<Rightarrow> u32 \<Rightarrow> u32 \<Rightarrow> u32 \<Rightarrow> nat"
  assumes children_spec: "ok sz ratio \<Longrightarrow> root < sz \<Longrightarrow> self < sz \<Longrightarrow>
      \<exists>cs. distinct cs
        \<and> set cs = {y. y < sz \<and> y \<noteq> root \<and> get_parent sz ratio root y = Some (Inr self)}
        \<and> get_cnt sz ratio root self = Some (Inr (of_nat (length cs)))
        \<and> (cs \<noteq> [] \<longrightarrow> get_children sz ratio root self = Some (Inr cs))"
    and parent_spec: "ok sz ratio \<Longrightarrow> root < sz \<Longrightarrow> y < sz \<Longrightarrow> y \<noteq> root \<Longrightarrow>
      \<exists>p. p < sz \<and> get_parent sz ratio root y = Some (Inr p)
        \<and> depth sz ratio root p < depth sz ratio root y"
    and depth_bound: "ok sz ratio \<Longrightarrow> root < sz \<Longrightarrow> y < sz \<Longrightarrow> depth sz ratio root y < unat sz"
    and parent_root: "ok sz ratio \<Longrightarrow> root < sz \<Longrightarrow> get_parent sz ratio root root = Some (Inl DER_INVAL)"
begin

lemma children_exact:
  assumes "ok sz ratio" "root < sz" "self < sz"
  shows "distinct (topo_children get_cnt get_children sz ratio root self)"
    and "set (topo_children get_cnt get_children sz ratio root self) =
      {y. y < sz \<and> y \<noteq> root \<and> get_parent sz ratio root y = Some (Inr self)}"
    and "get_cnt sz ratio root self =
      Some (Inr (of_nat (length (topo_children get_cnt get_children sz ratio root self))))"
    and "topo_children get_cnt get_children sz ratio root self \<noteq> [] \<Longrightarrow>
      get_children sz ratio root self = Some (Inr (topo_children get_cnt get_children sz ratio root self))"
proof -
  obtain cs where cs: "distinct cs"
    "set cs = {y. y < sz \<and> y \<noteq> root \<and> get_parent sz ratio root y = Some (Inr self)}"
    "get_cnt sz ratio root self = Some (Inr (of_nat (length cs)))"
    "cs \<noteq> [] \<longrightarrow> get_children sz ratio root self = Some (Inr cs)"
    using children_spec [OF assms] by blast
  have "length cs \<le> unat sz" using cs by (intro length_distinct_ranks) auto
  then have "topo_children get_cnt get_children sz ratio root self = cs"
    using cs by (auto simp: topo_children_def of_nat_length_0_iff)
  with cs show "distinct (topo_children get_cnt get_children sz ratio root self)"
    and "set (topo_children get_cnt get_children sz ratio root self) =
      {y. y < sz \<and> y \<noteq> root \<and> get_parent sz ratio root y = Some (Inr self)}"
    and "get_cnt sz ratio root self =
      Some (Inr (of_nat (length (topo_children get_cnt get_children sz ratio root self))))"
    and "topo_children get_cnt get_children sz ratio root self \<noteq> [] \<Longrightarrow>
      get_children sz ratio root self = Some (Inr (topo_children get_cnt get_children sz ratio root self))"
    by simp_all
qed

lemma reached_from_root:
  assumes "ok sz ratio" "root < sz" "y < sz"
  shows "(root, y) \<in> (child_rel (topo_children get_cnt get_children sz ratio root) {x. x < sz})\<^sup>*"
  using assms(3)
proof (induction "depth sz ratio root y" arbitrary: y rule: less_induct)
  case less
  show ?case
  proof (cases "y = root")
    case False
    then obtain p where p: "p < sz" "get_parent sz ratio root y = Some (Inr p)"
      "depth sz ratio root p < depth sz ratio root y"
      using parent_spec [OF assms(1,2) less.prems] by blast
    then have "(p, y) \<in> child_rel (topo_children get_cnt get_children sz ratio root) {x. x < sz}"
      using less.prems False children_exact(2) [OF assms(1,2) p(1)] by (simp add: child_rel_def)
    then show ?thesis using less.hyps [OF p(3) p(1)] by (rule rtrancl_into_rtrancl [rotated])
  qed simp
qed

theorem forward_covers:
  assumes "ok sz ratio" "root < sz"
  shows "distinct (forward (topo_children get_cnt get_children sz ratio root) (unat sz) root)"
    and "set (forward (topo_children get_cnt get_children sz ratio root) (unat sz) root) = {y. y < sz}"
proof -
  let ?ch = "topo_children get_cnt get_children sz ratio root"
  let ?V = "{x. x < sz}"
  note ex = children_exact [OF assms]
  have up: "y \<in> ?V \<and> depth sz ratio root x < depth sz ratio root y"
    if "x \<in> ?V" "y \<in> set (?ch x)" for x y
    using ex(2) [of x] that parent_spec [OF assms, of y] by fastforce
  have main: "distinct (forward ?ch (unat sz) root)
      \<and> set (forward ?ch (unat sz) root) = {y. (root, y) \<in> (child_rel ?ch ?V)\<^sup>*}"
  proof (rule forward_exact [where m = "depth sz ratio root" and N = "unat sz"])
    show "x = x'" if "x \<in> ?V" "x' \<in> ?V" "y \<in> set (?ch x)" "y \<in> set (?ch x')" for x x' y
      using ex(2) [of x] ex(2) [of x'] that by simp
  qed (use up ex(1) depth_bound [OF assms] assms(2) in auto)
  have "y < sz" if "(root, y) \<in> (child_rel ?ch ?V)\<^sup>*" for y
    using that by (induction rule: rtrancl_induct)
      (use assms(2) up in \<open>auto simp: child_rel_def\<close>)
  then have "(root, y) \<in> (child_rel ?ch ?V)\<^sup>* \<longleftrightarrow> y < sz" for y
    using reached_from_root [OF assms] by blast
  then show "set (forward ?ch (unat sz) root) = {y. y < sz}" by (simp only: main)
  show "distinct (forward ?ch (unat sz) root)" using main by simp
qed

end

section \<open>Rotation between group ranks and tree ranks\<close>

lemma rot_nat:
  fixes n :: nat
  assumes "root < n" "x < n"
  shows "((x + n - root) mod n + root) mod n = x" "((x + root) mod n + n - root) mod n = x"
proof -
  have "((x + n - root) mod n + root) mod n = (x + n - root + root) mod n"
    by (rule mod_add_left_eq)
  also have "x + n - root + root = x + n" using assms by simp
  finally show "((x + n - root) mod n + root) mod n = x" using assms by simp
  have "((x + root) mod n + n - root) mod n = ((x + root) mod n + (n - root)) mod n"
    using assms by simp
  also have "\<dots> = (x + root + (n - root)) mod n" by (rule mod_add_left_eq)
  also have "x + root + (n - root) = x + n" using assms by simp
  finally show "((x + root) mod n + n - root) mod n = x" using assms by simp
qed

lemma grp2tree:
  fixes sz root x :: u32
  assumes "unat sz \<le> 2 ^ 31" "root < sz" "x < sz"
  shows "crt_grprank_2_teerank sz root x = Some ((x + sz - root) mod sz)"
    and "unat ((x + sz - root) mod sz) = (unat x + unat sz - unat root) mod unat sz"
    and "(x + sz - root) mod sz < sz"
proof -
  have s: "unat (x + sz) = unat x + unat sz"
    using assms by (intro unat_plus_no_wrap) (simp add: word_less_nat_alt)
  then have "root \<le> x + sz" using assms by (simp add: word_less_nat_alt word_le_nat_alt)
  then show u: "unat ((x + sz - root) mod sz) = (unat x + unat sz - unat root) mod unat sz"
    using s by (simp add: unat_mod unat_sub)
  have "0 < unat sz" using assms by (simp add: word_less_nat_alt)
  then show "(x + sz - root) mod sz < sz" using u by (simp add: word_less_nat_alt)
  show "crt_grprank_2_teerank sz root x = Some ((x + sz - root) mod sz)"
    using assms by (auto simp: crt_grprank_2_teerank_def word_less_nat_alt)
qed

lemma tree2grp:
  fixes sz root t :: u32
  assumes "unat sz \<le> 2 ^ 31" "root < sz" "t < sz"
  shows "crt_treerank_2_grprank sz root t = Some ((t + root) mod sz)"
    and "unat ((t + root) mod sz) = (unat t + unat root) mod unat sz"
    and "(t + root) mod sz < sz"
proof -
  have s: "unat (t + root) = unat t + unat root"
    using assms by (intro unat_plus_no_wrap) (simp add: word_less_nat_alt)
  then show u: "unat ((t + root) mod sz) = (unat t + unat root) mod unat sz"
    by (simp add: unat_mod)
  have "0 < unat sz" using assms by (simp add: word_less_nat_alt)
  then show "(t + root) mod sz < sz" using u by (simp add: word_less_nat_alt)
  show "crt_treerank_2_grprank sz root t = Some ((t + root) mod sz)"
    using assms by (auto simp: crt_treerank_2_grprank_def word_less_nat_alt)
qed

lemma rot_inverse:
  fixes sz root x :: u32
  assumes "unat sz \<le> 2 ^ 31" "root < sz" "x < sz"
  shows "((x + sz - root) mod sz + root) mod sz = x"
    and "((x + root) mod sz + sz - root) mod sz = x"
proof -
  have n: "unat root < unat sz" "unat x < unat sz" using assms by (simp_all add: word_less_nat_alt)
  show "((x + sz - root) mod sz + root) mod sz = x"
    using tree2grp(2) [OF assms(1,2) grp2tree(3) [OF assms]] grp2tree(2) [OF assms] rot_nat(1) [OF n]
    by (simp add: word_unat_eq_iff)
  show "((x + root) mod sz + sz - root) mod sz = x"
    using grp2tree(2) [OF assms(1,2) tree2grp(3) [OF assms]] tree2grp(2) [OF assms] rot_nat(2) [OF n]
    by (simp add: word_unat_eq_iff)
qed

lemma tree_rank_0_iff:
  fixes sz root x :: u32
  assumes "unat sz \<le> 2 ^ 31" "root < sz" "x < sz"
  shows "(x + sz - root) mod sz = 0 \<longleftrightarrow> x = root"
proof
  assume "(x + sz - root) mod sz = 0"
  then show "x = root"
    using rot_inverse(1) [OF assms] assms(2) by (simp add: mod_word_less)
qed simp

section \<open>Topologies defined on tree ranks\<close>

text \<open>
  The k-ary and the k-nomial tables compute on tree ranks, where the root is \<open>0\<close>, and rotate the
  result. The bound on the group size excludes wrap-around in the 32-bit arithmetic; for the
  largest ratio \<open>64\<close> it admits groups of 66 million ranks.
\<close>

definition topo_ok :: "u32 \<Rightarrow> u32 \<Rightarrow> bool" where
  "topo_ok sz ratio \<longleftrightarrow> 0 < sz \<and> ratio_assert ratio \<and> (unat ratio + 1) * unat sz \<le> 2 ^ 32"

lemma topo_okD:
  assumes "topo_ok sz ratio"
  shows "0 < unat sz" "2 \<le> unat ratio" "unat ratio \<le> 64" "(unat ratio + 1) * unat sz \<le> 2 ^ 32"
    and "unat sz \<le> 2 ^ 31"
proof -
  show "0 < unat sz" "2 \<le> unat ratio" "unat ratio \<le> 64" and b: "(unat ratio + 1) * unat sz \<le> 2 ^ 32"
    using assms by (auto simp: topo_ok_def ratio_assert_def tree_consts word_less_nat_alt)
  then have "3 * unat sz \<le> (unat ratio + 1) * unat sz" by (intro mult_le_mono1) simp
  also note b
  finally show "unat sz \<le> 2 ^ 31" by simp
qed

definition tree_depth :: "u32 \<Rightarrow> u32 \<Rightarrow> u32 \<Rightarrow> u32 \<Rightarrow> nat" where
  "tree_depth sz ratio root x = unat ((x + sz - root) mod sz)"

locale rotated_topo =
  fixes tree_children :: "u32 \<Rightarrow> u32 \<Rightarrow> u32 \<Rightarrow> u32 list option"
    and tree_parent :: "u32 \<Rightarrow> u32 \<Rightarrow> u32 option"
    and get_cnt :: "u32 \<Rightarrow> u32 \<Rightarrow> u32 \<Rightarrow> u32 \<Rightarrow> (rc + u32) option"
    and get_children :: "u32 \<Rightarrow> u32 \<Rightarrow> u32 \<Rightarrow> u32 \<Rightarrow> (rc + u32 list) option"
    and get_parent :: "u32 \<Rightarrow> u32 \<Rightarrow> u32 \<Rightarrow> u32 \<Rightarrow> (rc + u32) option"
  assumes cnt_eq: "topo_ok sz ratio \<Longrightarrow> get_cnt sz ratio root self =
      (case crt_grprank_2_teerank sz root self of
         None \<Rightarrow> None
       | Some t \<Rightarrow> map_option (\<lambda>cs. Inr (of_nat (length cs))) (tree_children t sz ratio))"
    and children_eq: "topo_ok sz ratio \<Longrightarrow> get_children sz ratio root self =
      (case crt_grprank_2_teerank sz root self of
         None \<Rightarrow> None
       | Some t \<Rightarrow> (case tree_children t sz ratio of
             None \<Rightarrow> None
           | Some cs \<Rightarrow> map_option Inr (those (map (crt_treerank_2_grprank sz root) cs))))"
    and parent_eq: "topo_ok sz ratio \<Longrightarrow> get_parent sz ratio root self =
      (if self = root then Some (Inl DER_INVAL)
       else case crt_grprank_2_teerank sz root self of
         None \<Rightarrow> None
       | Some t \<Rightarrow> if t \<noteq> 0 then
             (case tree_parent t ratio of
                None \<Rightarrow> None | Some p \<Rightarrow> map_option Inr (crt_treerank_2_grprank sz root p))
           else None)"
    and tree_children_spec: "topo_ok sz ratio \<Longrightarrow> self < sz \<Longrightarrow>
      \<exists>cs. tree_children self sz ratio = Some cs \<and> distinct cs
        \<and> set cs = {y. y < sz \<and> y \<noteq> 0 \<and> tree_parent y ratio = Some self}"
    and tree_parent_less: "topo_ok sz ratio \<Longrightarrow> y < sz \<Longrightarrow> y \<noteq> 0 \<Longrightarrow>
      \<exists>p. tree_parent y ratio = Some p \<and> p < y"
begin

lemma get_parent_eq:
  assumes "topo_ok sz ratio" "root < sz" "y < sz" "y \<noteq> root"
    and "tree_parent ((y + sz - root) mod sz) ratio = Some p" "p < sz"
  shows "get_parent sz ratio root y = Some (Inr ((p + root) mod sz))"
  using assms grp2tree(1) [OF topo_okD(5) [OF assms(1)] assms(2,3)]
    tree2grp(1) [OF topo_okD(5) [OF assms(1)] assms(2,6)]
    tree_rank_0_iff [OF topo_okD(5) [OF assms(1)] assms(2,3)]
  by (simp add: parent_eq)

lemma tree_parent_get_parent:
  assumes "topo_ok sz ratio" "root < sz" "self < sz" "y < sz" "y \<noteq> root"
  shows "get_parent sz ratio root y = Some (Inr self) \<longleftrightarrow>
    tree_parent ((y + sz - root) mod sz) ratio = Some ((self + sz - root) mod sz)"
proof -
  note sz = topo_okD(5) [OF assms(1)]
  let ?t = "(y + sz - root) mod sz"
  have t: "?t < sz" "?t \<noteq> 0"
    using grp2tree(3) [OF sz assms(2,4)] tree_rank_0_iff [OF sz assms(2,4)] assms(5) by auto
  obtain p where p: "tree_parent ?t ratio = Some p" "p < ?t"
    using tree_parent_less [OF assms(1) t] by blast
  have psz: "p < sz" using p t by simp
  have "get_parent sz ratio root y = Some (Inr ((p + root) mod sz))"
    using get_parent_eq [OF assms(1,2,4,5) p(1) psz] .
  moreover have "(p + root) mod sz = self \<longleftrightarrow> p = (self + sz - root) mod sz"
    using rot_inverse(1) [OF sz assms(2,3)] rot_inverse(2) [OF sz assms(2) psz] by auto
  ultimately show ?thesis using p by simp
qed

end

sublocale rotated_topo \<subseteq> spanning_topo get_cnt get_children get_parent topo_ok tree_depth
proof
  fix sz ratio root self :: u32
  assume ok: "topo_ok sz ratio" and root: "root < sz" and self: "self < sz"
  note sz = topo_okD(5) [OF ok]
  let ?t = "(self + sz - root) mod sz"
  obtain cs where cs: "tree_children ?t sz ratio = Some cs" "distinct cs"
    "set cs = {y. y < sz \<and> y \<noteq> 0 \<and> tree_parent y ratio = Some ?t}"
    using tree_children_spec [OF ok grp2tree(3) [OF sz root self]] by blast
  let ?ds = "map (\<lambda>c. (c + root) mod sz) cs"
  have inj: "inj_on (\<lambda>c. (c + root) mod sz) {y. y < sz}"
    by (rule inj_on_inverseI [where g = "\<lambda>x. (x + sz - root) mod sz"])
      (use rot_inverse(2) [OF sz root] in simp)
  have dist: "distinct ?ds"
    using cs inj by (auto simp: distinct_map intro: inj_on_subset)
  have img: "y \<in> set ?ds \<longleftrightarrow> y < sz \<and> y \<noteq> root \<and> get_parent sz ratio root y = Some (Inr self)"
    (is "?l \<longleftrightarrow> ?r") for y
  proof
    assume ?l
    then obtain c where c: "c \<in> set cs" "y = (c + root) mod sz" by auto
    then have c': "c < sz" "c \<noteq> 0" "tree_parent c ratio = Some ?t" using cs(3) by auto
    have y: "y < sz" "(y + sz - root) mod sz = c"
      using c c' tree2grp(3) [OF sz root c'(1)] rot_inverse(2) [OF sz root c'(1)] by auto
    then have "y \<noteq> root" using tree_rank_0_iff [OF sz root y(1)] c' by auto
    then show ?r using y c' tree_parent_get_parent [OF ok root self y(1)] by simp
  next
    assume r: ?r
    let ?c = "(y + sz - root) mod sz"
    have "?c \<in> set cs"
      using r cs(3) grp2tree(3) [OF sz root, of y] tree_rank_0_iff [OF sz root, of y]
        tree_parent_get_parent [OF ok root self, of y] by auto
    moreover have "y = (?c + root) mod sz" using rot_inverse(1) [OF sz root, of y] r by simp
    ultimately show ?l by (metis (no_types, lifting) image_eqI list.set_map)
  qed
  have "those (map (crt_treerank_2_grprank sz root) cs) = Some ?ds"
    by (rule those_map_Some) (use cs(3) tree2grp(1) [OF sz root] in auto)
  then have "get_children sz ratio root self = Some (Inr ?ds)"
    using cs(1) grp2tree(1) [OF sz root self] by (simp add: children_eq [OF ok])
  moreover have "get_cnt sz ratio root self = Some (Inr (of_nat (length ?ds)))"
    using cs(1) grp2tree(1) [OF sz root self] by (simp add: cnt_eq [OF ok])
  ultimately show "\<exists>cs. distinct cs
      \<and> set cs = {y. y < sz \<and> y \<noteq> root \<and> get_parent sz ratio root y = Some (Inr self)}
      \<and> get_cnt sz ratio root self = Some (Inr (of_nat (length cs)))
      \<and> (cs \<noteq> [] \<longrightarrow> get_children sz ratio root self = Some (Inr cs))"
    using dist img by (intro exI [of _ ?ds]) blast
next
  fix sz ratio root y :: u32
  assume ok: "topo_ok sz ratio" and root: "root < sz" and y: "y < sz" "y \<noteq> root"
  note sz = topo_okD(5) [OF ok]
  let ?t = "(y + sz - root) mod sz"
  have "?t \<noteq> 0" using tree_rank_0_iff [OF sz root y(1)] y(2) by simp
  then obtain p where p: "tree_parent ?t ratio = Some p" "p < ?t"
    using tree_parent_less [OF ok grp2tree(3) [OF sz root y(1)]] by blast
  have psz: "p < sz" using p(2) grp2tree(3) [OF sz root y(1)] by simp
  have "tree_depth sz ratio root ((p + root) mod sz) < tree_depth sz ratio root y"
    using p(2) rot_inverse(2) [OF sz root psz] by (simp add: tree_depth_def word_less_nat_alt)
  then show "\<exists>p. p < sz \<and> get_parent sz ratio root y = Some (Inr p)
      \<and> tree_depth sz ratio root p < tree_depth sz ratio root y"
    using get_parent_eq [OF ok root y p(1) psz] tree2grp(3) [OF sz root psz] by blast
next
  fix sz ratio root y :: u32
  assume ok: "topo_ok sz ratio" and root: "root < sz"
  show "tree_depth sz ratio root y < unat sz" if "y < sz"
    using grp2tree(3) [OF topo_okD(5) [OF ok] root that]
    by (simp add: tree_depth_def word_less_nat_alt)
  show "get_parent sz ratio root root = Some (Inl DER_INVAL)" by (simp add: parent_eq [OF ok])
qed

subsection \<open>The k-ary table\<close>

lemma nat_div_eq_iff: "0 < r \<Longrightarrow> (m div r = s) \<longleftrightarrow> s * r \<le> m \<and> m < s * r + (r :: nat)"
  by (metis add.commute div_nat_eqI dividend_less_times_div mult.commute mult_Suc_right
      times_div_less_eq_dividend)

lemma kary_rank:
  assumes "topo_ok sz ratio" "self < sz" "i < ratio"
  shows "unat (self * ratio + i + 1) = unat self * unat ratio + unat i + 1"
proof -
  have s: "unat self + 1 \<le> unat sz" "unat i + 1 \<le> unat ratio"
    using assms by (simp_all add: word_less_nat_alt)
  have "unat self * unat ratio + unat i + 1 \<le> (unat self + 1) * unat ratio" using s by simp
  also have "\<dots> \<le> unat sz * unat ratio" using s(1) by (rule mult_le_mono1)
  also have "\<dots> < (unat ratio + 1) * unat sz" using topo_okD(1) [OF assms(1)] by simp
  also note topo_okD(4) [OF assms(1)]
  finally have b: "unat self * unat ratio + unat i + 1 < 2 ^ 32" .
  then have m: "unat (self * ratio) = unat self * unat ratio" by (intro unat_times_no_wrap) simp
  then have "unat (self * ratio + i) = unat self * unat ratio + unat i"
    using b unat_plus_no_wrap [of "self * ratio" i] by simp
  then show ?thesis using b unat_plus_no_wrap [of "self * ratio + i" 1] by simp
qed

lemma kary_loop_exact:
  assumes "topo_ok sz ratio" "self < sz"
  shows "distinct (kary_loop i self sz ratio) \<and>
    set (kary_loop i self sz ratio) = {y. y < sz \<and> unat self * unat ratio + unat i + 1 \<le> unat y
      \<and> unat y \<le> unat self * unat ratio + unat ratio}"
  using assms
proof (induction i self sz ratio rule: kary_loop.induct)
  case (1 i self sz ratio)
  show ?case
  proof (cases "i < ratio")
    case False
    then show ?thesis by (auto simp: kary_loop.simps [of i] word_less_nat_alt)
  next
    case True
    let ?rank = "self * ratio + i + 1"
    note rank = kary_rank [OF "1.prems" True]
    show ?thesis
    proof (cases "sz \<le> ?rank")
      case t: True
      then show ?thesis
        using True rank by (auto simp: kary_loop.simps [of i] word_less_nat_alt word_le_nat_alt)
    next
      case f: False
      have IH: "distinct (kary_loop (i + 1) self sz ratio) \<and>
          set (kary_loop (i + 1) self sz ratio) = {y. y < sz
            \<and> unat self * unat ratio + unat (i + 1) + 1 \<le> unat y
            \<and> unat y \<le> unat self * unat ratio + unat ratio}"
        using "1.IH" [OF True refl] f "1.prems" by simp
      have i1: "unat (i + 1) = Suc (unat i)" using True by (rule unat_add_1_less)
      have eq: "kary_loop i self sz ratio = ?rank # kary_loop (i + 1) self sz ratio"
        using True f by (simp add: kary_loop.simps [of i])
      define S where "S = unat self * unat ratio"
      have lt: "S + unat i + 1 < unat sz"
        using f rank by (simp add: word_le_nat_alt S_def)
      have "y = ?rank \<or> y \<in> set (kary_loop (i + 1) self sz ratio) \<longleftrightarrow>
          y < sz \<and> S + unat i + 1 \<le> unat y \<and> unat y \<le> S + unat ratio" for y
      proof -
        have "y = ?rank \<longleftrightarrow> unat y = S + unat i + 1" by (simp only: word_unat_eq_iff rank S_def)
        moreover have "y \<in> set (kary_loop (i + 1) self sz ratio) \<longleftrightarrow>
            unat y < unat sz \<and> S + unat i + 2 \<le> unat y \<and> unat y \<le> S + unat ratio"
          using IH by (simp add: i1 S_def word_less_nat_alt)
        moreover have "unat i < unat ratio" using True by (simp add: word_less_nat_alt)
        ultimately show ?thesis using lt unfolding word_less_nat_alt by linarith
      qed
      moreover have "?rank \<notin> set (kary_loop (i + 1) self sz ratio)"
        using IH rank i1 by simp
      ultimately show ?thesis using IH unfolding eq S_def by auto
    qed
  qed
qed

definition kary_parent :: "u32 \<Rightarrow> u32 \<Rightarrow> u32 option" where
  "kary_parent self ratio = Some ((self - 1) div ratio)"

lemma kary_parent_iff:
  assumes "topo_ok sz ratio" "y \<noteq> 0"
  shows "kary_parent y ratio = Some p \<longleftrightarrow>
    unat p * unat ratio + 1 \<le> unat y \<and> unat y \<le> unat p * unat ratio + unat ratio"
proof -
  have y: "0 < unat y" using assms(2) by (simp add: unat_gt_0)
  have "unat ((y - 1) div ratio) = (unat y - 1) div unat ratio"
    using assms(2) by (simp add: unat_div unat_minus_one)
  then have "kary_parent y ratio = Some p \<longleftrightarrow> (unat y - 1) div unat ratio = unat p"
    by (simp add: kary_parent_def word_unat_eq_iff)
  also have "\<dots> \<longleftrightarrow> unat p * unat ratio \<le> unat y - 1 \<and> unat y - 1 < unat p * unat ratio + unat ratio"
    using topo_okD(2) [OF assms(1)] by (intro nat_div_eq_iff) simp
  finally show ?thesis using y by auto
qed

interpretation kary: rotated_topo kary_get_children kary_parent
  crt_kary_get_children_cnt crt_kary_get_children crt_kary_get_parent
proof
  fix sz ratio root self y :: u32
  assume ok: "topo_ok sz ratio"
  then have ass: "0 < sz" "ratio_assert ratio" by (simp_all add: topo_ok_def)
  show "crt_kary_get_children_cnt sz ratio root self =
      (case crt_grprank_2_teerank sz root self of None \<Rightarrow> None
       | Some t \<Rightarrow> map_option (\<lambda>cs. Inr (of_nat (length cs))) (kary_get_children t sz ratio))"
    using ass by (simp add: crt_kary_get_children_cnt_def)
  show "crt_kary_get_children sz ratio root self =
      (case crt_grprank_2_teerank sz root self of None \<Rightarrow> None
       | Some t \<Rightarrow> (case kary_get_children t sz ratio of None \<Rightarrow> None
           | Some cs \<Rightarrow> map_option Inr (those (map (crt_treerank_2_grprank sz root) cs))))"
    using ass by (simp add: crt_kary_get_children_def)
  show "crt_kary_get_parent sz ratio root self =
      (if self = root then Some (Inl DER_INVAL)
       else case crt_grprank_2_teerank sz root self of None \<Rightarrow> None
       | Some t \<Rightarrow> if t \<noteq> 0 then
             (case kary_parent t ratio of None \<Rightarrow> None
              | Some p \<Rightarrow> map_option Inr (crt_treerank_2_grprank sz root p))
           else None)"
    using ass by (auto simp: crt_kary_get_parent_def kary_parent_def split: option.splits)
  show "\<exists>cs. kary_get_children self sz ratio = Some cs \<and> distinct cs
      \<and> set cs = {y. y < sz \<and> y \<noteq> 0 \<and> kary_parent y ratio = Some self}" if "self < sz"
  proof -
    have "y \<in> set (kary_loop 0 self sz ratio) \<longleftrightarrow> y < sz \<and> y \<noteq> 0 \<and> kary_parent y ratio = Some self" for y
      using kary_loop_exact [OF ok that, of 0] kary_parent_iff [OF ok, of y self]
      by (cases "y = 0") auto
    then show ?thesis
      using that kary_loop_exact [OF ok that, of 0] by (auto simp: kary_get_children_def)
  qed
  show "\<exists>p. kary_parent y ratio = Some p \<and> p < y" if "y < sz" "y \<noteq> 0"
  proof -
    have "unat ((y - 1) div ratio) \<le> unat y - 1"
      using that by (simp add: unat_div unat_minus_one)
    moreover have "0 < unat y" using that by (simp add: unat_gt_0)
    ultimately show ?thesis by (simp add: kary_parent_def word_less_nat_alt)
  qed
qed

subsection \<open>The flat table\<close>

text \<open>The loop counter of \<open>crt_flat_get_children\<close> is an \<open>int\<close>, hence the bound on the group size.\<close>

definition flat_ok :: "u32 \<Rightarrow> u32 \<Rightarrow> bool" where
  "flat_ok sz ratio \<longleftrightarrow> 0 < sz \<and> unat sz \<le> 2 ^ 31"

definition flat_depth :: "u32 \<Rightarrow> u32 \<Rightarrow> u32 \<Rightarrow> u32 \<Rightarrow> nat" where
  "flat_depth sz ratio root x = (if x = root then 0 else 1)"

definition all_ranks :: "u32 \<Rightarrow> u32 list" where
  "all_ranks sz = map of_nat [0..<unat sz]"

lemma all_ranks_exact: "distinct (all_ranks sz)" "set (all_ranks sz) = {y. y < sz}"
proof -
  have inv: "unat (of_nat n :: u32) = n" if "n < unat sz" for n
    using that unat_u32_less [of sz] by (simp add: unat_of_nat)
  have "inj_on (of_nat :: nat \<Rightarrow> u32) {0..<unat sz}"
    by (rule inj_on_inverseI [where g = unat]) (simp add: inv)
  then show "distinct (all_ranks sz)" by (simp add: all_ranks_def distinct_map)
  have "y \<in> of_nat ` {0..<unat sz} \<longleftrightarrow> y < sz" for y
    using inv by (auto simp: word_less_nat_alt image_iff intro: bexI [of _ "unat y"])
  then show "set (all_ranks sz) = {y. y < sz}" by (auto simp: all_ranks_def)
qed

lemma flat_loop_filter:
  "flat_loop m (of_nat k) root = filter (\<lambda>y. y \<noteq> root) (map of_nat [k..<k + m])"
proof (induction m arbitrary: k)
  case (Suc m)
  have u: "[k..<k + Suc m] = k # [Suc k..<Suc k + m]"
    by (subst upt_conv_Cons) (simp_all del: upt_Suc)
  have w: "of_nat k + 1 = (of_nat (Suc k) :: u32)" by simp
  show ?case unfolding flat_loop.simps w Suc.IH u by (auto simp del: upt_Suc)
qed simp

lemma flat_children_remove1:
  "flat_loop (unat sz) 0 root = remove1 root (all_ranks sz)"
  using flat_loop_filter [of "unat sz" 0 root] all_ranks_exact(1) [of sz]
  by (simp add: all_ranks_def remove1_distinct_filter)

interpretation flat: spanning_topo
  crt_flat_get_children_cnt crt_flat_get_children crt_flat_get_parent flat_ok flat_depth
proof
  fix sz ratio root self :: u32
  assume ok: "flat_ok sz ratio" and root: "root < sz" and self: "self < sz"
  then have sz: "0 < sz" by (simp add: flat_ok_def)
  let ?cs = "if self = root then flat_loop (unat sz) 0 root else []"
  have "length (remove1 root (all_ranks sz)) = unat sz - 1"
    using root all_ranks_exact(2) [of sz] by (simp add: length_remove1) (simp add: all_ranks_def)
  moreover have "of_nat (unat sz - 1) = sz - 1"
    using sz by (simp add: of_nat_diff unat_gt_0 Suc_leI)
  ultimately have cnt: "crt_flat_get_children_cnt sz ratio root self = Some (Inr (of_nat (length ?cs)))"
    using sz by (simp add: crt_flat_get_children_cnt_def flat_children_remove1)
  have "set ?cs = {y. y < sz \<and> y \<noteq> root \<and> crt_flat_get_parent sz ratio root y = Some (Inr self)}"
    using sz all_ranks_exact [of sz]
    by (auto simp: flat_children_remove1 set_remove1_eq crt_flat_get_parent_def)
  moreover have "distinct ?cs" using all_ranks_exact(1) [of sz] by (simp add: flat_children_remove1)
  ultimately show "\<exists>cs. distinct cs
      \<and> set cs = {y. y < sz \<and> y \<noteq> root \<and> crt_flat_get_parent sz ratio root y = Some (Inr self)}
      \<and> crt_flat_get_children_cnt sz ratio root self = Some (Inr (of_nat (length cs)))
      \<and> (cs \<noteq> [] \<longrightarrow> crt_flat_get_children sz ratio root self = Some (Inr cs))"
    using cnt sz by (intro exI [of _ ?cs]) (auto simp: crt_flat_get_children_def)
next
  fix sz ratio root y :: u32
  assume ok: "flat_ok sz ratio" and root: "root < sz" and y: "y < sz"
  then have sz: "0 < sz" by (simp add: flat_ok_def)
  show "\<exists>p. p < sz \<and> crt_flat_get_parent sz ratio root y = Some (Inr p)
      \<and> flat_depth sz ratio root p < flat_depth sz ratio root y" if "y \<noteq> root"
    using that root sz by (intro exI [of _ root]) (simp add: crt_flat_get_parent_def flat_depth_def)
  show "flat_depth sz ratio root y < unat sz"
    using root y sz by (auto simp: flat_depth_def word_less_nat_alt word_unat_eq_iff)
qed (auto simp: crt_flat_get_parent_def flat_ok_def)

subsection \<open>The k-nomial table: digits and parents\<close>

text \<open>
  \<open>digs\<close> is the base-\<open>r\<close> representation, least significant digit first; \<open>kpar\<close> clears the lowest
  non-zero digit.
\<close>

fun digs :: "nat \<Rightarrow> nat \<Rightarrow> nat list" where
  "digs r x = (if r < 2 \<or> x = 0 then [] else x mod r # digs r (x div r))"

fun kpar :: "nat \<Rightarrow> nat \<Rightarrow> nat" where
  "kpar r x = (if r < 2 \<or> x = 0 then 0 else if x mod r \<noteq> 0 then x - x mod r else r * kpar r (x div r))"

declare digs.simps [simp del] kpar.simps [simp del]

lemma digs_0 [simp]: "digs r 0 = []"
  by (simp add: digs.simps)

lemma div_pos_of_mod_0: "0 < x \<Longrightarrow> x mod r = 0 \<Longrightarrow> 0 < x div (r :: nat)"
  by (metis div_mult_mod_eq gr0I add_0_right mult_0 less_irrefl)

lemma length_digs_le: "2 \<le> r \<Longrightarrow> x < 2 ^ k \<Longrightarrow> length (digs r x) \<le> k"
proof (induction k arbitrary: x)
  case (Suc k)
  have "x div r \<le> x div 2" using Suc.prems(1) by (intro div_le_mono2) auto
  also have "\<dots> < 2 ^ k" using Suc.prems(2) by auto
  finally have "length (digs r (x div r)) \<le> k" using Suc.IH Suc.prems(1) by simp
  then show ?case using Suc.prems(1) by (simp add: digs.simps [of r x])
qed simp

lemma digs_nth:
  assumes "2 \<le> r"
  shows "d < length (digs r x) + k \<Longrightarrow> (digs r x @ replicate k 0) ! d = x div r ^ d mod r"
proof (induction d arbitrary: x)
  case 0
  then show ?case using assms by (cases "x = 0") (simp_all add: digs.simps [of r x])
next
  case (Suc d)
  show ?case
  proof (cases "x = 0")
    case False
    then have eq: "digs r x = x mod r # digs r (x div r)" using assms by (simp add: digs.simps [of r x])
    then have "(digs r (x div r) @ replicate k 0) ! d = x div r div r ^ d mod r"
      using Suc by simp
    then show ?thesis by (simp add: eq div_mult2_eq)
  qed (use Suc in simp)
qed

lemma kpar_less: "2 \<le> r \<Longrightarrow> 0 < x \<Longrightarrow> kpar r x < x"
proof (induction x rule: less_induct)
  case (less x)
  show ?case
  proof (cases "x mod r = 0")
    case True
    have "x div r < x" using less.prems by simp
    then have "kpar r (x div r) < x div r"
      using less div_pos_of_mod_0 [OF less.prems(2) True] by blast
    then have "r * kpar r (x div r) < r * (x div r)" using less.prems by simp
    also have "\<dots> = x" using True by (metis add_0_right mult.commute div_mult_mod_eq)
    finally show ?thesis using True less.prems by (simp add: kpar.simps [of r x])
  qed (use less in \<open>simp add: kpar.simps [of r x]\<close>)
qed

lemma kpar_witness:
  "2 \<le> r \<Longrightarrow> 0 < c \<Longrightarrow> \<exists>d i. 0 < i \<and> i < r \<and> r ^ Suc d dvd kpar r c \<and> c = kpar r c + i * r ^ d"
proof (induction c rule: less_induct)
  case (less c)
  show ?case
  proof (cases "c mod r = 0")
    case True
    have "c div r < c" "0 < c div r" using less.prems div_pos_of_mod_0 [OF less.prems(2) True] by simp_all
    then obtain d i where di: "0 < i" "i < r" "r ^ Suc d dvd kpar r (c div r)"
      "c div r = kpar r (c div r) + i * r ^ d"
      using less by meson
    have eq: "kpar r c = r * kpar r (c div r)" using True less.prems by (simp add: kpar.simps [of r c])
    have "c = r * (c div r)" using True by auto
    also have "\<dots> = r * (kpar r (c div r) + i * r ^ d)" using di(4) by simp
    also have "\<dots> = kpar r c + i * r ^ Suc d" by (simp add: eq algebra_simps)
    finally have "c = kpar r c + i * r ^ Suc d" .
    moreover have "r ^ Suc (Suc d) dvd kpar r c" using di(3) by (simp add: eq)
    ultimately show ?thesis using di(1,2) by blast
  next
    case False
    then have "kpar r c = c - c mod r" using less.prems by (simp add: kpar.simps [of r c])
    then show ?thesis
      using False less.prems
      by (intro exI [of _ 0] exI [of _ "c mod r"]) (simp add: dvd_minus_mod)
  qed
qed

lemma kpar_of_child:
  "2 \<le> r \<Longrightarrow> 0 < i \<Longrightarrow> i < r \<Longrightarrow> r ^ Suc d dvd p \<Longrightarrow> kpar r (p + i * r ^ d) = p"
proof (induction d arbitrary: p)
  case 0
  then have "(p + i) mod r = i" by auto
  then show ?case using 0 by (simp add: kpar.simps [of r "p + i"])
next
  case (Suc d)
  then obtain q where q: "p = r * q" "r ^ Suc d dvd q" by (auto simp: dvd_def)
  have c: "p + i * r ^ Suc d = r * (q + i * r ^ d)" by (simp add: q(1) algebra_simps)
  have "kpar r (q + i * r ^ d) = q" using Suc.IH [OF Suc.prems(1-3) q(2)] .
  moreover have "0 < r * (q + i * r ^ d)" using Suc.prems by simp
  ultimately show ?case using Suc.prems(1) unfolding c
    by (simp add: kpar.simps [of r "r * (q + i * r ^ d)"] q(1))
qed

lemma kpar_iff:
  assumes "2 \<le> r" "0 < c"
  shows "kpar r c = p \<longleftrightarrow> (\<exists>d i. 0 < i \<and> i < r \<and> r ^ Suc d dvd p \<and> c = p + i * r ^ d)"
  using kpar_witness [OF assms] kpar_of_child [OF assms(1)] by blast

text \<open>The digits computed by \<open>int_2_knomial_number\<close>, and their value read back.\<close>

lemma i2k_loop_digs:
  assumes "2 \<le> unat ratio"
  shows "kn_digits n = pre @ replicate k 0 \<Longrightarrow> kn_ndigits n = length pre \<Longrightarrow>
    length pre + k = CRT_TREE_MAX_RATIO \<Longrightarrow> length (digs (unat ratio) (unat x)) \<le> k \<Longrightarrow>
    i2k_loop x ratio n = Some (n\<lparr>kn_digits := pre @ map of_nat (digs (unat ratio) (unat x))
        @ replicate (k - length (digs (unat ratio) (unat x))) 0,
      kn_ndigits := length pre + length (digs (unat ratio) (unat x))\<rparr>)"
  using assms
proof (induction x ratio n arbitrary: pre k rule: i2k_loop.induct)
  case (1 x ratio n)
  show ?case
  proof (cases "x = 0")
    case True
    then show ?thesis using "1.prems" by (cases n) (simp add: i2k_loop.simps [of 0])
  next
    case False
    let ?ds = "digs (unat ratio) (unat (x div ratio))"
    have ds: "digs (unat ratio) (unat x) = unat x mod unat ratio # ?ds"
      using False "1.prems"(5) by (simp add: digs.simps [of "unat ratio" "unat x"] unat_div unat_eq_0)
    then obtain k' where k: "k = Suc k'" using "1.prems"(4) by (cases k) auto
    have w: "of_nat (unat x mod unat ratio) = x mod ratio" by (simp flip: unat_mod)
    let ?n = "n\<lparr>kn_digits := (kn_digits n)[kn_ndigits n := x mod ratio],
      kn_ndigits := Suc (kn_ndigits n)\<rparr>"
    have "i2k_loop (x div ratio) ratio ?n =
        Some (?n\<lparr>kn_digits := (pre @ [x mod ratio]) @ map of_nat ?ds @ replicate (k' - length ?ds) 0,
          kn_ndigits := length (pre @ [x mod ratio]) + length ?ds\<rparr>)"
      by (rule "1.IH") (use False "1.prems" ds k in \<open>auto simp: word_gt_0 list_update_append\<close>)
    moreover have "kn_ndigits n < CRT_TREE_MAX_RATIO" using "1.prems" k by simp
    ultimately show ?thesis using False ds k w by (simp add: i2k_loop.simps [of x] word_gt_0)
  qed
qed

fun evalw :: "u32 \<Rightarrow> u32 list \<Rightarrow> u32" where
  "evalw r [] = 0"
| "evalw r (d # ds) = d + r * evalw r ds"

lemma evalw_append: "evalw r (xs @ ys) = evalw r xs + r ^ length xs * evalw r ys"
  by (induction xs) (simp_all add: algebra_simps)

lemma k2i_loop_evalw:
  "m < length (kn_digits n) \<Longrightarrow>
    k2i_loop n m index = index * kn_ratio n ^ Suc m + evalw (kn_ratio n) (take (Suc m) (kn_digits n))"
proof (induction m arbitrary: index)
  case 0
  then show ?case by (cases "kn_digits n") simp_all
next
  case (Suc m)
  then show ?case by (simp add: take_Suc_conv_app_nth [of "Suc m"] evalw_append algebra_simps)
qed

lemma knomial_number_2_int_evalw:
  "kn_ndigits n \<le> length (kn_digits n) \<Longrightarrow>
    knomial_number_2_int n = evalw (kn_ratio n) (take (kn_ndigits n) (kn_digits n))"
  by (cases "kn_ndigits n") (simp_all add: knomial_number_2_int_def k2i_loop_evalw)

lemma evalw_digs: "2 \<le> r \<Longrightarrow> evalw (of_nat r) (map of_nat (digs r x)) = of_nat x"
proof (induction r x rule: digs.induct)
  case (1 r x)
  show ?case
  proof (cases "x = 0")
    case False
    then have "evalw (of_nat r) (map of_nat (digs r x)) = of_nat (x mod r) + of_nat r * of_nat (x div r)"
      using 1 by (simp add: digs.simps [of r x])
    also have "\<dots> = of_nat (x mod r + r * (x div r))" by (simp only: of_nat_add of_nat_mult)
    finally show ?thesis by simp
  qed simp
qed

lemma evalw_clear_lowest:
  "2 \<le> r \<Longrightarrow> 0 < x \<Longrightarrow> r < 2 ^ 32 \<Longrightarrow>
    evalw (of_nat r) (take (length (digs r x))
      (clear_lowest (length (digs r x)) (map of_nat (digs r x) @ zs))) = of_nat (kpar r x)"
proof (induction r x rule: digs.induct)
  case (1 r x)
  have ds: "digs r x = x mod r # digs r (x div r)" using "1.prems" by (simp add: digs.simps [of r x])
  have x: "x = x mod r + r * (x div r)" by simp
  show ?case
  proof (cases "x mod r = 0")
    case True
    then have "evalw (of_nat r) (take (length (digs r (x div r)))
        (clear_lowest (length (digs r (x div r))) (map of_nat (digs r (x div r)) @ zs)))
        = of_nat (kpar r (x div r))"
      using 1 div_pos_of_mod_0 [OF "1.prems"(2) True] by simp
    then show ?thesis using True "1.prems" by (simp add: ds kpar.simps [of r x])
  next
    case False
    have "x mod r < 2 ^ 32" using "1.prems" mod_less_divisor [of r x] by linarith
    then have "unat (of_nat (x mod r) :: u32) = x mod r" by (simp add: unat_of_nat)
    then have nz: "(of_nat (x mod r) :: u32) \<noteq> 0" using False by (metis unat_0)
    have "x - x mod r = r * (x div r)" by (simp add: minus_mod_eq_mult_div)
    then show ?thesis using False nz "1.prems" by (simp add: ds kpar.simps [of r x] evalw_digs)
  qed
qed

definition knum :: "u32 \<Rightarrow> u32 \<Rightarrow> knomial_number" where
  "knum x ratio = \<lparr>kn_digits = map of_nat (digs (unat ratio) (unat x))
       @ replicate (CRT_TREE_MAX_RATIO - length (digs (unat ratio) (unat x))) 0,
     kn_ndigits = length (digs (unat ratio) (unat x)), kn_ratio = ratio\<rparr>"

lemma length_digs_u32: "2 \<le> unat ratio \<Longrightarrow> length (digs (unat ratio) (unat (x :: u32))) \<le> 32"
  using length_digs_le [of "unat ratio" "unat x" 32] unat_u32_less [of x] by simp

lemma int_2_knomial_number_knum:
  "2 \<le> unat ratio \<Longrightarrow> int_2_knomial_number x ratio = Some (knum x ratio)"
  using i2k_loop_digs [of ratio "\<lparr>kn_digits = replicate CRT_TREE_MAX_RATIO 0, kn_ndigits = 0,
      kn_ratio = ratio\<rparr>" "[]" CRT_TREE_MAX_RATIO x] length_digs_u32 [of ratio x]
  by (simp add: int_2_knomial_number_def knum_def tree_consts)

lemma knum_digit:
  assumes "2 \<le> unat ratio" "d < CRT_TREE_MAX_RATIO"
  shows "kn_digits (knum x ratio) ! d = of_nat (unat x div unat ratio ^ d mod unat ratio)"
proof -
  let ?ds = "digs (unat ratio) (unat x)"
  have "kn_digits (knum x ratio) ! d =
      map of_nat (?ds @ replicate (CRT_TREE_MAX_RATIO - length ?ds) 0) ! d"
    by (simp add: knum_def)
  also have "\<dots> = of_nat ((?ds @ replicate (CRT_TREE_MAX_RATIO - length ?ds) 0) ! d)"
    using assms length_digs_u32 [of ratio x] by (intro nth_map) (simp add: tree_consts)
  finally show ?thesis using digs_nth [OF assms(1)] assms length_digs_u32 [of ratio x]
    by (simp add: tree_consts)
qed

lemma knomial_get_parent_kpar:
  assumes "2 \<le> unat ratio" "x \<noteq> 0"
  shows "\<exists>p. knomial_get_parent x ratio = Some p \<and> unat p = kpar (unat ratio) (unat x)"
proof -
  let ?ds = "digs (unat ratio) (unat x)"
  let ?zs = "replicate (CRT_TREE_MAX_RATIO - length ?ds) (0 :: u32)"
  have x: "0 < unat x" using assms(2) by (simp add: unat_gt_0)
  have len: "length (clear_lowest m ds) = length ds" for m ds by (induction m ds rule: clear_lowest.induct) auto
  have "knomial_get_parent x ratio = Some (evalw ratio (take (length ?ds)
      (clear_lowest (length ?ds) (map of_nat ?ds @ ?zs))))"
    unfolding knomial_get_parent_def int_2_knomial_number_knum [OF assms(1)]
    by (simp add: knum_def knomial_number_2_int_evalw len)
  also have "\<dots> = Some (of_nat (kpar (unat ratio) (unat x)))"
    using evalw_clear_lowest [OF assms(1) x, of ?zs] unat_u32_less [of ratio] by simp
  finally have "knomial_get_parent x ratio = Some (of_nat (kpar (unat ratio) (unat x)))" .
  moreover have "kpar (unat ratio) (unat x) < 2 ^ 32"
    using kpar_less [OF assms(1) x] unat_u32_less [of x] by simp
  ultimately show ?thesis by (simp add: unat_of_nat)
qed

subsection \<open>The k-nomial table: children\<close>

lemma knomial_inner_exact:
  assumes "topo_ok sz ratio" "0 < unat inc" "unat inc < unat ratio * unat sz"
  shows "0 < unat i \<Longrightarrow> unat self + (unat i - 1) * unat inc < unat sz \<Longrightarrow>
    knomial_inner i self sz ratio inc = (ret, cs) \<Longrightarrow>
    distinct cs
    \<and> set cs = {y. y < sz \<and> (\<exists>j. unat i \<le> j \<and> j < unat ratio \<and> unat y = unat self + j * unat inc)}
    \<and> (ret \<longleftrightarrow> (\<exists>j. unat i \<le> j \<and> j < unat ratio \<and> unat sz \<le> unat self + j * unat inc))"
  using assms
proof (induction i self sz ratio inc arbitrary: ret cs rule: knomial_inner.induct)
  case (1 i self sz ratio inc)
  note ok = "1.prems"(4)
  let ?child = "self + i * inc"
  let ?s = "unat self" and ?I = "unat inc" and ?r = "unat ratio" and ?i = "unat i"
  show ?case
  proof (cases "i < ratio")
    case False
    then show ?thesis using "1.prems" by (auto simp: knomial_inner.simps [of i] word_less_nat_alt)
  next
    case True
    then have ir: "?i < ?r" by (simp add: word_less_nat_alt)
    have "?s + ?i * ?I = ?s + (?i - 1) * ?I + ?I" using "1.prems"(1) by (cases ?i) simp_all
    also have "\<dots> < (?r + 1) * unat sz" using "1.prems"(2,6) by simp
    also note topo_okD(4) [OF ok]
    finally have b: "?s + ?i * ?I < 2 ^ 32" .
    then have "unat (i * inc) = ?i * ?I" by (intro unat_times_no_wrap) simp
    then have child: "unat ?child = ?s + ?i * ?I" using b unat_plus_no_wrap [of self "i * inc"] by simp
    have mono: "?s + ?i * ?I \<le> ?s + j * ?I" if "?i \<le> j" for j using that by simp
    show ?thesis
    proof (cases "sz \<le> ?child")
      case t: True
      then have "unat sz \<le> ?s + ?i * ?I" using child by (simp add: word_le_nat_alt)
      moreover have "ret \<and> cs = []" using "1.prems"(3) True t by (simp add: knomial_inner.simps [of i])
      ultimately show ?thesis using ir mono by (fastforce simp: word_less_nat_alt)
    next
      case f: False
      then have lt: "?s + ?i * ?I < unat sz" using child by (simp add: word_le_nat_alt)
      have i1: "unat (i + 1) = Suc ?i" using True by (rule unat_add_1_less)
      obtain cs' where cs': "knomial_inner (i + 1) self sz ratio inc = (ret, cs')" "cs = ?child # cs'"
        using "1.prems"(3) True f by (auto simp: knomial_inner.simps [of i] Let_def split: prod.splits)
      have IH: "distinct cs' \<and> set cs' = {y. y < sz \<and> (\<exists>j. unat (i + 1) \<le> j \<and> j < ?r \<and> unat y = ?s + j * ?I)}
          \<and> (ret \<longleftrightarrow> (\<exists>j. unat (i + 1) \<le> j \<and> j < ?r \<and> unat sz \<le> ?s + j * ?I))"
        by (rule "1.IH" [OF True refl f]) (use "1.prems" lt i1 cs' in simp_all)
      have at: "(\<exists>j. ?i \<le> j \<and> j < ?r \<and> P j) \<longleftrightarrow> P ?i \<or> (\<exists>j. Suc ?i \<le> j \<and> j < ?r \<and> P j)" for P
        using ir by (metis le_eq_less_or_eq Suc_le_eq)
      have "y = ?child \<longleftrightarrow> unat y = ?s + ?i * ?I" for y by (simp only: word_unat_eq_iff child)
      moreover have "?child \<notin> set cs'" using IH "1.prems"(5) by (auto simp: i1 child)
      ultimately show ?thesis
        using IH lt unfolding cs'(2) i1 at by (auto simp: word_less_nat_alt child)
    qed
  qed
qed

text \<open>The children a node still has from digit \<open>d\<close> on.\<close>

definition kchildren_from :: "nat \<Rightarrow> u32 \<Rightarrow> u32 \<Rightarrow> u32 \<Rightarrow> u32 set" where
  "kchildren_from d self sz ratio = {y. y < sz \<and> (\<exists>e i. d \<le> e \<and> 0 < i \<and> i < unat ratio
     \<and> unat ratio ^ Suc e dvd unat self \<and> unat y = unat self + i * unat ratio ^ e)}"

lemma kchildren_ge:
  assumes "y \<in> kchildren_from d self sz ratio" "2 \<le> unat ratio"
  shows "unat self + unat ratio ^ d \<le> unat y"
proof -
  obtain e i where e: "d \<le> e" "0 < i" "unat y = unat self + i * unat ratio ^ e"
    using assms by (auto simp: kchildren_from_def)
  have "unat ratio ^ d \<le> 1 * unat ratio ^ e" using e(1) assms(2) by (simp add: power_increasing)
  also have "\<dots> \<le> i * unat ratio ^ e" using e(2) by (intro mult_le_mono1) simp
  finally show ?thesis using e(3) by simp
qed

lemma kchildren_step:
  assumes "unat ratio ^ Suc d dvd unat self"
  shows "kchildren_from d self sz ratio =
    {y. y < sz \<and> (\<exists>j. 1 \<le> j \<and> j < unat ratio \<and> unat y = unat self + j * unat ratio ^ d)}
      \<union> kchildren_from (Suc d) self sz ratio"
proof -
  have at: "(\<exists>e\<ge>d. Q e) \<longleftrightarrow> Q d \<or> (\<exists>e\<ge>Suc d. Q e)" for Q :: "nat \<Rightarrow> bool"
    by (metis le_eq_less_or_eq Suc_le_eq)
  let ?Q = "\<lambda>y e. \<exists>i. 0 < i \<and> i < unat ratio \<and> unat ratio ^ Suc e dvd unat self
      \<and> unat y = unat self + i * unat ratio ^ e"
  have mem: "y \<in> kchildren_from d self sz ratio \<longleftrightarrow> y < sz \<and> (\<exists>e\<ge>d. ?Q y e)" for d y
    unfolding kchildren_from_def by blast
  have now: "?Q y d \<longleftrightarrow> (\<exists>j. 1 \<le> j \<and> j < unat ratio \<and> unat y = unat self + j * unat ratio ^ d)" for y
    using assms by (simp add: Suc_le_eq)
  show ?thesis
  proof (rule set_eqI)
    fix y
    have "y \<in> kchildren_from d self sz ratio \<longleftrightarrow> y < sz \<and> (?Q y d \<or> (\<exists>e\<ge>Suc d. ?Q y e))"
      by (simp only: mem [of y d] at [of "?Q y"])
    then show "y \<in> kchildren_from d self sz ratio \<longleftrightarrow> y \<in> {y. y < sz \<and> (\<exists>j. 1 \<le> j \<and> j < unat ratio
        \<and> unat y = unat self + j * unat ratio ^ d)} \<union> kchildren_from (Suc d) self sz ratio"
      unfolding now Un_iff mem_Collect_eq mem [of y "Suc d"] by blast
  qed
qed

lemma digit_0_iff:
  assumes "r ^ d dvd s" "0 < (r :: nat)"
  shows "s div r ^ d mod r = 0 \<longleftrightarrow> r ^ Suc d dvd s"
proof -
  obtain k where k: "s = r ^ d * k" using assms(1) by (rule dvdE)
  have "r ^ Suc d dvd s \<longleftrightarrow> r dvd k" using assms(2) by (simp add: k mult.commute [of r])
  then show ?thesis using assms(2) by (simp add: k mod_eq_0_iff_dvd)
qed

lemma knomial_outer_cond:
  assumes "2 \<le> unat ratio" "d < CRT_TREE_MAX_RATIO" "unat ratio ^ d dvd unat self"
  shows "d > kn_ndigits (knum self ratio) \<or> kn_digits (knum self ratio) ! d = 0 \<longleftrightarrow>
    unat ratio ^ Suc d dvd unat self"
proof -
  let ?m = "unat self div unat ratio ^ d mod unat ratio"
  have "?m < unat ratio" using assms(1) by simp
  then have "unat (of_nat ?m :: u32) = ?m" using unat_u32_less [of ratio] by (simp add: unat_of_nat)
  then have z: "kn_digits (knum self ratio) ! d = 0 \<longleftrightarrow> ?m = 0"
    using knum_digit [OF assms(1,2), of self] by (auto simp: word_unat_eq_iff)
  have "?m = 0" if "d > kn_ndigits (knum self ratio)"
  proof -
    let ?ds = "digs (unat ratio) (unat self)"
    have "replicate (Suc d) (0 :: nat) ! (d - length ?ds) = 0" by (rule nth_replicate) simp
    then have "(?ds @ replicate (Suc d) 0) ! d = 0" using that by (simp add: knum_def nth_append)
    then show ?thesis using digs_nth [OF assms(1), of d "unat self" "Suc d"] by simp
  qed
  then show ?thesis using z digit_0_iff [OF assms(3)] assms(1) by auto
qed

lemma knomial_outer_exact:
  assumes "topo_ok sz ratio" "self < sz"
  shows "unat ratio ^ d dvd unat self \<Longrightarrow> unat inc = unat ratio ^ d \<Longrightarrow>
    unat inc < unat ratio * unat sz \<Longrightarrow> n = knum self ratio \<Longrightarrow>
    distinct (knomial_outer d n self sz ratio inc)
    \<and> set (knomial_outer d n self sz ratio inc) = kchildren_from d self sz ratio"
  using assms
proof (induction d n self sz ratio inc rule: knomial_outer.induct)
  case (1 d n self sz ratio inc)
  note ok = "1.prems"(5)
  let ?r = "unat ratio" and ?s = "unat self"
  note ro = topo_okD [OF ok]
  have "2 ^ d \<le> ?r ^ d" using ro(2) by (intro power_mono) auto
  also have "?r ^ d < ?r * unat sz" using "1.prems"(2,3) by simp
  also have "\<dots> \<le> 2 ^ 32" using ro(4) by simp
  finally have "d < 32" by (rule power_less_imp_less_exp [rotated]) simp
  then have d32: "d < CRT_TREE_MAX_RATIO" by (simp add: tree_consts)
  note cond = knomial_outer_cond [OF ro(2) d32 "1.prems"(1)]
  show ?case
  proof (cases "?r ^ Suc d dvd ?s")
    case False
    then have "\<not> ?r ^ Suc e dvd ?s" if "d \<le> e" for e
      using that by (meson dvd_trans le_imp_power_dvd Suc_le_mono)
    then have "kchildren_from d self sz ratio = {}" by (auto simp: kchildren_from_def)
    then show ?thesis using False cond "1.prems"(4) by (simp add: knomial_outer.simps [of d])
  next
    case True
    obtain ret cs where inner: "knomial_inner 1 self sz ratio inc = (ret, cs)" by fastforce
    have ex: "distinct cs
        \<and> set cs = {y. y < sz \<and> (\<exists>j. 1 \<le> j \<and> j < ?r \<and> unat y = ?s + j * ?r ^ d)}
        \<and> (ret \<longleftrightarrow> (\<exists>j. 1 \<le> j \<and> j < ?r \<and> unat sz \<le> ?s + j * ?r ^ d))"
      using knomial_inner_exact [OF ok _ "1.prems"(3) _ _ inner] "1.prems"(2,6) ro(2)
      by (simp add: word_less_nat_alt)
    have below: "?s + j * ?r ^ d < ?s + ?r ^ Suc d" if "j < ?r" for j using that ro(2) by simp
    have far: "?s + ?r ^ Suc d \<le> unat y" if "y \<in> kchildren_from (Suc d) self sz ratio" for y
      using kchildren_ge [OF that ro(2)] .
    show ?thesis
    proof (cases ret)
      case t: True
      then obtain j where "j < ?r" "unat sz \<le> ?s + j * ?r ^ d" using ex by auto
      then have "unat sz \<le> unat y" if "y \<in> kchildren_from (Suc d) self sz ratio" for y
        using far [OF that] below [of j] by linarith
      moreover have "unat y < unat sz" if "y \<in> kchildren_from (Suc d) self sz ratio" for y
        using that by (simp add: kchildren_from_def word_less_nat_alt)
      ultimately have "kchildren_from (Suc d) self sz ratio = {}" by (meson equals0I not_le)
      then show ?thesis
        using ex True t d32 cond "1.prems"(4) kchildren_step [OF True, of sz]
        by (simp add: knomial_outer.simps [of d] inner)
    next
      case f: False
      have "\<not> (1 \<le> ?r - 1 \<and> ?r - 1 < ?r \<and> unat sz \<le> ?s + (?r - 1) * ?r ^ d)" using ex f by blast
      then have "?s + (?r - 1) * ?r ^ d < unat sz" using ro(2) by linarith
      moreover have "1 * ?r ^ d \<le> (?r - 1) * ?r ^ d" using ro(2) by (intro mult_le_mono1) simp
      ultimately have pw: "?r ^ d < unat sz" by linarith
      then have lt: "?r ^ Suc d < ?r * unat sz" using ro(2) by simp
      have "?r ^ Suc d < 2 ^ 32" using lt ro(4) by (simp only: distrib_right)
      then have "unat (inc * ratio) = ?r ^ Suc d"
        using "1.prems"(2) unat_times_no_wrap [of inc ratio] by (simp add: mult.commute)
      then have IH: "distinct (knomial_outer (Suc d) n self sz ratio (inc * ratio))
          \<and> set (knomial_outer (Suc d) n self sz ratio (inc * ratio)) = kchildren_from (Suc d) self sz ratio"
        using "1.IH" [OF _ inner [symmetric] refl f] True cond "1.prems" d32 lt by simp
      have "unat y < ?s + ?r ^ Suc d" if "y \<in> set cs" for y
      proof -
        have "y \<in> {y. y < sz \<and> (\<exists>j. 1 \<le> j \<and> j < ?r \<and> unat y = ?s + j * ?r ^ d)}"
          using that ex by simp
        then obtain j where "j < ?r" "unat y = ?s + j * ?r ^ d" by blast
        then show ?thesis using below by metis
      qed
      then have "set cs \<inter> kchildren_from (Suc d) self sz ratio = {}" using far by (meson disjoint_iff not_le)
      then show ?thesis
        using IH ex True f d32 cond "1.prems"(4) kchildren_step [OF True, of sz]
        by (simp add: knomial_outer.simps [of d] inner)
    qed
  qed
qed

interpretation knomial: rotated_topo knomial_get_children knomial_get_parent
  crt_knomial_get_children_cnt crt_knomial_get_children crt_knomial_get_parent
proof
  fix sz ratio root self y :: u32
  assume ok: "topo_ok sz ratio"
  then have ass: "0 < sz" "ratio_assert ratio" by (simp_all add: topo_ok_def)
  note r2 = topo_okD(2) [OF ok]
  show "crt_knomial_get_children_cnt sz ratio root self =
      (case crt_grprank_2_teerank sz root self of None \<Rightarrow> None
       | Some t \<Rightarrow> map_option (\<lambda>cs. Inr (of_nat (length cs))) (knomial_get_children t sz ratio))"
    using ass by (simp add: crt_knomial_get_children_cnt_def)
  show "crt_knomial_get_children sz ratio root self =
      (case crt_grprank_2_teerank sz root self of None \<Rightarrow> None
       | Some t \<Rightarrow> (case knomial_get_children t sz ratio of None \<Rightarrow> None
           | Some cs \<Rightarrow> map_option Inr (those (map (crt_treerank_2_grprank sz root) cs))))"
    using ass by (simp add: crt_knomial_get_children_def)
  show "crt_knomial_get_parent sz ratio root self =
      (if self = root then Some (Inl DER_INVAL)
       else case crt_grprank_2_teerank sz root self of None \<Rightarrow> None
       | Some t \<Rightarrow> if t \<noteq> 0 then
             (case knomial_get_parent t ratio of None \<Rightarrow> None
              | Some p \<Rightarrow> map_option Inr (crt_treerank_2_grprank sz root p))
           else None)"
    using ass by (simp add: crt_knomial_get_parent_def)
  have par: "knomial_get_parent y ratio = Some p \<longleftrightarrow> kpar (unat ratio) (unat y) = unat p" if "y \<noteq> 0" for y p
    using knomial_get_parent_kpar [OF r2 that] by (auto simp: word_unat_eq_iff)
  show "\<exists>cs. knomial_get_children self sz ratio = Some cs \<and> distinct cs
      \<and> set cs = {y. y < sz \<and> y \<noteq> 0 \<and> knomial_get_parent y ratio = Some self}" if "self < sz"
  proof -
    have "y \<in> kchildren_from 0 self sz ratio \<longleftrightarrow> y < sz \<and> y \<noteq> 0 \<and> knomial_get_parent y ratio = Some self" for y
    proof (cases "y = 0")
      case True
      then show ?thesis using kchildren_ge [of y 0 self sz ratio] r2 by auto
    next
      case False
      then have "0 < unat y" by (simp add: unat_gt_0)
      then show ?thesis
        using False par [OF False] kpar_iff [OF r2, of "unat y" "unat self"] by (simp add: kchildren_from_def)
    qed
    moreover have "1 < unat ratio * unat sz"
      using r2 topo_okD(1) [OF ok] mult_le_mono [of 2 "unat ratio" 1 "unat sz"] by simp
    ultimately show ?thesis
      using knomial_outer_exact [OF ok that, of 0 1] that r2
      by (auto simp: knomial_get_children_def int_2_knomial_number_knum)
  qed
  show "\<exists>p. knomial_get_parent y ratio = Some p \<and> p < y" if "y < sz" "y \<noteq> 0"
    using knomial_get_parent_kpar [OF r2 that(2)] kpar_less [OF r2, of "unat y"] that(2)
    by (auto simp: word_less_nat_alt unat_gt_0)
qed

section \<open>Properties\<close>

text \<open>
  Property C2. In a group within the size bound, forwarding a message along the k-nomial tree from
  any root visits every rank of the group, and none twice; and a rank is among the children the
  table returns for \<open>self\<close> exactly when \<open>self\<close> is the parent the table returns for it, the number
  of children being the one \<open>crt_knomial_get_children_cnt\<close> announces.
\<close>

theorem knomial_forward_once:
  assumes "topo_ok sz ratio" "root < sz"
  shows "distinct (forward (topo_children crt_knomial_get_children_cnt crt_knomial_get_children sz ratio root)
        (unat sz) root)
    \<and> set (forward (topo_children crt_knomial_get_children_cnt crt_knomial_get_children sz ratio root)
        (unat sz) root) = {y. y < sz}
    \<and> (\<forall>self < sz. \<exists>cs. crt_knomial_get_children_cnt sz ratio root self = Some (Inr (of_nat (length cs)))
        \<and> topo_children crt_knomial_get_children_cnt crt_knomial_get_children sz ratio root self = cs
        \<and> set cs = {y. y < sz \<and> y \<noteq> root \<and> crt_knomial_get_parent sz ratio root y = Some (Inr self)})"
  using knomial.forward_covers [OF assms] knomial.children_exact [OF assms] by blast

theorem knomial_forward_once_witness:
  "topo_ok 6 3 \<and> (4 :: u32) < 6
    \<and> set (forward (topo_children crt_knomial_get_children_cnt crt_knomial_get_children 6 3 4) (unat (6 :: u32)) 4)
      = {y. y < 6}"
proof -
  have "topo_ok 6 3" "(4 :: u32) < 6" by (simp_all add: topo_ok_def ratio_assert_def tree_consts)
  then show ?thesis using knomial_forward_once [of 6 3 4] by blast
qed

text \<open>
  Property C3. The same for the k-ary tree.
\<close>

theorem kary_forward_once:
  assumes "topo_ok sz ratio" "root < sz"
  shows "distinct (forward (topo_children crt_kary_get_children_cnt crt_kary_get_children sz ratio root)
        (unat sz) root)
    \<and> set (forward (topo_children crt_kary_get_children_cnt crt_kary_get_children sz ratio root)
        (unat sz) root) = {y. y < sz}
    \<and> (\<forall>self < sz. \<exists>cs. crt_kary_get_children_cnt sz ratio root self = Some (Inr (of_nat (length cs)))
        \<and> topo_children crt_kary_get_children_cnt crt_kary_get_children sz ratio root self = cs
        \<and> set cs = {y. y < sz \<and> y \<noteq> root \<and> crt_kary_get_parent sz ratio root y = Some (Inr self)})"
  using kary.forward_covers [OF assms] kary.children_exact [OF assms] by blast

theorem kary_forward_once_witness:
  "topo_ok 7 2 \<and> (5 :: u32) < 7
    \<and> distinct (forward (topo_children crt_kary_get_children_cnt crt_kary_get_children 7 2 5) (unat (7 :: u32)) 5)"
proof -
  have "topo_ok 7 2" "(5 :: u32) < 7" by (simp_all add: topo_ok_def ratio_assert_def tree_consts)
  then show ?thesis using kary_forward_once [of 7 2 5] by blast
qed

text \<open>
  Property C4. The flat tree also visits every rank exactly once. Its operation
  \<open>crt_flat_get_children\<close> fails with \<open>DER_INVAL\<close> on every rank but the root, and these are exactly
  the ranks for which the announced number of children is \<open>0\<close> in a group of more than one rank.
\<close>

theorem flat_forward_once:
  assumes "flat_ok sz ratio" "root < sz"
  shows "distinct (forward (topo_children crt_flat_get_children_cnt crt_flat_get_children sz ratio root)
        (unat sz) root)
    \<and> set (forward (topo_children crt_flat_get_children_cnt crt_flat_get_children sz ratio root)
        (unat sz) root) = {y. y < sz}
    \<and> (1 < sz \<longrightarrow> (\<forall>self. crt_flat_get_children sz ratio root self = Some (Inl DER_INVAL) \<longleftrightarrow>
          crt_flat_get_children_cnt sz ratio root self = Some (Inr 0)))"
proof -
  have "sz - 1 \<noteq> 0" if "1 < sz" using that by auto
  then have "1 < sz \<longrightarrow> (\<forall>self. crt_flat_get_children sz ratio root self = Some (Inl DER_INVAL) \<longleftrightarrow>
          crt_flat_get_children_cnt sz ratio root self = Some (Inr 0))"
    using assms by (auto simp: crt_flat_get_children_def crt_flat_get_children_cnt_def flat_ok_def)
  then show ?thesis using flat.forward_covers [OF assms] by blast
qed

theorem flat_forward_once_witness:
  "flat_ok 3 0 \<and> (1 :: u32) < 3
    \<and> set (forward (topo_children crt_flat_get_children_cnt crt_flat_get_children 3 0 1) (unat (3 :: u32)) 1)
      = {y. y < 3}"
proof -
  have "flat_ok 3 0" "(1 :: u32) < 3" by (simp_all add: flat_ok_def)
  then show ?thesis using flat_forward_once [of 3 0 1] by blast
qed

lemma topo_code_arith:
  assumes "0 \<le> ty" "0 \<le> (r :: int)"
  shows "drop_bit 16 (push_bit 16 ty OR (r AND (push_bit 16 1 - 1))) = ty"
    and "(push_bit 16 ty OR (r AND (push_bit 16 1 - 1))) AND (push_bit 16 1 - 1) = r mod 2 ^ 16"
proof -
  have m: "push_bit 16 1 - 1 = (mask 16 :: int)" by (simp add: push_bit_eq_mult mask_eq_exp_minus_1)
  show "drop_bit 16 (push_bit 16 ty OR (r AND (push_bit 16 1 - 1))) = ty"
    by (simp only: m flip: take_bit_eq_mask) (simp add: drop_bit_push_bit drop_bit_take_bit)
  show "(push_bit 16 ty OR (r AND (push_bit 16 1 - 1))) AND (push_bit 16 1 - 1) = r mod 2 ^ 16"
    by (simp only: m flip: take_bit_eq_mask) (simp add: take_bit_push_bit, simp add: take_bit_eq_mod)
qed

text \<open>
  Property C36. The topology code produced by \<open>crt_tree_topo\<close> for a valid tree type gives back that
  type and the low sixteen bits of the ratio, and passes \<open>crt_tree_topo_valid\<close> exactly when the tree
  is flat or that ratio is within \<open>CRT_TREE_MIN_RATIO .. CRT_TREE_MAX_RATIO\<close>; for an invalid type the
  call fails with \<open>DER_INVAL\<close>.
\<close>

theorem tree_topo_roundtrip:
  "(case crt_tree_topo ty ratio of
      Inl e \<Rightarrow> e = DER_INVAL \<and> (ty < CRT_TREE_MIN \<or> ty > CRT_TREE_MAX)
    | Inr t \<Rightarrow> CRT_TREE_MIN \<le> ty \<and> ty \<le> CRT_TREE_MAX
        \<and> crt_tree_type t = ty \<and> crt_tree_ratio t = uint ratio mod 2 ^ 16
        \<and> (crt_tree_topo_valid t \<longleftrightarrow> ty = CRT_TREE_FLAT
            \<or> int CRT_TREE_MIN_RATIO \<le> uint ratio mod 2 ^ 16 \<and> uint ratio mod 2 ^ 16 \<le> int CRT_TREE_MAX_RATIO))"
proof (cases "ty < CRT_TREE_MIN \<or> ty > CRT_TREE_MAX")
  case False
  then have "0 \<le> ty" by (simp add: tree_consts)
  note a = topo_code_arith [OF this, of "uint ratio", simplified]
  show ?thesis using False a
    by (simp add: crt_tree_topo_def crt_tree_topo_valid_def crt_tree_type_def crt_tree_ratio_def Let_def)
qed (simp add: crt_tree_topo_def)

end
