(* ===== verification/Crt_Tree.thy ===== *)
theory Crt_Tree
  imports Rank_List Tree_Topo
begin

text \<open>
  The generic layer of \<^verbatim>\<open>src/cart/crt_tree.c\<close>: it builds the list of target ranks of a collective
  call from the members of a group and a filter list, calls the topology table selected by the
  topology code, and translates tree positions back to ranks. The main theorem composes the rank
  list operations with the contract of the tables: a call forwarded along
  \<open>crt_tree_get_children\<close> reaches exactly the target ranks, each of them once.

  A result \<open>None\<close> is an abort: a failed \<open>D_ASSERT\<close>, a dereference of \<open>NULL\<close> or a read outside an
  array. The argument \<open>alloc\<close> tells for each allocation of a call whether it succeeds.
\<close>

section \<open>Operations\<close>

text \<open>The part of \<open>struct crt_grp_priv\<close> that is read here.\<close>

record crt_grp_view =
  cgm_linear_list :: "d_rank_list option"
  gp_membs_ver :: u32

definition CRT_NO_RANK :: d_rank_t where "CRT_NO_RANK = - 1"

definition grp_priv_get_membs :: "crt_grp_view \<Rightarrow> d_rank_list option" where
  "grp_priv_get_membs priv = cgm_linear_list priv"

text \<open>
  The result \<open>Inr None\<close> is \<open>rc == 0\<close> with no list (everything was filtered out); otherwise it holds
  the list, its size and the positions of the root and of the calling rank.
\<close>

definition crt_get_filtered_grp_rank_list ::
  "(nat \<Rightarrow> bool) \<Rightarrow> crt_grp_view \<Rightarrow> u32 \<Rightarrow> bool \<Rightarrow> d_rank_list option \<Rightarrow> d_rank_t \<Rightarrow> d_rank_t \<Rightarrow>
     (rc + (d_rank_list \<times> u32 \<times> u32 \<times> u32) option) option" where
  "crt_get_filtered_grp_rank_list alloc grp_priv grp_ver exclusive filter_ranks root self =
     (let positions = (\<lambda>grp_rank_list.
            case d_idx_in_rank_list True (Some grp_rank_list) root of
              Inl rc \<Rightarrow> Some (Inl rc)
            | Inr grp_root \<Rightarrow>
                (case d_idx_in_rank_list True (Some grp_rank_list) self of
                   Inl rc \<Rightarrow> Some (Inl rc)
                 | Inr grp_self \<Rightarrow>
                     Some (Inr (Some (grp_rank_list, of_nat (rl_nr grp_rank_list),
                       of_nat grp_root, of_nat grp_self)))))
      in
      case d_rank_list_dup_sort_uniq True (alloc 0) (alloc 1) (grp_priv_get_membs grp_priv) of
        Inl rc \<Rightarrow> Some (Inl rc)
      | Inr None \<Rightarrow> None
      | Inr (Some grp_rank_list) \<Rightarrow>
          if exclusive then
            (case (d_rank_list_filter filter_ranks (Some grp_rank_list) False, filter_ranks) of
               (Some l, Some f) \<Rightarrow>
                 if rl_nr l \<noteq> rl_nr f then Some (Inl DER_OOG) else positions l
             | _ \<Rightarrow> None)
          else
            (case filter_ranks of
               None \<Rightarrow> positions grp_rank_list
             | Some f \<Rightarrow>
                 if rl_nr f > 0 then
                   (case d_rank_list_filter filter_ranks (Some grp_rank_list) True of
                      None \<Rightarrow> None
                    | Some l \<Rightarrow> if rl_nr l = 0 then Some (Inr None) else positions l)
                 else positions grp_rank_list))"

record crt_topo_ops =
  to_get_children_cnt :: "u32 \<Rightarrow> u32 \<Rightarrow> u32 \<Rightarrow> u32 \<Rightarrow> (rc + u32) option"
  to_get_children :: "u32 \<Rightarrow> u32 \<Rightarrow> u32 \<Rightarrow> u32 \<Rightarrow> (rc + u32 list) option"
  to_get_parent :: "u32 \<Rightarrow> u32 \<Rightarrow> u32 \<Rightarrow> u32 \<Rightarrow> (rc + u32) option"

definition crt_flat_ops :: crt_topo_ops where
  "crt_flat_ops = \<lparr>to_get_children_cnt = crt_flat_get_children_cnt,
     to_get_children = crt_flat_get_children, to_get_parent = crt_flat_get_parent\<rparr>"

definition crt_kary_ops :: crt_topo_ops where
  "crt_kary_ops = \<lparr>to_get_children_cnt = crt_kary_get_children_cnt,
     to_get_children = crt_kary_get_children, to_get_parent = crt_kary_get_parent\<rparr>"

definition crt_knomial_ops :: crt_topo_ops where
  "crt_knomial_ops = \<lparr>to_get_children_cnt = crt_knomial_get_children_cnt,
     to_get_children = crt_knomial_get_children, to_get_parent = crt_knomial_get_parent\<rparr>"

text \<open>The table \<open>crt_tops\<close>; entry \<open>0\<close> is \<open>NULL\<close> and there is no entry beyond the last one.\<close>

definition crt_tops :: "int \<Rightarrow> crt_topo_ops option" where
  "crt_tops tree_type =
     (if tree_type = CRT_TREE_FLAT then Some crt_flat_ops
      else if tree_type = CRT_TREE_KARY then Some crt_kary_ops
      else if tree_type = CRT_TREE_KNOMIAL then Some crt_knomial_ops
      else None)"

definition CRT_TREE_PARAMETER_CHECKING :: "int \<Rightarrow> d_rank_t \<Rightarrow> d_rank_t \<Rightarrow> bool" where
  "CRT_TREE_PARAMETER_CHECKING tree_topo root self \<longleftrightarrow>
     crt_tree_topo_valid tree_topo
     \<and> (CRT_TREE_MIN \<le> crt_tree_type tree_topo \<and> crt_tree_type tree_topo \<le> CRT_TREE_MAX)
     \<and> (crt_tree_type tree_topo = CRT_TREE_FLAT
         \<or> (int CRT_TREE_MIN_RATIO \<le> crt_tree_ratio tree_topo
            \<and> crt_tree_ratio tree_topo \<le> int CRT_TREE_MAX_RATIO))
     \<and> root \<noteq> CRT_NO_RANK \<and> self \<noteq> CRT_NO_RANK"

definition tree_ratio_of :: "int \<Rightarrow> u32" where
  "tree_ratio_of tree_topo = word_of_int (crt_tree_ratio tree_topo)"

definition crt_tree_get_nchildren ::
  "(nat \<Rightarrow> bool) \<Rightarrow> crt_grp_view \<Rightarrow> u32 \<Rightarrow> d_rank_list option \<Rightarrow> int \<Rightarrow> d_rank_t \<Rightarrow> d_rank_t \<Rightarrow> bool \<Rightarrow>
     (rc + u32) option" where
  "crt_tree_get_nchildren alloc grp_priv grp_ver exclude_ranks tree_topo root self nchildren_ok =
     (if \<not> CRT_TREE_PARAMETER_CHECKING tree_topo root self then None
      else if \<not> nchildren_ok then Some (Inl DER_INVAL)
      else
        (case crt_get_filtered_grp_rank_list alloc grp_priv grp_ver False exclude_ranks root self of
           None \<Rightarrow> None
         | Some (Inl rc) \<Rightarrow> Some (Inl rc)
         | Some (Inr None) \<Rightarrow> Some (Inl DER_INVAL)
         | Some (Inr (Some (grp_rank_list, grp_size, grp_root, grp_self))) \<Rightarrow>
             (case crt_tops (crt_tree_type tree_topo) of
                None \<Rightarrow> None
              | Some tops \<Rightarrow>
                  to_get_children_cnt tops grp_size (tree_ratio_of tree_topo) grp_root grp_self)))"

text \<open>
  \<open>ver_match\<close> says that the pointer of that name is not \<open>NULL\<close>; the flag stored there is the first
  component of the result.
\<close>

definition crt_tree_get_children ::
  "(nat \<Rightarrow> bool) \<Rightarrow> crt_grp_view \<Rightarrow> u32 \<Rightarrow> bool \<Rightarrow> d_rank_list option \<Rightarrow> int \<Rightarrow> d_rank_t \<Rightarrow> d_rank_t \<Rightarrow>
     bool \<Rightarrow> bool \<Rightarrow> (bool option \<times> (rc + d_rank_list option)) option" where
  "crt_tree_get_children alloc grp_priv grp_ver exclusive filter_ranks tree_topo root self
       children_ok ver_match =
     (let vm = (if ver_match then Some (grp_ver = gp_membs_ver grp_priv) else None);
          ret = map_option (Pair vm)
      in
      if vm = Some False then ret (Some (Inl DER_GRPVER))
      else if \<not> CRT_TREE_PARAMETER_CHECKING tree_topo root self then None
      else if \<not> children_ok then ret (Some (Inl DER_INVAL))
      else
        (case crt_get_filtered_grp_rank_list alloc grp_priv grp_ver exclusive filter_ranks root self of
           None \<Rightarrow> None
         | Some (Inl rc) \<Rightarrow> ret (Some (Inl rc))
         | Some (Inr None) \<Rightarrow> ret (Some (Inr None))
         | Some (Inr (Some (grp_rank_list, grp_size, grp_root, grp_self))) \<Rightarrow>
             (case crt_tops (crt_tree_type tree_topo) of
                None \<Rightarrow> None
              | Some tops \<Rightarrow>
                  (case to_get_children_cnt tops grp_size (tree_ratio_of tree_topo) grp_root grp_self of
                     None \<Rightarrow> None
                   | Some (Inl rc) \<Rightarrow> ret (Some (Inl rc))
                   | Some (Inr nchildren) \<Rightarrow>
                       if nchildren = 0 then ret (Some (Inr None))
                       else
                         (case d_rank_list_alloc (alloc 2) (alloc 3) (unat nchildren) of
                            None \<Rightarrow> ret (Some (Inl DER_NOMEM))
                          | Some result_rank_list \<Rightarrow>
                              if \<not> alloc 4 then ret (Some (Inl DER_NOMEM))
                              else
                                (case to_get_children tops grp_size (tree_ratio_of tree_topo)
                                        grp_root grp_self of
                                   None \<Rightarrow> None
                                 | Some (Inl rc) \<Rightarrow> ret (Some (Inl rc))
                                 | Some (Inr tree_children) \<Rightarrow>
                                     ret (Some (Inr (Some (result_rank_list\<lparr>rl_ranks :=
                                       map (\<lambda>i. rl_ranks grp_rank_list ! unat (tree_children ! i))
                                         [0..<unat nchildren]\<rparr>))))))))))"

text \<open>
  After a failure of \<open>to_get_parent\<close> the function still reads the rank at position \<open>tree_parent\<close>,
  a local variable that has not been assigned: its value is the argument \<open>junk\<close>.
\<close>

definition crt_tree_get_parent ::
  "(nat \<Rightarrow> bool) \<Rightarrow> u32 \<Rightarrow> crt_grp_view \<Rightarrow> u32 \<Rightarrow> d_rank_list option \<Rightarrow> int \<Rightarrow> d_rank_t \<Rightarrow> d_rank_t \<Rightarrow> bool \<Rightarrow>
     (rc \<times> d_rank_t option) option" where
  "crt_tree_get_parent alloc junk grp_priv grp_ver exclude_ranks tree_topo root self parent_ok =
     (if \<not> CRT_TREE_PARAMETER_CHECKING tree_topo root self then None
      else if \<not> parent_ok then Some (DER_INVAL, None)
      else
        (case crt_get_filtered_grp_rank_list alloc grp_priv grp_ver False exclude_ranks root self of
           None \<Rightarrow> None
         | Some (Inl rc) \<Rightarrow> Some (rc, None)
         | Some (Inr None) \<Rightarrow> Some (DER_INVAL, None)
         | Some (Inr (Some (grp_rank_list, grp_size, grp_root, grp_self))) \<Rightarrow>
             (let read = (\<lambda>rc tree_parent.
                    if unat tree_parent < length (rl_ranks grp_rank_list)
                    then Some (rc, Some (rl_ranks grp_rank_list ! unat tree_parent)) else None)
              in
              case crt_tops (crt_tree_type tree_topo) of
                None \<Rightarrow> None
              | Some tops \<Rightarrow>
                  (case to_get_parent tops grp_size (tree_ratio_of tree_topo) grp_root grp_self of
                     None \<Rightarrow> None
                   | Some (Inl rc) \<Rightarrow> read rc junk
                   | Some (Inr tree_parent) \<Rightarrow> read DER_SUCCESS tree_parent))))"

section \<open>The target list\<close>

text \<open>What the filter of a call has to satisfy, and the ranks the call is meant for.\<close>

definition filter_ok :: "bool \<Rightarrow> d_rank_list option \<Rightarrow> d_rank_list \<Rightarrow> bool" where
  "filter_ok exclusive filter_ranks membs =
     (case filter_ranks of
        None \<Rightarrow> \<not> exclusive
      | Some f \<Rightarrow> rl_wf f \<and> rl_ranks f \<noteq> []
          \<and> (exclusive \<longrightarrow> distinct (ranks_of f) \<and> set (ranks_of f) \<subseteq> set (ranks_of membs)))"

definition targets :: "bool \<Rightarrow> d_rank_list option \<Rightarrow> d_rank_list \<Rightarrow> d_rank_t set" where
  "targets exclusive filter_ranks membs =
     (case filter_ranks of
        None \<Rightarrow> set (ranks_of membs)
      | Some f \<Rightarrow> if exclusive then set (ranks_of f) else set (ranks_of membs) - set (ranks_of f))"

lemma uniq_pairs_distinct: "distinct xs \<Longrightarrow> uniq_pairs xs = xs"
  by (induction xs rule: uniq_pairs.induct) auto

lemma dup_sort_uniq_distinct:
  assumes "rl_wf m" "distinct (ranks_of m)"
  obtains l where "d_rank_list_dup_sort_uniq True True True (Some m) = Inr (Some l)" "rl_wf l"
    "distinct (ranks_of l)" "set (ranks_of l) = set (ranks_of m)" "rl_nr l = rl_nr m"
proof -
  obtain l where l: "d_rank_list_dup_sort_uniq True True True (Some m) = Inr (Some l)" "rl_wf l"
    "ranks_of l = uniq_pairs (sort (ranks_of m))"
    using dup_sort_uniq_eq [OF assms(1)] by metis
  then have r: "ranks_of l = sort (ranks_of m)" using assms(2) by (simp add: uniq_pairs_distinct)
  then have "rl_nr l = rl_nr m" using l(2) assms(1) by (metis length_ranks_of length_sort)
  then show thesis using that [OF l(1,2)] r assms(2) by simp
qed

lemma idx_in_rank_list_mem:
  assumes "rl_wf l" "distinct (ranks_of l)" "r \<in> set (ranks_of l)"
  obtains k where "d_idx_in_rank_list True (Some l) r = Inr k" "k < rl_nr l" "rl_ranks l ! k = r"
proof -
  obtain k where k: "k < length (ranks_of l)" "ranks_of l ! k = r"
    using assms(3) by (auto simp: in_set_conv_nth)
  then have "rl_ranks l ! k = r" by (simp add: ranks_of_def)
  then show thesis
    using that [of k] k assms(1) idx_in_rank_list_nth [OF assms(2) k(1)] by simp
qed

text \<open>The filtered list of a call depends on the group and the filter, not on the calling rank.\<close>

lemma filtered_list:
  assumes "rl_wf m" "distinct (ranks_of m)" "filter_ok exclusive filter_ranks m"
    and "targets exclusive filter_ranks m \<noteq> {}"
    and grp: "cgm_linear_list grp = Some m" and "\<And>n. alloc n"
  obtains l where "rl_wf l" "distinct (ranks_of l)" "set (ranks_of l) = targets exclusive filter_ranks m"
    "rl_nr l \<le> rl_nr m" "0 < rl_nr l"
    "\<And>root self. crt_get_filtered_grp_rank_list alloc grp ver exclusive filter_ranks root self =
       (case d_idx_in_rank_list True (Some l) root of
          Inl rc \<Rightarrow> Some (Inl rc)
        | Inr grp_root \<Rightarrow>
            (case d_idx_in_rank_list True (Some l) self of
               Inl rc \<Rightarrow> Some (Inl rc)
             | Inr grp_self \<Rightarrow>
                 Some (Inr (Some (l, of_nat (rl_nr l), of_nat grp_root, of_nat grp_self)))))"
proof -
  obtain d where d: "d_rank_list_dup_sort_uniq True True True (Some m) = Inr (Some d)" "rl_wf d"
    "distinct (ranks_of d)" "set (ranks_of d) = set (ranks_of m)" "rl_nr d = rl_nr m"
    using dup_sort_uniq_distinct [OF assms(1,2)] by metis
  have pos: "0 < rl_nr l" if "rl_wf l" "set (ranks_of l) \<noteq> {}" for l
    using that by (metis length_ranks_of length_greater_0_conv list.set(1))
  show thesis
  proof (cases filter_ranks)
    case None
    then show thesis
      using that [of d] d assms(3,4,6) pos [OF d(2)] grp
      by (simp add: crt_get_filtered_grp_rank_list_def filter_ok_def targets_def grp_priv_get_membs_def)
  next
    case (Some f)
    then have f: "rl_wf f" "rl_ranks f \<noteq> []" using assms(3) by (simp_all add: filter_ok_def)
    obtain l where l: "d_rank_list_filter (Some f) (Some d) (\<not> exclusive) = Some l" "rl_wf l"
      "ranks_of l = filter (\<lambda>r. r \<in> set (ranks_of f) \<longleftrightarrow> \<not> \<not> exclusive) (ranks_of d)"
      by (rule filter_eq [OF f(1) d(2) f(2)])
    have set: "set (ranks_of l) = targets exclusive filter_ranks m"
      using l(3) d(4) assms(3) Some by (auto simp: targets_def filter_ok_def)
    have dist: "distinct (ranks_of l)" using l(3) d(3) by simp
    have "length (ranks_of l) \<le> length (ranks_of d)" by (simp only: l(3) length_filter_le)
    then have le: "rl_nr l \<le> rl_nr m" using l(2) d(2,5) by simp
    have l0: "0 < rl_nr l" using pos [OF l(2)] set assms(4) by simp
    show thesis
    proof (cases exclusive)
      case True
      then have "set (ranks_of l) = set (ranks_of f)" "distinct (ranks_of f)"
        using set Some assms(3) by (simp_all add: targets_def filter_ok_def)
      then have "length (ranks_of l) = length (ranks_of f)"
        using distinct_card [OF dist] distinct_card [of "ranks_of f"] by simp
      then have "rl_nr l = rl_nr f" using l(2) f(1) by simp
      then show thesis
        using that [OF l(2) dist set le l0] True Some d(1) l(1) assms(6) grp
        by (simp add: crt_get_filtered_grp_rank_list_def grp_priv_get_membs_def)
    next
      case False
      show thesis
      proof (cases "rl_nr f = 0")
        case True
        then have "ranks_of f = []" by (simp add: ranks_of_def)
        then have "set (ranks_of d) = targets exclusive filter_ranks m"
          using False Some d(4) by (simp add: targets_def)
        then show thesis
          using that [OF d(2,3)] d True False Some assms(4,6) pos [OF d(2)] grp
          by (simp add: crt_get_filtered_grp_rank_list_def grp_priv_get_membs_def)
      next
        case nz: False
        then show thesis
          using that [OF l(2) dist set le l0] False Some d(1) l(1) l0 assms(6) grp
          by (simp add: crt_get_filtered_grp_rank_list_def grp_priv_get_membs_def)
      qed
    qed
  qed
qed

section \<open>The topology tables\<close>

definition tops_ok :: "int \<Rightarrow> u32 \<Rightarrow> u32 \<Rightarrow> bool" where
  "tops_ok ty = (if ty = CRT_TREE_FLAT then flat_ok else topo_ok)"

definition tops_depth :: "int \<Rightarrow> u32 \<Rightarrow> u32 \<Rightarrow> u32 \<Rightarrow> u32 \<Rightarrow> nat" where
  "tops_depth ty = (if ty = CRT_TREE_FLAT then flat_depth else tree_depth)"

lemma tops_spanning:
  assumes "crt_tops ty = Some tops"
  shows "spanning_topo (to_get_children_cnt tops) (to_get_children tops) (to_get_parent tops)
    (tops_ok ty) (tops_depth ty)"
  using assms flat.spanning_topo_axioms kary.spanning_topo_axioms knomial.spanning_topo_axioms
  by (auto simp: crt_tops_def crt_flat_ops_def crt_kary_ops_def crt_knomial_ops_def tops_ok_def
      tops_depth_def tree_consts split: if_splits)

lemma valid_tops:
  assumes "crt_tree_topo_valid tree_topo" "0 < n" "65 * n \<le> 2 ^ 32"
  obtains tops where "crt_tops (crt_tree_type tree_topo) = Some tops"
    "tops_ok (crt_tree_type tree_topo) (of_nat n) (tree_ratio_of tree_topo)"
proof -
  let ?ty = "crt_tree_type tree_topo" and ?r = "crt_tree_ratio tree_topo"
  have v: "?ty = 1 \<or> ((?ty = 2 \<or> ?ty = 3) \<and> 2 \<le> ?r \<and> ?r \<le> 64)"
    using assms(1) by (auto simp: crt_tree_topo_valid_def tree_consts Let_def)
  have n: "unat (of_nat n :: u32) = n" using assms(3) by (simp add: unat_of_nat)
  then have n0: "0 < (of_nat n :: u32)" using assms(2) by (simp add: word_less_nat_alt)
  have "tops_ok ?ty (of_nat n) (tree_ratio_of tree_topo)"
  proof (cases "?ty = 1")
    case True
    then show ?thesis using n n0 assms(3) by (simp add: tops_ok_def tree_consts flat_ok_def)
  next
    case False
    then have r: "2 \<le> ?r" "?r \<le> 64" using v by auto
    then have "unat (tree_ratio_of tree_topo) = nat ?r"
      by (simp add: tree_ratio_of_def unat_eq_nat_uint unsigned_of_int take_bit_eq_mod)
    moreover have "(nat ?r + 1) * n \<le> 65 * n" using r by (intro mult_le_mono1) simp
    then have "(nat ?r + 1) * n \<le> 2 ^ 32" using assms(3) by linarith
    moreover have "2 \<le> nat ?r" "nat ?r \<le> 64" using r by linarith+
    ultimately show ?thesis
      using False n n0 by (simp add: tops_ok_def tree_consts topo_ok_def ratio_assert_def)
  qed
  moreover obtain tops where "crt_tops ?ty = Some tops" using v by (auto simp: crt_tops_def tree_consts)
  ultimately show thesis using that by blast
qed

section \<open>Children and parents as ranks\<close>

text \<open>The ranks a call is forwarded to by \<open>self\<close>; no list and a failure both mean nobody.\<close>

definition forward_to ::
  "crt_grp_view \<Rightarrow> bool \<Rightarrow> d_rank_list option \<Rightarrow> int \<Rightarrow> d_rank_t \<Rightarrow> d_rank_t \<Rightarrow> d_rank_t list" where
  "forward_to grp exclusive filter_ranks tree_topo root self =
     (case crt_tree_get_children (\<lambda>_. True) grp (gp_membs_ver grp) exclusive filter_ranks tree_topo
             root self True True of
        Some (_, Inr (Some rl)) \<Rightarrow> ranks_of rl
      | _ \<Rightarrow> [])"

lemma forward_map:
  assumes "\<And>i. i \<in> V \<Longrightarrow> ch' (h i) = map h (ch i)" "\<And>i. i \<in> V \<Longrightarrow> set (ch i) \<subseteq> V"
  shows "i \<in> V \<Longrightarrow> forward ch' f (h i) = map h (forward ch f i)"
proof (induction f arbitrary: i)
  case (Suc f)
  have "forward ch' f (h c) = map h (forward ch f c)" if "c \<in> set (ch i)" for c
    using Suc assms(2) that by blast
  then have "concat (map (\<lambda>c. forward ch' f (h c)) (ch i)) = concat (map (\<lambda>c. map h (forward ch f c)) (ch i))"
    by (simp cong: map_cong)
  then show ?case using assms(1) [OF Suc.prems] by (simp add: map_concat comp_def)
qed simp

text \<open>The set-up of a call: a group, a valid topology and a filter that leaves some rank.\<close>

definition call_ok :: "crt_grp_view \<Rightarrow> d_rank_list \<Rightarrow> bool \<Rightarrow> d_rank_list option \<Rightarrow> int \<Rightarrow> bool" where
  "call_ok grp m exclusive filter_ranks tree_topo \<longleftrightarrow>
     cgm_linear_list grp = Some m \<and> rl_wf m \<and> distinct (ranks_of m) \<and> CRT_NO_RANK \<notin> set (ranks_of m)
     \<and> 65 * rl_nr m \<le> 2 ^ 32 \<and> crt_tree_topo_valid tree_topo \<and> filter_ok exclusive filter_ranks m"

lemma targets_subset:
  "call_ok grp m exclusive filter_ranks tree_topo \<Longrightarrow> targets exclusive filter_ranks m \<subseteq> set (ranks_of m)"
  by (auto simp: call_ok_def targets_def filter_ok_def split: option.splits)

text \<open>
  The translation of a call into tree positions: a list \<open>l\<close> of the targets and a table \<open>tops\<close> such
  that all calls of the layer are calls of the table on positions in \<open>l\<close>.
\<close>

lemma call_positions:
  assumes ok: "call_ok grp m exclusive filter_ranks tree_topo"
    and ne: "targets exclusive filter_ranks m \<noteq> {}"
  obtains l tops where "rl_wf l" "distinct (ranks_of l)"
    "set (ranks_of l) = targets exclusive filter_ranks m" "65 * rl_nr l \<le> 2 ^ 32" "0 < rl_nr l"
    "crt_tops (crt_tree_type tree_topo) = Some tops"
    "tops_ok (crt_tree_type tree_topo) (of_nat (rl_nr l)) (tree_ratio_of tree_topo)"
    "\<And>i. i < rl_nr l \<Longrightarrow> CRT_TREE_PARAMETER_CHECKING tree_topo (rl_ranks l ! i) (rl_ranks l ! i)"
    "\<And>i j. i < rl_nr l \<Longrightarrow> j < rl_nr l \<Longrightarrow>
       crt_get_filtered_grp_rank_list (\<lambda>_. True) grp (gp_membs_ver grp) exclusive filter_ranks
         (rl_ranks l ! i) (rl_ranks l ! j) =
       Some (Inr (Some (l, of_nat (rl_nr l), of_nat i, of_nat j)))"
proof -
  have m: "rl_wf m" "distinct (ranks_of m)" "filter_ok exclusive filter_ranks m"
    "cgm_linear_list grp = Some m" "65 * rl_nr m \<le> 2 ^ 32" "crt_tree_topo_valid tree_topo"
    "CRT_NO_RANK \<notin> set (ranks_of m)"
    using ok by (simp_all add: call_ok_def)
  obtain l where l: "rl_wf l" "distinct (ranks_of l)"
    "set (ranks_of l) = targets exclusive filter_ranks m" "rl_nr l \<le> rl_nr m" "0 < rl_nr l"
    and fl: "\<And>root self. crt_get_filtered_grp_rank_list (\<lambda>_. True) grp (gp_membs_ver grp) exclusive
        filter_ranks root self =
       (case d_idx_in_rank_list True (Some l) root of
          Inl rc \<Rightarrow> Some (Inl rc)
        | Inr grp_root \<Rightarrow>
            (case d_idx_in_rank_list True (Some l) self of
               Inl rc \<Rightarrow> Some (Inl rc)
             | Inr grp_self \<Rightarrow>
                 Some (Inr (Some (l, of_nat (rl_nr l), of_nat grp_root, of_nat grp_self)))))"
    by (rule filtered_list [OF m(1-3) ne m(4), of "\<lambda>_. True" "gp_membs_ver grp"]) simp_all
  have b: "65 * rl_nr l \<le> 2 ^ 32" using l(4) m(5) by linarith
  obtain tops where tops: "crt_tops (crt_tree_type tree_topo) = Some tops"
    "tops_ok (crt_tree_type tree_topo) (of_nat (rl_nr l)) (tree_ratio_of tree_topo)"
    by (rule valid_tops [OF m(6) l(5) b])
  have nth: "ranks_of l ! i = rl_ranks l ! i" if "i < rl_nr l" for i
    using that by (simp add: ranks_of_def)
  have idx: "d_idx_in_rank_list True (Some l) (rl_ranks l ! i) = Inr i" if "i < rl_nr l" for i
    using idx_in_rank_list_nth [OF l(2), of i] that l(1) nth [OF that] by simp
  have "rl_ranks l ! i \<in> set (ranks_of l)" if "i < rl_nr l" for i
    using that l(1) nth [OF that] by (metis length_ranks_of nth_mem)
  then have "rl_ranks l ! i \<in> set (ranks_of m)" if "i < rl_nr l" for i
    using that l(3) targets_subset [OF ok] by auto
  then have "rl_ranks l ! i \<noteq> CRT_NO_RANK" if "i < rl_nr l" for i
    using that m(7) by metis
  then have chk: "CRT_TREE_PARAMETER_CHECKING tree_topo (rl_ranks l ! i) (rl_ranks l ! i)"
    if "i < rl_nr l" for i
    using that m(6) by (auto simp: CRT_TREE_PARAMETER_CHECKING_def crt_tree_topo_valid_def Let_def)
  show thesis
    by (rule that [OF l(1-3) b l(5) tops chk]) (simp_all add: fl idx)
qed

lemma CHECKING_mix:
  "CRT_TREE_PARAMETER_CHECKING t a a \<Longrightarrow> CRT_TREE_PARAMETER_CHECKING t b b \<Longrightarrow>
    CRT_TREE_PARAMETER_CHECKING t a b"
  by (simp add: CRT_TREE_PARAMETER_CHECKING_def)

lemma forward_to_positions:
  assumes ok: "call_ok grp m exclusive filter_ranks tree_topo"
    and ne: "targets exclusive filter_ranks m \<noteq> {}"
  obtains l tops where "rl_wf l" "distinct (ranks_of l)"
    "set (ranks_of l) = targets exclusive filter_ranks m" "65 * rl_nr l \<le> 2 ^ 32"
    "crt_tops (crt_tree_type tree_topo) = Some tops"
    "tops_ok (crt_tree_type tree_topo) (of_nat (rl_nr l)) (tree_ratio_of tree_topo)"
    "\<And>i j. i < rl_nr l \<Longrightarrow> j < rl_nr l \<Longrightarrow>
       forward_to grp exclusive filter_ranks tree_topo (rl_ranks l ! i) (rl_ranks l ! j) =
       map (\<lambda>c. rl_ranks l ! unat c) (topo_children (to_get_children_cnt tops) (to_get_children tops)
         (of_nat (rl_nr l)) (tree_ratio_of tree_topo) (of_nat i) (of_nat j))"
    "\<And>i j junk. exclusive = False \<Longrightarrow> i < rl_nr l \<Longrightarrow> j < rl_nr l \<Longrightarrow>
       crt_tree_get_parent (\<lambda>_. True) junk grp (gp_membs_ver grp) filter_ranks tree_topo
         (rl_ranks l ! i) (rl_ranks l ! j) True =
       (let read = (\<lambda>rc tree_parent. if unat tree_parent < length (rl_ranks l)
              then Some (rc, Some (rl_ranks l ! unat tree_parent)) else None)
        in case to_get_parent tops (of_nat (rl_nr l)) (tree_ratio_of tree_topo) (of_nat i) (of_nat j) of
             None \<Rightarrow> None | Some (Inl rc) \<Rightarrow> read rc junk | Some (Inr p) \<Rightarrow> read DER_SUCCESS p)"
proof -
  obtain l tops where l: "rl_wf l" "distinct (ranks_of l)"
    "set (ranks_of l) = targets exclusive filter_ranks m" "65 * rl_nr l \<le> 2 ^ 32" "0 < rl_nr l"
    and tops: "crt_tops (crt_tree_type tree_topo) = Some tops"
    "tops_ok (crt_tree_type tree_topo) (of_nat (rl_nr l)) (tree_ratio_of tree_topo)"
    and chk: "\<And>i. i < rl_nr l \<Longrightarrow> CRT_TREE_PARAMETER_CHECKING tree_topo (rl_ranks l ! i) (rl_ranks l ! i)"
    and pos: "\<And>i j. i < rl_nr l \<Longrightarrow> j < rl_nr l \<Longrightarrow>
       crt_get_filtered_grp_rank_list (\<lambda>_. True) grp (gp_membs_ver grp) exclusive filter_ranks
         (rl_ranks l ! i) (rl_ranks l ! j) =
       Some (Inr (Some (l, of_nat (rl_nr l), of_nat i, of_nat j)))"
    by (rule call_positions [OF ok ne]) (rule that; blast)
  have u: "unat (of_nat k :: u32) = k" if "k \<le> rl_nr l" for k
    using that l(4) by (simp add: unat_of_nat)
  note sp = spanning_topo.children_exact [OF tops_spanning [OF tops(1)] tops(2)]
  have "forward_to grp exclusive filter_ranks tree_topo (rl_ranks l ! i) (rl_ranks l ! j) =
      map (\<lambda>c. rl_ranks l ! unat c) (topo_children (to_get_children_cnt tops) (to_get_children tops)
        (of_nat (rl_nr l)) (tree_ratio_of tree_topo) (of_nat i) (of_nat j))"
    if ij: "i < rl_nr l" "j < rl_nr l" for i j
  proof -
    let ?cs = "topo_children (to_get_children_cnt tops) (to_get_children tops)
        (of_nat (rl_nr l)) (tree_ratio_of tree_topo) (of_nat i) (of_nat j)"
    have lt: "(of_nat i :: u32) < of_nat (rl_nr l)" "(of_nat j :: u32) < of_nat (rl_nr l)"
      using ij u by (simp_all add: word_less_nat_alt)
    have "length ?cs \<le> rl_nr l"
      using length_distinct_ranks [OF sp(1) [OF lt], of "of_nat (rl_nr l)"] sp(2) [OF lt] u by auto
    then have "unat (of_nat (length ?cs) :: u32) = length ?cs" "(of_nat (length ?cs) :: u32) = 0 \<longleftrightarrow> ?cs = []"
      using u of_nat_length_0_iff [of ?cs "of_nat (rl_nr l)"] by simp_all
    moreover have "map (\<lambda>i. rl_ranks l ! unat (?cs ! i)) [0..<length ?cs] = map (\<lambda>c. rl_ranks l ! unat c) ?cs"
      by (rule nth_equalityI) simp_all
    ultimately show ?thesis
      using sp(3,4) [OF lt] tops(1) pos [OF ij] CHECKING_mix [OF chk [OF ij(1)] chk [OF ij(2)]]
      by (cases "?cs = []")
        (simp_all add: forward_to_def crt_tree_get_children_def d_rank_list_alloc_def ranks_of_def)
  qed
  then show thesis
    by (rule that [OF l(1-4) tops])
      (use pos tops(1) CHECKING_mix [OF chk chk] in
        \<open>simp_all add: crt_tree_get_parent_def Let_def cong: if_cong option.case_cong sum.case_cong\<close>)
qed

lemma target_position:
  assumes "rl_wf l" "r \<in> set (ranks_of l)" "65 * rl_nr l \<le> 2 ^ 32"
  obtains i where "i < rl_nr l" "rl_ranks l ! i = r" "(of_nat i :: u32) < of_nat (rl_nr l)"
    "unat (of_nat i :: u32) = i"
proof -
  obtain i where i: "i < rl_nr l" "rl_ranks l ! i = r"
    using assms(1,2) by (auto simp: in_set_conv_nth ranks_of_def)
  then have "unat (of_nat i :: u32) = i" "unat (of_nat (rl_nr l) :: u32) = rl_nr l"
    using assms(3) by (simp_all add: unat_of_nat)
  then show thesis using that [OF i] i(1) by (simp add: word_less_nat_alt)
qed

section \<open>Properties\<close>

text \<open>
  Property C1. Take a group whose members are distinct, a valid topology code and a filter list,
  and let every rank that holds the call forward it to the ranks \<open>crt_tree_get_children\<close> returns.
  Started at a target rank, the call reaches exactly the targets (the members without the excluded
  ranks, or the ranks of the exclusive list), and each of them once.
\<close>

theorem tree_broadcast_exact:
  assumes "call_ok grp m exclusive filter_ranks tree_topo" "root \<in> targets exclusive filter_ranks m"
  shows "distinct (forward (forward_to grp exclusive filter_ranks tree_topo root)
        (card (targets exclusive filter_ranks m)) root)
    \<and> set (forward (forward_to grp exclusive filter_ranks tree_topo root)
        (card (targets exclusive filter_ranks m)) root) = targets exclusive filter_ranks m"
proof -
  have ne: "targets exclusive filter_ranks m \<noteq> {}" using assms(2) by blast
  obtain l tops where l: "rl_wf l" "distinct (ranks_of l)"
    "set (ranks_of l) = targets exclusive filter_ranks m" "65 * rl_nr l \<le> 2 ^ 32"
    and tops: "crt_tops (crt_tree_type tree_topo) = Some tops"
    "tops_ok (crt_tree_type tree_topo) (of_nat (rl_nr l)) (tree_ratio_of tree_topo)"
    and pos: "\<And>i j. i < rl_nr l \<Longrightarrow> j < rl_nr l \<Longrightarrow>
       forward_to grp exclusive filter_ranks tree_topo (rl_ranks l ! i) (rl_ranks l ! j) =
       map (\<lambda>c. rl_ranks l ! unat c) (topo_children (to_get_children_cnt tops) (to_get_children tops)
         (of_nat (rl_nr l)) (tree_ratio_of tree_topo) (of_nat i) (of_nat j))"
    by (rule forward_to_positions [OF assms(1) ne]) (rule that; blast)
  let ?n = "of_nat (rl_nr l) :: u32"
  let ?h = "\<lambda>c :: u32. rl_ranks l ! unat c"
  have n: "unat ?n = rl_nr l" using l(4) by (simp add: unat_of_nat)
  have card: "card (targets exclusive filter_ranks m) = rl_nr l"
    using l(1-3) distinct_card [of "ranks_of l"] by simp
  obtain r where r: "r < rl_nr l" "rl_ranks l ! r = root" "(of_nat r :: u32) < ?n" "unat (of_nat r :: u32) = r"
    using target_position [OF l(1) _ l(4)] assms(2) l(3) by metis
  let ?ch = "topo_children (to_get_children_cnt tops) (to_get_children tops) ?n (tree_ratio_of tree_topo) (of_nat r)"
  note sp = spanning_topo.forward_covers [OF tops_spanning [OF tops(1)] tops(2) r(3)]
    spanning_topo.children_exact [OF tops_spanning [OF tops(1)] tops(2) r(3)]
  have "forward (forward_to grp exclusive filter_ranks tree_topo root) (rl_nr l) (?h (of_nat r))
      = map ?h (forward ?ch (rl_nr l) (of_nat r))"
  proof (rule forward_map [where V = "{y. y < ?n}" and h = ?h and i = "of_nat r" and ch = ?ch])
    fix i :: u32
    assume "i \<in> {y. y < ?n}"
    then have i: "i < ?n" "unat i < rl_nr l" using n by (simp_all add: word_less_nat_alt)
    show "forward_to grp exclusive filter_ranks tree_topo root (?h i) = map ?h (?ch i)"
      using pos [OF r(1) i(2)] r(2) by simp
    show "set (?ch i) \<subseteq> {y. y < ?n}" using sp(4) [OF i(1)] by auto
  qed (use r in simp)
  then have eq: "forward (forward_to grp exclusive filter_ranks tree_topo root) (rl_nr l) root
      = map ?h (forward ?ch (rl_nr l) (of_nat r))" using r by simp
  have cov: "distinct (forward ?ch (rl_nr l) (of_nat r))" "set (forward ?ch (rl_nr l) (of_nat r)) = {y. y < ?n}"
    using sp(1,2) by (simp_all add: n)
  have hnth: "?h y = ranks_of l ! unat y" "unat y < length (ranks_of l)" if "y < ?n" for y
    using that n l(1) by (simp_all add: ranks_of_def word_less_nat_alt rl_wf_def)
  have "inj_on ?h {y. y < ?n}"
    using hnth l(2) by (auto simp: inj_on_def nth_eq_iff_index_eq intro: word_unat_eq_iff [THEN iffD2])
  moreover have "?h ` {y. y < ?n} = set (ranks_of l)"
  proof
    show "?h ` {y. y < ?n} \<subseteq> set (ranks_of l)" using hnth by (auto simp: nth_mem)
    show "set (ranks_of l) \<subseteq> ?h ` {y. y < ?n}"
    proof
      fix x
      assume "x \<in> set (ranks_of l)"
      then obtain i where "rl_ranks l ! i = x" "(of_nat i :: u32) < ?n" "unat (of_nat i :: u32) = i"
        using target_position [OF l(1) _ l(4)] by metis
      then show "x \<in> ?h ` {y. y < ?n}" by (intro image_eqI [of _ _ "of_nat i"]) simp_all
    qed
  qed
  ultimately show ?thesis unfolding card eq using cov l(3) by (simp add: distinct_map)
qed

theorem tree_broadcast_exact_witness:
  "set (forward (forward_to \<lparr>cgm_linear_list = Some \<lparr>rl_ranks = [4, 2, 9], rl_nr = 3\<rparr>, gp_membs_ver = 1\<rparr>
      False (Some \<lparr>rl_ranks = [2], rl_nr = 1\<rparr>) 131074 9) 2 9) = {4, 9}"
proof -
  let ?m = "\<lparr>rl_ranks = [4, 2, 9], rl_nr = 3\<rparr>" and ?f = "\<lparr>rl_ranks = [2], rl_nr = 1\<rparr>"
  have "crt_tree_type 131074 = 2" "crt_tree_ratio 131074 = 2"
    by (simp_all add: crt_tree_type_def crt_tree_ratio_def)
  then have ok: "call_ok \<lparr>cgm_linear_list = Some ?m, gp_membs_ver = 1\<rparr> ?m False (Some ?f) 131074"
    by (simp add: call_ok_def rl_wf_def ranks_of_def CRT_NO_RANK_def crt_tree_topo_valid_def tree_consts
        filter_ok_def)
  have t: "targets False (Some ?f) ?m = {4, 9}" by (auto simp: targets_def ranks_of_def)
  then have mem: "9 \<in> targets False (Some ?f) ?m" by simp
  have c: "card {4, 9 :: u32} = 2" by simp
  show ?thesis using tree_broadcast_exact [OF ok mem, unfolded t c] by blast
qed

text \<open>
  Property C34. With no exclusive list, the parent \<open>crt_tree_get_parent\<close> returns for a target other
  than the root is a target, and the rank is among the children \<open>crt_tree_get_children\<close> returns for
  that parent. For the root the function fails with \<open>DER_INVAL\<close>, or aborts, depending on the value
  of the unassigned local variable.
\<close>

theorem tree_parent_child:
  assumes "call_ok grp m False filter_ranks tree_topo"
    and "root \<in> targets False filter_ranks m" "self \<in> targets False filter_ranks m"
  shows "if self = root
    then (\<forall>junk. case crt_tree_get_parent (\<lambda>_. True) junk grp (gp_membs_ver grp) filter_ranks tree_topo
            root self True of None \<Rightarrow> card (targets False filter_ranks m) \<le> unat junk
          | Some (rc, _) \<Rightarrow> rc = DER_INVAL)
    else (\<exists>p \<in> targets False filter_ranks m. \<forall>junk.
        crt_tree_get_parent (\<lambda>_. True) junk grp (gp_membs_ver grp) filter_ranks tree_topo root self True
          = Some (DER_SUCCESS, Some p)
        \<and> self \<in> set (forward_to grp False filter_ranks tree_topo root p))"
proof -
  have ne: "targets False filter_ranks m \<noteq> {}" using assms(2) by blast
  obtain l tops where l: "rl_wf l" "distinct (ranks_of l)"
    "set (ranks_of l) = targets False filter_ranks m" "65 * rl_nr l \<le> 2 ^ 32"
    and tops: "crt_tops (crt_tree_type tree_topo) = Some tops"
    "tops_ok (crt_tree_type tree_topo) (of_nat (rl_nr l)) (tree_ratio_of tree_topo)"
    and pos: "\<And>i j. i < rl_nr l \<Longrightarrow> j < rl_nr l \<Longrightarrow>
       forward_to grp False filter_ranks tree_topo (rl_ranks l ! i) (rl_ranks l ! j) =
       map (\<lambda>c. rl_ranks l ! unat c) (topo_children (to_get_children_cnt tops) (to_get_children tops)
         (of_nat (rl_nr l)) (tree_ratio_of tree_topo) (of_nat i) (of_nat j))"
    and par: "\<And>i j junk. False = False \<Longrightarrow> i < rl_nr l \<Longrightarrow> j < rl_nr l \<Longrightarrow>
       crt_tree_get_parent (\<lambda>_. True) junk grp (gp_membs_ver grp) filter_ranks tree_topo
         (rl_ranks l ! i) (rl_ranks l ! j) True =
       (let read = (\<lambda>rc tree_parent. if unat tree_parent < length (rl_ranks l)
              then Some (rc, Some (rl_ranks l ! unat tree_parent)) else None)
        in case to_get_parent tops (of_nat (rl_nr l)) (tree_ratio_of tree_topo) (of_nat i) (of_nat j) of
             None \<Rightarrow> None | Some (Inl rc) \<Rightarrow> read rc junk | Some (Inr p) \<Rightarrow> read DER_SUCCESS p)"
    by (rule forward_to_positions [OF assms(1) ne]) (rule that; blast)
  have card: "card (targets False filter_ranks m) = rl_nr l"
    using l(1-3) distinct_card [of "ranks_of l"] by simp
  let ?n = "of_nat (rl_nr l) :: u32"
  have n: "unat ?n = rl_nr l" using l(4) by (simp add: unat_of_nat)
  obtain r where r: "r < rl_nr l" "rl_ranks l ! r = root" "(of_nat r :: u32) < ?n" "unat (of_nat r :: u32) = r"
    using target_position [OF l(1) _ l(4)] assms(2) l(3) by metis
  obtain s where s: "s < rl_nr l" "rl_ranks l ! s = self" "(of_nat s :: u32) < ?n" "unat (of_nat s :: u32) = s"
    using target_position [OF l(1) _ l(4)] assms(3) l(3) by metis
  have "ranks_of l ! r = root" "ranks_of l ! s = self" using r s by (simp_all add: ranks_of_def)
  then have rs: "self = root \<longleftrightarrow> s = r"
    using nth_eq_iff_index_eq [OF l(2), of s r] l(1) r(1) s(1) by simp
  note sp = tops_spanning [OF tops(1)]
  have wf: "rl_nr l \<le> length (rl_ranks l)" using l(1) by (simp add: rl_wf_def)
  show ?thesis
  proof (cases "s = r")
    case True
    have "crt_tree_get_parent (\<lambda>_. True) junk grp (gp_membs_ver grp) filter_ranks tree_topo root self True
        = (if unat junk < length (rl_ranks l) then Some (DER_INVAL, Some (rl_ranks l ! unat junk)) else None)" for junk
      using par [OF refl r(1) s(1), of junk] spanning_topo.parent_root [OF sp tops(2) r(3)] True r(2) s(2)
      by (simp add: Let_def)
    then show ?thesis using True rs wf by (auto simp: card)
  next
    case False
    then have ne: "(of_nat s :: u32) \<noteq> of_nat r" using r(4) s(4) by metis
    obtain p where p: "p < ?n" "to_get_parent tops ?n (tree_ratio_of tree_topo) (of_nat r) (of_nat s) = Some (Inr p)"
      using spanning_topo.parent_spec [OF sp tops(2) r(3) s(3) ne] by blast
    then have pl: "unat p < rl_nr l" using n by (simp add: word_less_nat_alt)
    let ?p = "rl_ranks l ! unat p"
    have "crt_tree_get_parent (\<lambda>_. True) junk grp (gp_membs_ver grp) filter_ranks tree_topo root self True
        = Some (DER_SUCCESS, Some ?p)" for junk
      using par [OF refl r(1) s(1), of junk] p(2) pl wf r(2) s(2) by (simp add: Let_def)
    moreover have "?p \<in> targets False filter_ranks m"
      using pl l(1,3) by (metis length_ranks_of nth_mem nth_take ranks_of_def)
    moreover have "of_nat s \<in> set (topo_children (to_get_children_cnt tops) (to_get_children tops) ?n
        (tree_ratio_of tree_topo) (of_nat r) p)"
      using spanning_topo.children_exact(2) [OF sp tops(2) r(3) p(1)] p(2) s(3) ne by simp
    then have "rl_ranks l ! unat (of_nat s :: u32) \<in> set (forward_to grp False filter_ranks tree_topo root ?p)"
      using pos [OF r(1) pl] r(2) by simp
    then have "self \<in> set (forward_to grp False filter_ranks tree_topo root ?p)" by (simp only: s(2,4))
    ultimately show ?thesis using False rs by auto
  qed
qed

theorem tree_parent_child_witness:
  "\<exists>p \<in> {4, 9}. \<forall>junk. crt_tree_get_parent (\<lambda>_. True) junk
      \<lparr>cgm_linear_list = Some \<lparr>rl_ranks = [4, 2, 9], rl_nr = 3\<rparr>, gp_membs_ver = 1\<rparr> 1
      (Some \<lparr>rl_ranks = [2], rl_nr = 1\<rparr>) 196610 9 4 True = Some (DER_SUCCESS, Some p)"
proof -
  let ?m = "\<lparr>rl_ranks = [4, 2, 9], rl_nr = 3\<rparr>" and ?f = "\<lparr>rl_ranks = [2], rl_nr = 1\<rparr>"
  let ?g = "\<lparr>cgm_linear_list = Some ?m, gp_membs_ver = 1\<rparr>"
  have "crt_tree_type 196610 = 3" "crt_tree_ratio 196610 = 2"
    by (simp_all add: crt_tree_type_def crt_tree_ratio_def)
  then have ok: "call_ok ?g ?m False (Some ?f) 196610"
    by (simp add: call_ok_def rl_wf_def ranks_of_def CRT_NO_RANK_def crt_tree_topo_valid_def tree_consts
        filter_ok_def)
  have t: "targets False (Some ?f) ?m = {4, 9}" by (auto simp: targets_def ranks_of_def)
  have mem: "9 \<in> targets False (Some ?f) ?m" "4 \<in> targets False (Some ?f) ?m" and ne: "4 \<noteq> (9 :: u32)"
    unfolding t by simp_all
  have v: "gp_membs_ver ?g = 1" by simp
  show ?thesis using tree_parent_child [OF ok mem, unfolded t v if_not_P [OF ne]] by blast
qed

text \<open>
  Property C35. The error branches of the layer, in the order the code takes them: a stale group
  version fails with \<open>DER_GRPVER\<close> before anything else is looked at; an exclusive list with a rank
  that is not a member fails with \<open>DER_OOG\<close>; a filter that excludes every member gives an empty
  result from \<open>crt_tree_get_children\<close> and \<open>DER_INVAL\<close> from \<open>crt_tree_get_nchildren\<close>; a root that is
  no target fails with \<open>DER_NONEXIST\<close>.
\<close>

theorem tree_call_errors:
  assumes "rl_wf m" "distinct (ranks_of m)" "rl_wf f" "0 < rl_nr f"
    and "cgm_linear_list grp = Some m" "CRT_TREE_PARAMETER_CHECKING topo root self"
  shows "(ver \<noteq> gp_membs_ver grp \<longrightarrow>
      crt_tree_get_children alloc grp ver exclusive flt topo0 root0 self0 ok True = Some (Some False, Inl DER_GRPVER))
    \<and> (\<not> set (ranks_of f) \<subseteq> set (ranks_of m) \<longrightarrow>
      crt_tree_get_children (\<lambda>_. True) grp (gp_membs_ver grp) True (Some f) topo root self True True
        = Some (Some True, Inl DER_OOG))
    \<and> (set (ranks_of m) \<subseteq> set (ranks_of f) \<longrightarrow>
      crt_tree_get_children (\<lambda>_. True) grp (gp_membs_ver grp) False (Some f) topo root self True True
        = Some (Some True, Inr None)
      \<and> crt_tree_get_nchildren (\<lambda>_. True) grp (gp_membs_ver grp) (Some f) topo root self True
        = Some (Inl DER_INVAL))
    \<and> (\<not> set (ranks_of m) \<subseteq> set (ranks_of f) \<and> root \<notin> set (ranks_of m) - set (ranks_of f) \<longrightarrow>
      crt_tree_get_children (\<lambda>_. True) grp (gp_membs_ver grp) False (Some f) topo root self True True
        = Some (Some True, Inl DER_NONEXIST))"
proof -
  have fne: "rl_ranks f \<noteq> []" using assms(3,4) by (auto simp: rl_wf_def)
  obtain d where d: "d_rank_list_dup_sort_uniq True True True (Some m) = Inr (Some d)" "rl_wf d"
    "distinct (ranks_of d)" "set (ranks_of d) = set (ranks_of m)" "rl_nr d = rl_nr m"
    by (rule dup_sort_uniq_distinct [OF assms(1,2)])
  obtain x where x: "d_rank_list_filter (Some f) (Some d) True = Some x" "rl_wf x"
    "ranks_of x = filter (\<lambda>r. r \<in> set (ranks_of f) \<longleftrightarrow> \<not> True) (ranks_of d)"
    by (rule filter_eq [OF assms(3) d(2) fne])
  obtain e where e: "d_rank_list_filter (Some f) (Some d) False = Some e" "rl_wf e"
    "ranks_of e = filter (\<lambda>r. r \<in> set (ranks_of f) \<longleftrightarrow> \<not> False) (ranks_of d)"
    by (rule filter_eq [OF assms(3) d(2) fne])
  have oog: "rl_nr e \<noteq> rl_nr f" if "\<not> set (ranks_of f) \<subseteq> set (ranks_of m)"
  proof -
    have "distinct (ranks_of e)" using e(3) d(3) by simp
    then have "length (ranks_of e) = card (set (ranks_of e))" by (rule distinct_card [symmetric])
    also have "set (ranks_of e) \<subset> set (ranks_of f)" using that e(3) d(4) by auto
    then have "card (set (ranks_of e)) < card (set (ranks_of f))" by (simp add: psubset_card_mono)
    also have "\<dots> \<le> length (ranks_of f)" by (rule card_length)
    finally show ?thesis using e(2) assms(3) by simp
  qed
  have empty: "rl_nr x = 0 \<longleftrightarrow> set (ranks_of m) \<subseteq> set (ranks_of f)"
  proof -
    have "rl_nr x = 0 \<longleftrightarrow> ranks_of x = []" using x(2) by (metis length_0_conv length_ranks_of)
    also have "\<dots> \<longleftrightarrow> set (ranks_of m) \<subseteq> set (ranks_of f)"
      using x(3) d(4) by (auto simp: filter_empty_conv)
    finally show ?thesis .
  qed
  have nonexist: "d_idx_in_rank_list True (Some x) root = Inl DER_NONEXIST"
    if "root \<notin> set (ranks_of m) - set (ranks_of f)"
    using that x(3) d(4) by (intro idx_in_rank_list_notin) auto
  show ?thesis
    using assms(4-6) d(1) e(1) x(1) oog empty nonexist
    by (auto simp: crt_tree_get_children_def crt_tree_get_nchildren_def crt_get_filtered_grp_rank_list_def
        grp_priv_get_membs_def)
qed

theorem tree_call_errors_witness:
  "crt_tree_get_children (\<lambda>_. True)
      \<lparr>cgm_linear_list = Some \<lparr>rl_ranks = [4, 2, 9], rl_nr = 3\<rparr>, gp_membs_ver = 1\<rparr> 1 True
      (Some \<lparr>rl_ranks = [2, 7], rl_nr = 2\<rparr>) 196610 9 4 True True = Some (Some True, Inl DER_OOG)"
proof -
  let ?m = "\<lparr>rl_ranks = [4, 2, 9], rl_nr = 3\<rparr>" and ?f = "\<lparr>rl_ranks = [2, 7], rl_nr = 2\<rparr>"
  have p: "CRT_TREE_PARAMETER_CHECKING 196610 9 4"
    by (simp add: CRT_TREE_PARAMETER_CHECKING_def crt_tree_topo_valid_def crt_tree_type_def
        crt_tree_ratio_def tree_consts CRT_NO_RANK_def)
  show ?thesis
    using tree_call_errors [of ?m ?f "\<lparr>cgm_linear_list = Some ?m, gp_membs_ver = 1\<rparr>" 196610 9 4] p
    by (simp add: rl_wf_def ranks_of_def)
qed

end
