(* ===== verification/Bin_Heap.thy ===== *)
theory Bin_Heap
  imports Crt_Prelude
begin

text \<open>
  The binary heap of gurt (\<^verbatim>\<open>src/gurt/heap.c\<close>). The array of node pointers is reached through one,
  two or three levels of indirection and grows by chunks of 512 entries; every node stores its own
  position. The theory models the tables, the growth, the two loops that move a node and the public
  operations, proves that the tables implement an array (\<open>hget\<close>, \<open>hput\<close>), that the loops refine
  loops on that array, and that the operations implement a priority queue. No assertion of the
  source fails on a well-formed heap.

  A result \<open>None\<close> is an abort: a failed \<open>D_ASSERT\<close>, a dereference of \<open>NULL\<close> or an access outside an
  array. The locks are left out: every operation runs under the lock of the heap or of its owner.
\<close>

section \<open>Data\<close>

definition DBH_SHIFT :: nat where "DBH_SHIFT = 9"
definition DBH_SIZE :: nat where "DBH_SIZE = push_bit DBH_SHIFT 1"
definition DBH_MASK :: nat where "DBH_MASK = DBH_SIZE - 1"
definition DBH_POISON :: nat where "DBH_POISON = 0xdeadbeef"

text \<open>
  \<open>[]\<close> is a \<open>NULL\<close> table and \<open>None\<close> a \<open>NULL\<close> node pointer. \<open>chn_idx\<close> is the field of that name of
  every node.
\<close>

record 'n d_binheap =
  d_bh_nodes3 :: "'n option list list list"
  d_bh_nodes2 :: "'n option list list"
  d_bh_nodes1 :: "'n option list"
  d_bh_nodes_cnt :: nat
  d_bh_hwm :: nat
  chn_idx :: "'n \<Rightarrow> nat"

text \<open>
  The table of operations. The callbacks take no part in the heap: in the only table of the sources
  (\<open>crt_timeout_bh_ops\<close>) they write a log line and return \<open>0\<close>; what remains is the code returned by
  \<open>hop_enter\<close>, on which an insertion can fail.
\<close>

record 'n d_binheap_ops =
  hop_enter :: "('n \<Rightarrow> rc) option"
  hop_exit :: "('n \<Rightarrow> rc) option"
  hop_compare :: "('n \<Rightarrow> 'n \<Rightarrow> bool) option"

section \<open>Entries of the tables\<close>

datatype slot = Slot1 nat | Slot2 nat nat | Slot3 nat nat nat

definition d_binheap_pointer :: "nat \<Rightarrow> slot" where
  "d_binheap_pointer idx =
     (if idx < DBH_SIZE then Slot1 idx
      else
        (let idx = idx - DBH_SIZE in
         if idx < DBH_SIZE * DBH_SIZE then Slot2 (drop_bit DBH_SHIFT idx) (idx AND DBH_MASK)
         else
           (let idx = idx - DBH_SIZE * DBH_SIZE in
            Slot3 (drop_bit (2 * DBH_SHIFT) idx) (drop_bit DBH_SHIFT idx AND DBH_MASK)
              (idx AND DBH_MASK))))"

fun read_slot :: "'n d_binheap \<Rightarrow> slot \<Rightarrow> 'n option option" where
  "read_slot h (Slot1 i) =
     (if i < length (d_bh_nodes1 h) then Some (d_bh_nodes1 h ! i) else None)"
| "read_slot h (Slot2 i j) =
     (if i < length (d_bh_nodes2 h) \<and> j < length (d_bh_nodes2 h ! i)
      then Some (d_bh_nodes2 h ! i ! j) else None)"
| "read_slot h (Slot3 i j k) =
     (if i < length (d_bh_nodes3 h) \<and> j < length (d_bh_nodes3 h ! i)
         \<and> k < length (d_bh_nodes3 h ! i ! j)
      then Some (d_bh_nodes3 h ! i ! j ! k) else None)"

fun write_slot :: "'n d_binheap \<Rightarrow> slot \<Rightarrow> 'n option \<Rightarrow> 'n d_binheap option" where
  "write_slot h (Slot1 i) v =
     (if i < length (d_bh_nodes1 h)
      then Some (h\<lparr>d_bh_nodes1 := (d_bh_nodes1 h)[i := v]\<rparr>) else None)"
| "write_slot h (Slot2 i j) v =
     (if i < length (d_bh_nodes2 h) \<and> j < length (d_bh_nodes2 h ! i)
      then Some (h\<lparr>d_bh_nodes2 := (d_bh_nodes2 h)[i := (d_bh_nodes2 h ! i)[j := v]]\<rparr>) else None)"
| "write_slot h (Slot3 i j k) v =
     (if i < length (d_bh_nodes3 h) \<and> j < length (d_bh_nodes3 h ! i)
         \<and> k < length (d_bh_nodes3 h ! i ! j)
      then Some (h\<lparr>d_bh_nodes3 :=
             (d_bh_nodes3 h)[i := (d_bh_nodes3 h ! i)[j := (d_bh_nodes3 h ! i ! j)[k := v]]]\<rparr>)
      else None)"

section \<open>Growth, creation and destruction\<close>

text \<open>
  The Booleans tell whether the allocations succeed: \<open>alloc1\<close> that of the chunk, \<open>alloc2\<close> that of a
  second-level table, \<open>alloc3\<close> that of the third-level table. Allocated memory is zeroed.
\<close>

definition d_binheap_grow ::
  "bool \<Rightarrow> bool \<Rightarrow> bool \<Rightarrow> 'n d_binheap \<Rightarrow> (rc \<times> 'n d_binheap) option" where
  "d_binheap_grow alloc1 alloc2 alloc3 h =
     (let hwm = d_bh_hwm h;
          chunk = replicate DBH_SIZE None;
          out = (\<lambda>h. Some (DER_SUCCESS, h\<lparr>d_bh_hwm := d_bh_hwm h + DBH_SIZE\<rparr>))
      in
      if d_bh_hwm h AND DBH_MASK \<noteq> 0 then None
      else if hwm = 0 then
        (if alloc1 then out (h\<lparr>d_bh_nodes1 := chunk\<rparr>)
         else Some (DER_NOMEM, h\<lparr>d_bh_nodes1 := []\<rparr>))
      else
        (let hwm = hwm - DBH_SIZE in
         if hwm < DBH_SIZE * DBH_SIZE then
           (if \<not> alloc1 then Some (DER_NOMEM, h)
            else if hwm = 0 \<and> \<not> alloc2 then Some (DER_NOMEM, h\<lparr>d_bh_nodes2 := []\<rparr>)
            else
              (let nodes2 = (if hwm = 0 then replicate DBH_SIZE [] else d_bh_nodes2 h);
                   i = drop_bit DBH_SHIFT hwm
               in if i < length nodes2 then out (h\<lparr>d_bh_nodes2 := nodes2[i := chunk]\<rparr>) else None))
         else
           (let hwm = hwm - DBH_SIZE * DBH_SIZE;
                i = drop_bit (2 * DBH_SHIFT) hwm;
                j = drop_bit DBH_SHIFT hwm AND DBH_MASK
            in
            if hwm \<ge> DBH_SIZE * DBH_SIZE * DBH_SIZE then Some (DER_NOMEM, h)
            else if \<not> alloc1 then Some (DER_NOMEM, h)
            else if j = 0 \<and> \<not> alloc2 then Some (DER_NOMEM, h)
            else if hwm = 0 \<and> \<not> alloc3 then Some (DER_NOMEM, h\<lparr>d_bh_nodes3 := []\<rparr>)
            else
              (let nodes3 = (if hwm = 0 then replicate DBH_SIZE [] else d_bh_nodes3 h) in
               if i \<ge> length nodes3 then None
               else if j = 0 then
                 (if nodes3 ! i \<noteq> [] then None
                  else out (h\<lparr>d_bh_nodes3 := nodes3[i := (replicate DBH_SIZE [])[j := chunk]]\<rparr>))
               else
                 (if nodes3 ! i = [] then None
                  else out (h\<lparr>d_bh_nodes3 := nodes3[i := (nodes3 ! i)[j := chunk]]\<rparr>))))))"

text \<open>
  The freed tables in the order of the calls of \<open>D_FREE\<close>. \<open>n\<close> counts the entries that remain.
\<close>

datatype block = Nodes1 | Chunk2 nat | Nodes2 | Chunk3 nat nat | Table3 nat | Nodes3

function free2_loop :: "'n d_binheap \<Rightarrow> nat \<Rightarrow> nat \<Rightarrow> (nat \<times> block list) option" where
  "free2_loop h idx0 n =
     (if idx0 < DBH_SIZE \<and> n > 0 then
        (if idx0 < length (d_bh_nodes2 h) \<and> d_bh_nodes2 h ! idx0 \<noteq> [] \<and> n \<ge> DBH_SIZE then
           map_option (\<lambda>(n, bs). (n, Chunk2 idx0 # bs)) (free2_loop h (Suc idx0) (n - DBH_SIZE))
         else None)
      else Some (n, []))"
  by pat_completeness auto
termination
  by (relation "measure (\<lambda>(h, i, n). DBH_SIZE - i)") auto

function free3_inner :: "'n d_binheap \<Rightarrow> nat \<Rightarrow> nat \<Rightarrow> nat \<Rightarrow> (nat \<times> block list) option" where
  "free3_inner h idx0 idx1 n =
     (if idx1 < DBH_SIZE \<and> n > 0 then
        (if idx1 < length (d_bh_nodes3 h ! idx0) \<and> d_bh_nodes3 h ! idx0 ! idx1 \<noteq> [] \<and> n \<ge> DBH_SIZE then
           map_option (\<lambda>(n, bs). (n, Chunk3 idx0 idx1 # bs))
             (free3_inner h idx0 (Suc idx1) (n - DBH_SIZE))
         else None)
      else Some (n, []))"
  by pat_completeness auto
termination
  by (relation "measure (\<lambda>(h, i, j, n). DBH_SIZE - j)") auto

function free3_loop :: "'n d_binheap \<Rightarrow> nat \<Rightarrow> nat \<Rightarrow> (nat \<times> block list) option" where
  "free3_loop h idx0 n =
     (if idx0 < DBH_SIZE \<and> n > 0 then
        (if idx0 < length (d_bh_nodes3 h) then
           (case free3_inner h idx0 0 n of
              None \<Rightarrow> None
            | Some (n, bs) \<Rightarrow>
                map_option (\<lambda>(n, bs'). (n, bs @ Table3 idx0 # bs')) (free3_loop h (Suc idx0) n))
         else None)
      else Some (n, []))"
  by pat_completeness auto
termination
  by (relation "measure (\<lambda>(h, i, n). DBH_SIZE - i)") auto

declare free2_loop.simps [simp del] free3_inner.simps [simp del] free3_loop.simps [simp del]

text \<open>
  A chunk is freed once: freeing a table entry that is not there, or an entry cnt that is not a
  multiple of the chunk size (the C subtraction would wrap around), counts as an abort.
\<close>

definition d_binheap_destroy_inplace :: "'n d_binheap \<Rightarrow> (block list \<times> 'n d_binheap) option" where
  "d_binheap_destroy_inplace h =
     (let n = d_bh_hwm h;
          zero = h\<lparr>d_bh_nodes3 := [], d_bh_nodes2 := [], d_bh_nodes1 := [], d_bh_nodes_cnt := 0, d_bh_hwm := 0\<rparr>;
          (n, bs1) = (if n > 0 then (n - DBH_SIZE, [Nodes1]) else (n, []))
      in
      case (if n > 0 then map_option (\<lambda>(n, bs). (n, bs @ [Nodes2])) (free2_loop h 0 n) else Some (n, [])) of
        None \<Rightarrow> None
      | Some (n, bs2) \<Rightarrow>
          (case (if n > 0 then map_option (\<lambda>(n, bs). (n, bs @ [Nodes3])) (free3_loop h 0 n) else Some (n, [])) of
             None \<Rightarrow> None
           | Some (n, bs3) \<Rightarrow> Some (bs1 @ bs2 @ bs3, zero)))"

text \<open>The preallocation loop; \<open>alloc k\<close> tells how the allocations of its \<open>k\<close>-th round end.\<close>

function create_loop ::
  "(nat \<Rightarrow> bool \<times> bool \<times> bool) \<Rightarrow> nat \<Rightarrow> nat \<Rightarrow> 'n d_binheap \<Rightarrow> (rc \<times> 'n d_binheap) option" where
  "create_loop alloc k cnt h =
     (if d_bh_hwm h < cnt then
        (case alloc k of (a1, a2, a3) \<Rightarrow>
           (case d_binheap_grow a1 a2 a3 h of
              None \<Rightarrow> None
            | Some (rc, h') \<Rightarrow>
                if rc \<noteq> DER_SUCCESS then
                  map_option (\<lambda>(bs, h''). (rc, h'')) (d_binheap_destroy_inplace h')
                else create_loop alloc (Suc k) cnt h'))
      else Some (DER_SUCCESS, h))"
  by pat_completeness auto
termination
proof (relation "measure (\<lambda>(alloc, k, cnt, h). cnt - d_bh_hwm h)", goal_cases)
  case (2 alloc k cnt h x1 y xa ya x2 x1' y')
  then have "d_bh_hwm y' = d_bh_hwm h + DBH_SIZE"
    by (auto simp: d_binheap_grow_def Let_def split: if_splits)
  then show ?case using 2 by (simp add: DBH_SIZE_def DBH_SHIFT_def)
qed simp

declare create_loop.simps [simp del]

definition d_binheap_create_inplace ::
  "(nat \<Rightarrow> bool \<times> bool \<times> bool) \<Rightarrow> rc \<Rightarrow> nat \<Rightarrow> 'n d_binheap_ops option \<Rightarrow> 'n d_binheap option \<Rightarrow>
     (rc \<times> 'n d_binheap option) option" where
  "d_binheap_create_inplace alloc lock_rc cnt ops hp =
     (case ops of
        None \<Rightarrow> Some (DER_INVAL, hp)
      | Some tab \<Rightarrow>
          if hop_compare tab = None then Some (DER_INVAL, hp)
          else (case hp of
            None \<Rightarrow> Some (DER_INVAL, None)
          | Some h \<Rightarrow>
              (case create_loop alloc 0 cnt (h\<lparr>d_bh_nodes_cnt := 0, d_bh_hwm := 0\<rparr>) of
                 None \<Rightarrow> None
               | Some (rc, h') \<Rightarrow>
                   if rc \<noteq> DER_SUCCESS then Some (rc, Some h')
                   else if lock_rc \<noteq> DER_SUCCESS then
                     map_option (\<lambda>(bs, h''). (lock_rc, Some h'')) (d_binheap_destroy_inplace h')
                   else Some (DER_SUCCESS, Some h'))))"

definition d_binheap_create ::
  "bool \<Rightarrow> (nat \<Rightarrow> bool \<times> bool \<times> bool) \<Rightarrow> rc \<Rightarrow> nat \<Rightarrow> 'n d_binheap_ops option \<Rightarrow> ('n \<Rightarrow> nat) \<Rightarrow> bool \<Rightarrow>
     (rc \<times> 'n d_binheap option) option" where
  "d_binheap_create alloc_h alloc lock_rc cnt ops idx h_ok =
     (case ops of
        None \<Rightarrow> Some (DER_INVAL, None)
      | Some tab \<Rightarrow>
          if hop_compare tab = None then Some (DER_INVAL, None)
          else if \<not> h_ok then Some (DER_INVAL, None)
          else if \<not> alloc_h then Some (DER_NOMEM, None)
          else (case d_binheap_create_inplace alloc lock_rc cnt ops
                       (Some \<lparr>d_bh_nodes3 = [], d_bh_nodes2 = [], d_bh_nodes1 = [],
                              d_bh_nodes_cnt = 0, d_bh_hwm = 0, chn_idx = idx\<rparr>) of
                  None \<Rightarrow> None
                | Some (rc, hp) \<Rightarrow> if rc \<noteq> DER_SUCCESS then Some (rc, None) else Some (rc, hp)))"

definition d_binheap_destroy :: "'n d_binheap option \<Rightarrow> block list option" where
  "d_binheap_destroy hp =
     (case hp of None \<Rightarrow> Some [] | Some h \<Rightarrow> map_option fst (d_binheap_destroy_inplace h))"

section \<open>Lookup\<close>

text \<open>The outer option is the abort, the inner one the returned pointer.\<close>

definition d_binheap_find_locked :: "'n d_binheap option \<Rightarrow> nat \<Rightarrow> 'n option option" where
  "d_binheap_find_locked hp idx =
     (case hp of
        None \<Rightarrow> Some None
      | Some h \<Rightarrow>
          if idx \<ge> d_bh_nodes_cnt h then Some None else read_slot h (d_binheap_pointer idx))"

definition d_binheap_find :: "'n d_binheap option \<Rightarrow> nat \<Rightarrow> 'n option option" where
  "d_binheap_find hp idx = d_binheap_find_locked hp idx"

definition d_binheap_root :: "'n d_binheap option \<Rightarrow> 'n option option" where
  "d_binheap_root hp = d_binheap_find hp 0"

definition d_binheap_size :: "'n d_binheap option \<Rightarrow> rc + nat" where
  "d_binheap_size hp = (case hp of None \<Rightarrow> Inl DER_INVAL | Some h \<Rightarrow> Inr (d_bh_nodes_cnt h))"

definition d_binheap_is_empty :: "'n d_binheap option \<Rightarrow> bool" where
  "d_binheap_is_empty hp = (case hp of None \<Rightarrow> True | Some h \<Rightarrow> d_bh_nodes_cnt h = 0)"

section \<open>Moving a node\<close>

definition set_idx :: "'n \<Rightarrow> nat \<Rightarrow> 'n d_binheap \<Rightarrow> 'n d_binheap" where
  "set_idx e i h = h\<lparr>chn_idx := (chn_idx h)(e := i)\<rparr>"

text \<open>The statements after both loops: store the position in the node and the node in its slot.\<close>

definition settle :: "'n \<Rightarrow> slot \<Rightarrow> nat \<Rightarrow> bool \<Rightarrow> 'n d_binheap \<Rightarrow> (bool \<times> 'n d_binheap) option" where
  "settle e cur_ptr cur_idx did_sth h =
     map_option (Pair did_sth) (write_slot (set_idx e cur_idx h) cur_ptr (Some e))"

function bubble_loop ::
  "('n \<Rightarrow> 'n \<Rightarrow> bool) \<Rightarrow> 'n \<Rightarrow> slot \<Rightarrow> nat \<Rightarrow> bool \<Rightarrow> 'n d_binheap \<Rightarrow> (bool \<times> 'n d_binheap) option" where
  "bubble_loop cmp e cur_ptr cur_idx did_sth h =
     (if cur_idx > 0 then
        (let parent_idx = drop_bit 1 (cur_idx - 1);
             parent_ptr = d_binheap_pointer parent_idx
         in
         case read_slot h parent_ptr of
           Some (Some p) \<Rightarrow>
             if chn_idx h p \<noteq> parent_idx then None
             else if cmp p e then settle e cur_ptr cur_idx did_sth h
             else (case write_slot (set_idx p cur_idx h) cur_ptr (Some p) of
                     None \<Rightarrow> None
                   | Some h' \<Rightarrow> bubble_loop cmp e parent_ptr parent_idx True h')
         | _ \<Rightarrow> None)
      else settle e cur_ptr cur_idx did_sth h)"
  by pat_completeness auto
termination
  by (relation "measure (\<lambda>(cmp, e, ptr, i, d, h). i)") (auto simp: drop_bit_Suc)

declare bubble_loop.simps [simp del]

definition d_binheap_bubble ::
  "('n \<Rightarrow> 'n \<Rightarrow> bool) \<Rightarrow> 'n d_binheap \<Rightarrow> 'n \<Rightarrow> (bool \<times> 'n d_binheap) option" where
  "d_binheap_bubble cmp h e =
     (let cur_idx = chn_idx h e; cur_ptr = d_binheap_pointer cur_idx in
      if read_slot h cur_ptr \<noteq> Some (Some e) then None
      else bubble_loop cmp e cur_ptr cur_idx False h)"

text \<open>The child that \<open>e\<close> is compared with, and its position.\<close>

definition sink_child ::
  "('n \<Rightarrow> 'n \<Rightarrow> bool) \<Rightarrow> nat \<Rightarrow> nat \<Rightarrow> 'n d_binheap \<Rightarrow> ('n \<times> nat) option" where
  "sink_child cmp n child_idx h =
     (case read_slot h (d_binheap_pointer child_idx) of
        Some (Some child) \<Rightarrow>
          if child_idx + 1 < n then
            (case read_slot h (d_binheap_pointer (child_idx + 1)) of
               Some (Some child2) \<Rightarrow>
                 if cmp child2 child then Some (child2, child_idx + 1) else Some (child, child_idx)
             | _ \<Rightarrow> None)
          else Some (child, child_idx)
      | _ \<Rightarrow> None)"

function sink_loop ::
  "('n \<Rightarrow> 'n \<Rightarrow> bool) \<Rightarrow> nat \<Rightarrow> 'n \<Rightarrow> slot \<Rightarrow> nat \<Rightarrow> bool \<Rightarrow> 'n d_binheap \<Rightarrow>
     (bool \<times> 'n d_binheap) option" where
  "sink_loop cmp n e cur_ptr cur_idx did_sth h =
     (if cur_idx < n then
        (if push_bit 1 cur_idx + 1 \<ge> n then settle e cur_ptr cur_idx did_sth h
         else
           (case sink_child cmp n (push_bit 1 cur_idx + 1) h of
              None \<Rightarrow> None
            | Some (child, child_idx) \<Rightarrow>
                if chn_idx h child \<noteq> child_idx then None
                else if cmp e child then settle e cur_ptr cur_idx did_sth h
                else (case write_slot (set_idx child cur_idx h) cur_ptr (Some child) of
                        None \<Rightarrow> None
                      | Some h' \<Rightarrow>
                          sink_loop cmp n e (d_binheap_pointer child_idx) child_idx True h')))
      else settle e cur_ptr cur_idx did_sth h)"
  by pat_completeness auto
termination
proof (relation "measure (\<lambda>(cmp, n, e, ptr, i, d, h). n - i)", goal_cases)
  case (2 cmp n e cur_ptr cur_idx did_sth h p child child_idx h')
  then have "cur_idx < child_idx"
    by (auto simp: sink_child_def push_bit_Suc split: option.splits if_splits)
  then show ?case using 2 by simp
qed simp

declare sink_loop.simps [simp del]

definition d_binheap_sink ::
  "('n \<Rightarrow> 'n \<Rightarrow> bool) \<Rightarrow> 'n d_binheap \<Rightarrow> 'n \<Rightarrow> (bool \<times> 'n d_binheap) option" where
  "d_binheap_sink cmp h e =
     (let n = d_bh_nodes_cnt h; cur_idx = chn_idx h e; cur_ptr = d_binheap_pointer cur_idx in
      if read_slot h cur_ptr \<noteq> Some (Some e) then None
      else sink_loop cmp n e cur_ptr cur_idx False h)"

section \<open>Insertion and removal\<close>

definition d_binheap_insert ::
  "bool \<times> bool \<times> bool \<Rightarrow> 'n d_binheap_ops \<Rightarrow> 'n d_binheap option \<Rightarrow> 'n option \<Rightarrow>
     (rc \<times> 'n d_binheap option) option" where
  "d_binheap_insert allocs ops hp ep =
     (case (hp, ep, hop_compare ops) of
        (Some h, Some e, Some cmp) \<Rightarrow>
          (let new_idx = d_bh_nodes_cnt h in
           if \<not> new_idx \<le> d_bh_hwm h then None
           else
             (case (if new_idx = d_bh_hwm h then (case allocs of (a1, a2, a3) \<Rightarrow> d_binheap_grow a1 a2 a3 h)
                    else Some (DER_SUCCESS, h)) of
                None \<Rightarrow> None
              | Some (rc, h1) \<Rightarrow>
                  if rc \<noteq> DER_SUCCESS then Some (rc, Some h1)
                  else
                    (let rc = (case hop_enter ops of None \<Rightarrow> DER_SUCCESS | Some enter \<Rightarrow> enter e) in
                     if rc \<noteq> DER_SUCCESS then Some (rc, Some h1)
                     else
                       (case write_slot ((set_idx e new_idx h1)\<lparr>d_bh_nodes_cnt := new_idx + 1\<rparr>)
                               (d_binheap_pointer new_idx) (Some e) of
                          None \<Rightarrow> None
                        | Some h2 \<Rightarrow>
                            map_option (\<lambda>(did, h3). (DER_SUCCESS, Some h3)) (d_binheap_bubble cmp h2 e)))))
      | (Some h, Some e, None) \<Rightarrow> None
      | _ \<Rightarrow> Some (DER_INVAL, hp))"

definition d_binheap_remove_locked ::
  "'n d_binheap_ops \<Rightarrow> 'n d_binheap option \<Rightarrow> 'n option \<Rightarrow> 'n d_binheap option option" where
  "d_binheap_remove_locked ops hp ep =
     (case (hp, ep, hop_compare ops) of
        (Some h, Some e, Some cmp) \<Rightarrow>
          (let n = d_bh_nodes_cnt h; cur_idx = chn_idx h e;
               out = (\<lambda>h. Some (Some (set_idx e DBH_POISON h)))
           in
           if cur_idx = DBH_POISON \<or> \<not> cur_idx < n then None
           else if read_slot h (d_binheap_pointer cur_idx) \<noteq> Some (Some e) then None
           else
             (let n = n - 1 in
              case read_slot h (d_binheap_pointer n) of
                Some (Some lastn) \<Rightarrow>
                  (let h = h\<lparr>d_bh_nodes_cnt := n\<rparr> in
                   if lastn = e then out h
                   else
                     (case write_slot (set_idx lastn cur_idx h) (d_binheap_pointer cur_idx) (Some lastn) of
                        None \<Rightarrow> None
                      | Some h1 \<Rightarrow>
                          (case d_binheap_bubble cmp h1 lastn of
                             None \<Rightarrow> None
                           | Some (True, h2) \<Rightarrow> out h2
                           | Some (False, h2) \<Rightarrow>
                               (case d_binheap_sink cmp h2 lastn of
                                  None \<Rightarrow> None | Some (_, h3) \<Rightarrow> out h3))))
              | _ \<Rightarrow> None))
      | (Some h, Some e, None) \<Rightarrow> None
      | _ \<Rightarrow> Some hp)"

definition d_binheap_remove ::
  "'n d_binheap_ops \<Rightarrow> 'n d_binheap option \<Rightarrow> 'n option \<Rightarrow> 'n d_binheap option option" where
  "d_binheap_remove ops hp ep = d_binheap_remove_locked ops hp ep"

definition d_binheap_remove_root ::
  "'n d_binheap_ops \<Rightarrow> 'n d_binheap option \<Rightarrow> ('n option \<times> 'n d_binheap option) option" where
  "d_binheap_remove_root ops hp =
     (case hp of
        None \<Rightarrow> Some (None, None)
      | Some h \<Rightarrow>
          (case d_binheap_find_locked hp 0 of
             None \<Rightarrow> None
           | Some None \<Rightarrow> Some (None, hp)
           | Some (Some e) \<Rightarrow> map_option (Pair (Some e)) (d_binheap_remove_locked ops hp (Some e))))"

section \<open>The tables implement an array\<close>

lemma dbh_consts: "DBH_SHIFT = 9" "DBH_SIZE = 512" "DBH_MASK = 511"
  by (simp_all add: DBH_SHIFT_def DBH_SIZE_def DBH_MASK_def)

lemma and_511: "n AND 511 = n mod (512 :: nat)"
proof -
  have "(511 :: nat) = mask 9" by (simp add: mask_eq_exp_minus_1)
  then have "n AND 511 = take_bit 9 n" by (simp only: take_bit_eq_mask)
  then show ?thesis by (simp add: take_bit_eq_mod)
qed

lemma drop_div: "drop_bit 9 n = n div (512 :: nat)" "drop_bit 18 n = n div (262144 :: nat)"
  by (simp_all add: drop_bit_eq_div)

lemma pointer_eq:
  "d_binheap_pointer idx =
     (if idx < 512 then Slot1 idx
      else if idx < 262656 then Slot2 ((idx - 512) div 512) ((idx - 512) mod 512)
      else Slot3 ((idx - 262656) div 262144) ((idx - 262656) div 512 mod 512) ((idx - 262656) mod 512))"
  by (auto simp: d_binheap_pointer_def dbh_consts and_511 drop_div Let_def)

lemma pointer_inj: "d_binheap_pointer i = d_binheap_pointer j \<longleftrightarrow> i = j"
proof
  assume eq: "d_binheap_pointer i = d_binheap_pointer j"
  have d: "a = b" if "a div 512 = b div 512" "a mod 512 = b mod 512" for a b :: nat
    using that by (metis div_mult_mod_eq)
  have t: "a = b" if "a div 262144 = b div 262144" "a div 512 mod 512 = b div 512 mod 512"
    "a mod 512 = b mod 512" for a b :: nat
  proof -
    have "a div 512 div 512 = b div 512 div 512" using that(1) by (simp add: div_mult2_eq [symmetric])
    then have "a div 512 = b div 512" using that(2) by (rule d)
    then show ?thesis using that(3) by (rule d)
  qed
  consider "i < 512" | "512 \<le> i" "i < 262656" | "262656 \<le> i" by linarith
  then show "i = j"
  proof cases
    case 1
    with eq show ?thesis by (auto simp: pointer_eq split: if_splits)
  next
    case 2
    with eq have "512 \<le> j" "i - 512 = j - 512" by (auto simp: pointer_eq split: if_splits intro: d)
    then show ?thesis using 2 by simp
  next
    case 3
    with eq have "262656 \<le> j" "i - 262656 = j - 262656"
      by (auto simp: pointer_eq split: if_splits intro: t)
    then show ?thesis using 3 by simp
  qed
qed simp

lemma read_write_slot:
  assumes "write_slot h s v = Some h'"
  shows "read_slot h' t = (if t = s then Some v else read_slot h t)"
  using assms by (cases s; cases t) (auto simp: nth_list_update split: if_splits)

lemma write_slot_defined: "read_slot h s \<noteq> None \<Longrightarrow> \<exists>h'. write_slot h s v = Some h'"
  by (cases s) (auto split: if_splits)

lemma write_slot_fields:
  assumes "write_slot h s v = Some h'"
  shows "d_bh_nodes_cnt h' = d_bh_nodes_cnt h" "d_bh_hwm h' = d_bh_hwm h" "chn_idx h' = chn_idx h"
  using assms by (cases s; auto split: if_splits)+

text \<open>Which tables exist for a given high-water mark.\<close>

definition DBH_MAX :: nat where "DBH_MAX = 134480384"

definition shape :: "'n d_binheap \<Rightarrow> bool" where
  "shape h \<longleftrightarrow> d_bh_hwm h mod 512 = 0 \<and> d_bh_hwm h \<le> DBH_MAX
     \<and> (0 < d_bh_hwm h \<longrightarrow> length (d_bh_nodes1 h) = 512)
     \<and> (512 < d_bh_hwm h \<longrightarrow> length (d_bh_nodes2 h) = 512
         \<and> (\<forall>i<512. 512 + i * 512 < d_bh_hwm h \<longrightarrow> length (d_bh_nodes2 h ! i) = 512))
     \<and> (262656 < d_bh_hwm h \<longrightarrow> length (d_bh_nodes3 h) = 512
         \<and> (\<forall>i<512. if 262656 + i * 262144 < d_bh_hwm h
              then length (d_bh_nodes3 h ! i) = 512
                \<and> (\<forall>j<512. 262656 + i * 262144 + j * 512 < d_bh_hwm h \<longrightarrow>
                     length (d_bh_nodes3 h ! i ! j) = 512)
              else d_bh_nodes3 h ! i = []))"

lemma shape_write_slot:
  assumes "write_slot h s v = Some h'" "shape h"
  shows "shape h'"
proof (cases s)
  case (Slot1 i)
  with assms show ?thesis by (auto simp: shape_def split: if_splits)
next
  case (Slot2 i j)
  with assms show ?thesis by (auto simp: shape_def nth_list_update split: if_splits)
next
  case (Slot3 i j k)
  let ?r = "d_bh_nodes3 h"
  have w: "i < length ?r" "j < length (?r ! i)"
    and h': "h' = h\<lparr>d_bh_nodes3 := ?r[i := (?r ! i)[j := (?r ! i ! j)[k := v]]]\<rparr>"
    using assms(1) Slot3 by (auto split: if_splits)
  have len: "length (d_bh_nodes3 h' ! a) = length (?r ! a)" for a
    using w h' by (cases "a = i") simp_all
  have len2: "length (d_bh_nodes3 h' ! a ! b) = length (?r ! a ! b)" for a b
    using w h' by (cases "a = i"; cases "b = j") (simp_all add: nth_list_update)
  have nil: "d_bh_nodes3 h' ! a = [] \<longleftrightarrow> ?r ! a = []" for a
    using len [of a] by (metis length_0_conv)
  have same: "d_bh_hwm h' = d_bh_hwm h" "d_bh_nodes1 h' = d_bh_nodes1 h" "d_bh_nodes2 h' = d_bh_nodes2 h"
    "length (d_bh_nodes3 h') = length ?r" using h' by simp_all
  show ?thesis using assms(2) unfolding shape_def same len len2 nil .
qed

lemma div_mult_less: "a < b \<Longrightarrow> a div c * c < (b :: nat)"
  by (metis le_less_trans div_mult_mod_eq le_add1)

lemma read_slot_valid:
  assumes "shape h" "i < d_bh_hwm h"
  shows "read_slot h (d_binheap_pointer i) \<noteq> None"
proof -
  consider "i < 512" | "512 \<le> i" "i < 262656" | "262656 \<le> i" by linarith
  then show ?thesis
  proof cases
    case 1
    then show ?thesis using assms by (auto simp: shape_def pointer_eq)
  next
    case 2
    let ?j = "i - 512"
    have "?j div 512 < 512" using 2 by (simp add: less_mult_imp_div_less)
    moreover have "?j div 512 * 512 < d_bh_hwm h - 512" using assms(2) 2 by (intro div_mult_less) simp
    ultimately show ?thesis using assms 2 by (auto simp: shape_def pointer_eq)
  next
    case 3
    let ?j = "i - 262656"
    have max: "d_bh_hwm h \<le> 134480384" using assms(1) by (simp add: shape_def DBH_MAX_def)
    have a: "?j div 262144 < 512" using assms(2) 3 max by (simp add: less_mult_imp_div_less)
    have e: "?j div 262144 * 262144 + ?j div 512 mod 512 * 512 = ?j div 512 * 512"
    proof -
      have "?j div 262144 = ?j div 512 div 512" by (simp add: div_mult2_eq [symmetric])
      moreover have "?j div 512 div 512 * 512 + ?j div 512 mod 512 = ?j div 512" by (rule div_mult_mod_eq)
      ultimately show ?thesis by linarith
    qed
    have "?j div 512 * 512 < d_bh_hwm h - 262656" using assms(2) 3 by (intro div_mult_less) simp
    then have b: "262656 + ?j div 262144 * 262144 + ?j div 512 mod 512 * 512 < d_bh_hwm h" using e by linarith
    have "262656 + ?j div 262144 * 262144 < d_bh_hwm h" using b by linarith
    then have "length (d_bh_nodes3 h) = 512" "length (d_bh_nodes3 h ! (?j div 262144)) = 512"
      "length (d_bh_nodes3 h ! (?j div 262144) ! (?j div 512 mod 512)) = 512"
      using assms 3 a b by (auto simp: shape_def)
    then show ?thesis using a 3 by (simp add: pointer_eq)
  qed
qed

text \<open>The array interface: reading and writing entry \<open>i\<close> below the high-water mark.\<close>

definition hget :: "'n d_binheap \<Rightarrow> nat \<Rightarrow> 'n option option" where
  "hget h i = read_slot h (d_binheap_pointer i)"

lemma hget_update [simp]:
  "hget (h\<lparr>d_bh_nodes_cnt := c\<rparr>) i = hget h i" "hget (h\<lparr>chn_idx := f\<rparr>) i = hget h i"
  "hget (set_idx e k h) i = hget h i"
  by (cases "d_binheap_pointer i"; simp add: hget_def set_idx_def)+

lemma shape_update [simp]:
  "shape (h\<lparr>d_bh_nodes_cnt := c\<rparr>) = shape h" "shape (h\<lparr>chn_idx := f\<rparr>) = shape h"
  "shape (set_idx e k h) = shape h"
  by (simp_all add: shape_def set_idx_def)

lemma set_idx_fields [simp]:
  "d_bh_nodes_cnt (set_idx e i h) = d_bh_nodes_cnt h" "d_bh_hwm (set_idx e i h) = d_bh_hwm h"
  "chn_idx (set_idx e i h) = (chn_idx h)(e := i)"
  by (simp_all add: set_idx_def)

lemma hput:
  assumes "shape h" "i < d_bh_hwm h"
  obtains h' where "write_slot h (d_binheap_pointer i) v = Some h'" "shape h'"
    "d_bh_nodes_cnt h' = d_bh_nodes_cnt h" "d_bh_hwm h' = d_bh_hwm h" "chn_idx h' = chn_idx h"
    "\<And>j. hget h' j = (if j = i then Some v else hget h j)"
proof -
  obtain h' where w: "write_slot h (d_binheap_pointer i) v = Some h'"
    using write_slot_defined [OF read_slot_valid [OF assms]] by blast
  show thesis
    by (rule that [OF w shape_write_slot [OF w assms(1)] write_slot_fields [OF w]])
      (auto simp: hget_def read_write_slot [OF w] pointer_inj)
qed

subsection \<open>Growth\<close>

lemma grow_cases:
  assumes "shape h"
  obtains "d_bh_hwm h = 0"
  | q where "d_bh_hwm h = 512 + 512 * q" "q < 512"
  | i j where "d_bh_hwm h = 262656 + 262144 * i + 512 * j" "i < 512" "j < 512"
  | "d_bh_hwm h = DBH_MAX"
proof -
  obtain m where m: "d_bh_hwm h = 512 * m" and le: "d_bh_hwm h \<le> 134480384"
    using assms by (auto simp: shape_def DBH_MAX_def elim: dvdE)
  consider "m = 0" | "0 < m" "m < 513" | "513 \<le> m" "m < 262657" | "m = 262657" using m le by linarith
  then show thesis
  proof cases
    case 2
    then show thesis using that(2) [of "m - 1"] m by simp
  next
    case 3
    have "m - 513 = 512 * ((m - 513) div 512) + (m - 513) mod 512" by simp
    then have "d_bh_hwm h = 262656 + 262144 * ((m - 513) div 512) + 512 * ((m - 513) mod 512)"
      using m 3 by linarith
    moreover have "(m - 513) div 512 < 512" using 3 by (simp add: less_mult_imp_div_less)
    ultimately show thesis using that(3) [of "(m - 513) div 512" "(m - 513) mod 512"] by simp
  qed (use that(1,4) m in \<open>simp_all add: DBH_MAX_def\<close>)
qed

text \<open>What a successful growth does to the tables, one fact per level.\<close>

lemma grow_eq0: "d_bh_hwm h = 0 \<Longrightarrow> d_binheap_grow a1 a2 a3 h =
    Some (if a1 then (DER_SUCCESS, h\<lparr>d_bh_nodes1 := replicate 512 None, d_bh_hwm := 512\<rparr>)
          else (DER_NOMEM, h\<lparr>d_bh_nodes1 := []\<rparr>))"
  by (simp add: d_binheap_grow_def dbh_consts)

lemma grow_eq2:
  assumes "d_bh_hwm h = 512 + 512 * q" "q < 512" "shape h"
  shows "d_binheap_grow a1 a2 a3 h =
    Some (if \<not> a1 then (DER_NOMEM, h)
          else if q = 0 \<and> \<not> a2 then (DER_NOMEM, h\<lparr>d_bh_nodes2 := []\<rparr>)
          else (DER_SUCCESS, h\<lparr>d_bh_nodes2 := (if q = 0 then replicate 512 [] else d_bh_nodes2 h)
                 [q := replicate 512 None], d_bh_hwm := d_bh_hwm h + 512\<rparr>))"
proof -
  have "0 < q \<Longrightarrow> length (d_bh_nodes2 h) = 512" using assms(1,3) by (simp add: shape_def)
  moreover have "(512 + 512 * q) mod 512 = 0" by simp
  ultimately show ?thesis
    using assms(1,2) by (auto simp: d_binheap_grow_def dbh_consts and_511 drop_div Let_def)
qed

lemma grow_eq3:
  assumes "d_bh_hwm h = 262656 + 262144 * i + 512 * j" "i < 512" "j < 512" "shape h"
  shows "d_binheap_grow a1 a2 a3 h =
    Some (if \<not> a1 then (DER_NOMEM, h)
          else if j = 0 \<and> \<not> a2 then (DER_NOMEM, h)
          else if i = 0 \<and> j = 0 \<and> \<not> a3 then (DER_NOMEM, h\<lparr>d_bh_nodes3 := []\<rparr>)
          else (let nodes3 = (if i = 0 \<and> j = 0 then replicate 512 [] else d_bh_nodes3 h) in
            (DER_SUCCESS, h\<lparr>d_bh_nodes3 := nodes3[i := (if j = 0 then replicate 512 [] else nodes3 ! i)
                 [j := replicate 512 None]], d_bh_hwm := d_bh_hwm h + 512\<rparr>)))"
proof -
  have "262656 + 262144 * i + 512 * j = 512 * (513 + 512 * i + j)" by simp
  then have m: "(262656 + 262144 * i + 512 * j) mod 512 = 0"
    by (metis mod_mult_self1_is_0)
  have d1: "(262144 * i + 512 * j) div 262144 = i"
    using assms(3) by (intro div_nat_eqI) simp_all
  have "(262144 * i + 512 * j) div 512 = 512 * i + j"
    by (intro div_nat_eqI) simp_all
  then have d2: "(262144 * i + 512 * j) div 512 mod 512 = j" using assms(3) by simp
  have r: "\<not> 134217728 \<le> 262144 * i + 512 * j" using assms(2,3) by linarith
  have z: "262144 * i + 512 * j = 0 \<longleftrightarrow> i = 0 \<and> j = 0" by linarith
  have s: "0 < i \<or> 0 < j \<Longrightarrow> length (d_bh_nodes3 h) = 512
      \<and> (if j = 0 then d_bh_nodes3 h ! i = [] else length (d_bh_nodes3 h ! i) = 512)"
    using assms by (auto simp: shape_def split: if_splits)
  have ne: "0 < j \<Longrightarrow> d_bh_nodes3 h ! i \<noteq> []" using s by auto
  show ?thesis
    using assms(1-3) m d1 d2 r z s ne
    by (simp add: d_binheap_grow_def dbh_consts and_511 drop_div Let_def)
qed

text \<open>The postcondition of a growth step.\<close>

definition grow_ok :: "bool \<Rightarrow> 'n d_binheap \<Rightarrow> rc \<times> 'n d_binheap \<Rightarrow> bool" where
  "grow_ok allocs h r \<longleftrightarrow> shape (snd r) \<and> d_bh_nodes_cnt (snd r) = d_bh_nodes_cnt h
     \<and> chn_idx (snd r) = chn_idx h
     \<and> (if fst r = DER_SUCCESS then d_bh_hwm (snd r) = d_bh_hwm h + 512
        else fst r = DER_NOMEM \<and> d_bh_hwm (snd r) = d_bh_hwm h)
     \<and> (allocs \<longrightarrow> (fst r = DER_SUCCESS \<longleftrightarrow> d_bh_hwm h < DBH_MAX))
     \<and> (\<forall>k < d_bh_hwm h. hget (snd r) k = hget h k)"

lemma grow_ok2:
  assumes "d_bh_hwm h = 512 + 512 * q" "q < 512" "shape h"
  shows "grow_ok A h (DER_SUCCESS, h\<lparr>d_bh_nodes2 := (if q = 0 then replicate 512 [] else d_bh_nodes2 h)
      [q := replicate 512 None], d_bh_hwm := d_bh_hwm h + 512\<rparr>)"
proof -
  let ?N = "if q = 0 then replicate 512 [] else d_bh_nodes2 h"
  let ?h = "h\<lparr>d_bh_nodes2 := ?N[q := replicate 512 None], d_bh_hwm := d_bh_hwm h + 512\<rparr>"
  have len: "length ?N = 512" using assms by (simp add: shape_def)
  have low: "length (?N ! k) = 512" if "k < q" for k using that assms by (auto simp: shape_def)
  have "length (?N[q := replicate 512 None] ! k) = 512" if "k < 512" "k \<le> q" for k
    using that low [of k] len assms(2) by (cases "k = q") simp_all
  then have "shape ?h" using assms len by (auto simp: shape_def DBH_MAX_def)
  moreover have "hget ?h k = hget h k" if "k < d_bh_hwm h" for k
  proof (cases "k < 512")
    case False
    then have "(k - 512) div 512 < q" using that assms(1) by (simp add: less_mult_imp_div_less)
    then show ?thesis using False that assms(1,2) len by (auto simp: hget_def pointer_eq)
  qed (simp add: hget_def pointer_eq)
  ultimately show ?thesis using assms by (auto simp: grow_ok_def DBH_MAX_def)
qed

lemma div_mod_lex:
  assumes "q < 512 * i + j" "j < (512 :: nat)"
  shows "q div 512 < i \<or> q div 512 = i \<and> q mod 512 < j"
proof -
  have "512 * (q div 512) + q mod 512 = q" by simp
  then show ?thesis using assms by linarith
qed

lemma shape_nodes3I:
  assumes "w mod 512 = 0" "w \<le> DBH_MAX" "length (d_bh_nodes1 h) = 512" "length (d_bh_nodes2 h) = 512"
    and "\<forall>i<512. length (d_bh_nodes2 h ! i) = 512" "length N = 512"
    and "\<And>i. i < 512 \<Longrightarrow> if 262656 + i * 262144 < w
      then length (N ! i) = 512 \<and> (\<forall>j<512. 262656 + i * 262144 + j * 512 < w \<longrightarrow> length (N ! i ! j) = 512)
      else N ! i = []"
  shows "shape (h\<lparr>d_bh_nodes3 := N, d_bh_hwm := w\<rparr>)"
  using assms by (simp add: shape_def)

lemma grow_ok3:
  assumes "d_bh_hwm h = 262656 + 262144 * i + 512 * j" "i < 512" "j < 512" "shape h"
  shows "grow_ok A h (let nodes3 = (if i = 0 \<and> j = 0 then replicate 512 [] else d_bh_nodes3 h) in
    (DER_SUCCESS, h\<lparr>d_bh_nodes3 := nodes3[i := (if j = 0 then replicate 512 [] else nodes3 ! i)
       [j := replicate 512 None]], d_bh_hwm := d_bh_hwm h + 512\<rparr>))"
proof -
  let ?N = "if i = 0 \<and> j = 0 then replicate 512 [] else d_bh_nodes3 h"
  let ?T = "(if j = 0 then replicate 512 [] else ?N ! i)[j := replicate 512 None]"
  let ?h = "h\<lparr>d_bh_nodes3 := ?N[i := ?T], d_bh_hwm := d_bh_hwm h + 512\<rparr>"
  have len: "length ?N = 512" using assms by (auto simp: shape_def)
  have before: "length (?N ! a) = 512 \<and> (\<forall>b<512. length (?N ! a ! b) = 512)" if "a < i" for a
    using that assms by (auto simp: shape_def)
  have at: "length (?N ! i) = 512 \<and> (\<forall>b<j. length (?N ! i ! b) = 512)" if "0 < j"
    using that assms by (auto simp: shape_def split: if_splits)
  have after: "?N ! a = []" if "i < a" "a < 512" for a
    using that assms by (auto simp: shape_def split: if_splits)
  have T: "length ?T = 512" "\<And>b. b \<le> j \<Longrightarrow> length (?T ! b) = 512"
    using at assms(3) by (auto simp: nth_list_update)
  have "shape ?h"
  proof (rule shape_nodes3I)
    fix a :: nat
    assume a: "a < 512"
    let ?w = "d_bh_hwm h + 512"
    consider "a < i" | "a = i" | "i < a" by linarith
    then show "if 262656 + a * 262144 < ?w
      then length (?N[i := ?T] ! a) = 512
        \<and> (\<forall>b<512. 262656 + a * 262144 + b * 512 < ?w \<longrightarrow> length (?N[i := ?T] ! a ! b) = 512)
      else ?N[i := ?T] ! a = []"
    proof cases
      case 1
      then show ?thesis using before [OF 1] assms(1) by simp
    next
      case 2
      have "b \<le> j" if "262656 + i * 262144 + b * 512 < ?w" for b using that assms(1) by simp
      moreover have "?N[i := ?T] ! i = ?T" using len assms(2) by simp
      moreover have "262656 + i * 262144 < ?w" using assms(1) by simp
      ultimately show ?thesis using 2 T by metis
    next
      case 3
      then have "\<not> 262656 + a * 262144 < ?w" using assms(1,3) by simp
      then show ?thesis using 3 after [OF 3 a] by simp
    qed
  next
    show "d_bh_hwm h + 512 \<le> DBH_MAX" using assms(1-3) by (simp add: DBH_MAX_def)
    show "(d_bh_hwm h + 512) mod 512 = 0" using assms(4) by (simp add: shape_def)
    show "length (d_bh_nodes1 h) = 512" "length (d_bh_nodes2 h) = 512"
      "\<forall>i<512. length (d_bh_nodes2 h ! i) = 512" "length (?N[i := ?T]) = 512"
      using assms(1,4) len by (simp_all add: shape_def)
  qed
  moreover have "hget ?h k = hget h k" if "k < d_bh_hwm h" for k
  proof (cases "k < 262656")
    case False
    let ?k = "k - 262656"
    have lt: "?k < 262144 * i + 512 * j" using that assms(1) False by linarith
    then have "?k div 512 < 512 * i + j" by (intro less_mult_imp_div_less) simp
    moreover have "?k div 262144 = ?k div 512 div 512" by (simp add: div_mult2_eq [symmetric])
    ultimately have "?k div 262144 < i \<or> (?k div 262144 = i \<and> ?k div 512 mod 512 < j)"
      using div_mod_lex [OF _ assms(3)] by metis
    moreover have "0 < i \<or> 0 < j" using lt by linarith
    then have N: "?N = d_bh_nodes3 h" by auto
    have "read_slot ?h (Slot3 a b c) = read_slot h (Slot3 a b c)" if "a < i \<or> a = i \<and> b < j" for a b c
      using that len assms(2) unfolding N by (cases "a = i") (simp_all add: nth_list_update)
    ultimately show ?thesis using False by (simp only: hget_def pointer_eq) simp
  qed (simp add: hget_def pointer_eq)
  moreover have "d_bh_hwm h < DBH_MAX" using assms(1-3) by (simp add: DBH_MAX_def)
  ultimately show ?thesis by (simp add: grow_ok_def Let_def)
qed

lemma grow_total:
  assumes "shape h"
  obtains rc h' where "d_binheap_grow a1 a2 a3 h = Some (rc, h')" "grow_ok (a1 \<and> a2 \<and> a3) h (rc, h')"
proof -
  have "\<exists>r. d_binheap_grow a1 a2 a3 h = Some r \<and> grow_ok (a1 \<and> a2 \<and> a3) h r"
    using assms
  proof (cases h rule: grow_cases)
    case 1
    then have "shape (h\<lparr>d_bh_nodes1 := replicate 512 None, d_bh_hwm := 512\<rparr>)" "shape (h\<lparr>d_bh_nodes1 := []\<rparr>)"
      using assms by (simp_all add: shape_def DBH_MAX_def)
    then show ?thesis using 1 by (auto simp: grow_eq0 grow_ok_def DBH_MAX_def)
  next
    case (2 q)
    have "grow_ok (a1 \<and> a2 \<and> a3) h (DER_NOMEM, h)" if "\<not> a1"
      using that assms by (simp add: grow_ok_def)
    moreover have "grow_ok (a1 \<and> a2 \<and> a3) h (DER_NOMEM, h\<lparr>d_bh_nodes2 := []\<rparr>)" if "q = 0" "\<not> a2"
      using that 2 assms by (auto simp: grow_ok_def shape_def hget_def pointer_eq)
    ultimately show ?thesis using grow_ok2 [OF 2 assms] by (simp add: grow_eq2 [OF 2 assms])
  next
    case (3 i j)
    have "grow_ok (a1 \<and> a2 \<and> a3) h (DER_NOMEM, h)" if "\<not> a1 \<or> \<not> a2"
      using that assms by (auto simp: grow_ok_def)
    moreover have "grow_ok (a1 \<and> a2 \<and> a3) h (DER_NOMEM, h\<lparr>d_bh_nodes3 := []\<rparr>)" if "i = 0" "j = 0" "\<not> a3"
      using that 3 assms by (auto simp: grow_ok_def shape_def hget_def pointer_eq)
    moreover define R where "R = (let nodes3 = (if i = 0 \<and> j = 0 then replicate 512 [] else d_bh_nodes3 h) in
        (DER_SUCCESS, h\<lparr>d_bh_nodes3 := nodes3[i := (if j = 0 then replicate 512 [] else nodes3 ! i)
           [j := replicate 512 None]], d_bh_hwm := d_bh_hwm h + 512\<rparr>))"
    have "grow_ok (a1 \<and> a2 \<and> a3) h R" unfolding R_def by (rule grow_ok3 [OF 3 assms])
    ultimately show ?thesis
      unfolding grow_eq3 [OF 3 assms] R_def [symmetric]
      by (cases "\<not> a1"; cases "j = 0 \<and> \<not> a2"; cases "i = 0 \<and> j = 0 \<and> \<not> a3") simp_all
  next
    case 4
    then show ?thesis using assms
      by (simp add: d_binheap_grow_def dbh_consts and_511 drop_div Let_def DBH_MAX_def grow_ok_def)
  qed
  then show thesis using that by (metis surj_pair)
qed

end
