(* ===== verification/Heap_Order.thy ===== *)
theory Heap_Order
  imports Bin_Heap
begin

text \<open>
  Correctness of the binary heap. The two loops on the indirect tables are refined by loops on a
  plain list (\<open>fb_loop\<close>, \<open>fs_loop\<close>); the locale \<open>heap_order\<close> states what a comparison callback has to
  satisfy and proves that the list loops restore the heap order. From both follow the properties of
  the operations: no assertion fails, the heap order and the positions stored in the nodes are kept,
  and the multiset of nodes changes as an insertion or removal should change it.
\<close>

section \<open>The loops on a list\<close>

abbreviation par :: "nat \<Rightarrow> nat" where "par i \<equiv> (i - 1) div 2"

function fb_loop :: "('n \<Rightarrow> 'n \<Rightarrow> bool) \<Rightarrow> 'n \<Rightarrow> nat \<Rightarrow> bool \<Rightarrow> 'n list \<Rightarrow> bool \<times> 'n list" where
  "fb_loop cmp e cur did xs =
     (if cur > 0 then
        (if cmp (xs ! par cur) e then (did, xs[cur := e])
         else fb_loop cmp e (par cur) True (xs[cur := xs ! par cur]))
      else (did, xs[cur := e]))"
  by pat_completeness auto
termination
  by (relation "measure (\<lambda>(cmp, e, i, d, xs). i)") auto

declare fb_loop.simps [simp del]

definition min_child :: "('n \<Rightarrow> 'n \<Rightarrow> bool) \<Rightarrow> 'n list \<Rightarrow> nat \<Rightarrow> nat" where
  "min_child cmp xs c = (if c + 1 < length xs \<and> cmp (xs ! (c + 1)) (xs ! c) then c + 1 else c)"

function fs_loop :: "('n \<Rightarrow> 'n \<Rightarrow> bool) \<Rightarrow> 'n \<Rightarrow> nat \<Rightarrow> bool \<Rightarrow> 'n list \<Rightarrow> bool \<times> 'n list" where
  "fs_loop cmp e cur did xs =
     (if cur * 2 + 1 < length xs then
        (let c = min_child cmp xs (cur * 2 + 1) in
         if cmp e (xs ! c) then (did, xs[cur := e])
         else fs_loop cmp e c True (xs[cur := xs ! c]))
      else (did, xs[cur := e]))"
  by pat_completeness auto
termination
  by (relation "measure (\<lambda>(cmp, e, i, d, xs). length xs - i)") (auto simp: min_child_def)

declare fs_loop.simps [simp del]

section \<open>Simulation\<close>

text \<open>
  \<open>full h xs\<close>: the heap holds the nodes \<open>xs\<close>, each of which knows its position. \<open>hole h xs cur e\<close>: the
  same except at position \<open>cur\<close>, where \<open>e\<close>, which is nowhere else, is about to be stored.
\<close>

definition full :: "'n d_binheap \<Rightarrow> 'n list \<Rightarrow> bool" where
  "full h xs \<longleftrightarrow> shape h \<and> d_bh_nodes_cnt h = length xs \<and> length xs \<le> d_bh_hwm h
     \<and> (\<forall>i < length xs. hget h i = Some (Some (xs ! i)) \<and> chn_idx h (xs ! i) = i)"

definition hole :: "'n d_binheap \<Rightarrow> 'n list \<Rightarrow> nat \<Rightarrow> 'n \<Rightarrow> bool" where
  "hole h xs cur e \<longleftrightarrow> shape h \<and> d_bh_nodes_cnt h = length xs \<and> length xs \<le> d_bh_hwm h
     \<and> cur < length xs
     \<and> (\<forall>i < length xs. i \<noteq> cur \<longrightarrow>
          hget h i = Some (Some (xs ! i)) \<and> chn_idx h (xs ! i) = i \<and> xs ! i \<noteq> e)"

text \<open>Only nodes of the set \<open>X\<close> change their stored position.\<close>

definition idx_frame :: "'n set \<Rightarrow> 'n d_binheap \<Rightarrow> 'n d_binheap \<Rightarrow> bool" where
  "idx_frame X h h' \<longleftrightarrow> (\<forall>x. x \<notin> X \<longrightarrow> chn_idx h' x = chn_idx h x)"

lemma full_distinct:
  assumes "full h xs"
  shows "distinct xs"
  unfolding distinct_conv_nth using assms unfolding full_def by metis

lemma hole_full: "hole h xs cur e \<Longrightarrow> hget h cur = Some (Some e) \<Longrightarrow> chn_idx h e = cur \<Longrightarrow> full h (xs[cur := e])"
  by (auto simp: hole_def full_def nth_list_update)

lemma full_hole:
  assumes "full h xs" "cur < length xs"
  shows "hole h xs cur (xs ! cur)"
  using assms full_distinct [OF assms(1)] by (auto simp: hole_def full_def nth_eq_iff_index_eq)

lemma full_init: "full h (xs @ [x]) \<Longrightarrow> full (h\<lparr>d_bh_nodes_cnt := length xs\<rparr>) xs"
  by (auto simp: full_def nth_append dest: less_SucI)

lemma full_set_idx: "full h xs \<Longrightarrow> e \<notin> set xs \<Longrightarrow> full (set_idx e k h) xs"
  by (auto simp: full_def)

lemma full_not_poison: "full h xs \<Longrightarrow> i < length xs \<Longrightarrow> i \<noteq> DBH_POISON"
  by (auto simp: full_def shape_def DBH_MAX_def DBH_POISON_def)

lemma hput_idx:
  assumes "shape h" "i < d_bh_hwm h"
  shows "\<exists>h'. write_slot (set_idx x i h) (d_binheap_pointer i) (Some x) = Some h' \<and> shape h'
    \<and> d_bh_nodes_cnt h' = d_bh_nodes_cnt h \<and> d_bh_hwm h' = d_bh_hwm h
    \<and> chn_idx h' = (chn_idx h)(x := i) \<and> (\<forall>j. hget h' j = (if j = i then Some (Some x) else hget h j))"
  by (rule hput [of "set_idx x i h" i "Some x"]) (use assms in auto)

lemma settle_hole:
  assumes "hole h xs cur e"
  obtains h' where "settle e (d_binheap_pointer cur) cur did h = Some (did, h')" "full h' (xs[cur := e])"
    "idx_frame (insert e (set xs)) h h'"
proof -
  have sh: "shape h" "cur < d_bh_hwm h" using assms by (auto simp: hole_def)
  obtain h' where h': "write_slot (set_idx e cur h) (d_binheap_pointer cur) (Some e) = Some h'" "shape h'"
    "d_bh_nodes_cnt h' = d_bh_nodes_cnt h" "d_bh_hwm h' = d_bh_hwm h"
    "chn_idx h' = (chn_idx h)(e := cur)" "\<forall>j. hget h' j = (if j = cur then Some (Some e) else hget h j)"
    using hput_idx [OF sh] by blast
  have "hole h' xs cur e" using assms h' by (auto simp: hole_def)
  then have "full h' (xs[cur := e])" using h' by (intro hole_full) simp_all
  then show thesis using that [of h'] h' by (simp add: settle_def idx_frame_def)
qed

text \<open>One step of either loop: the node at \<open>k\<close> moves into the hole and the hole to \<open>k\<close>.\<close>

lemma move_hole:
  assumes "hole h xs cur e" "k < length xs" "k \<noteq> cur"
  obtains h' where "write_slot (set_idx (xs ! k) cur h) (d_binheap_pointer cur) (Some (xs ! k)) = Some h'"
    "hole h' (xs[cur := xs ! k]) k e" "idx_frame (insert e (set xs)) h h'"
proof -
  let ?p = "xs ! k"
  have sh: "shape h" "cur < d_bh_hwm h" using assms by (auto simp: hole_def)
  obtain h' where h': "write_slot (set_idx ?p cur h) (d_binheap_pointer cur) (Some ?p) = Some h'" "shape h'"
    "d_bh_nodes_cnt h' = d_bh_nodes_cnt h" "d_bh_hwm h' = d_bh_hwm h"
    "chn_idx h' = (chn_idx h)(?p := cur)" "\<forall>j. hget h' j = (if j = cur then Some (Some ?p) else hget h j)"
    using hput_idx [OF sh] by blast
  have ne: "xs ! i \<noteq> ?p" if "i < length xs" "i \<noteq> cur" "i \<noteq> k" for i
    using that assms unfolding hole_def by metis
  have "?p \<noteq> e" using assms by (simp add: hole_def)
  then have "hole h' (xs[cur := ?p]) k e"
    using assms h' ne by (auto simp: hole_def nth_list_update)
  moreover have "idx_frame (insert e (set xs)) h h'" using assms(2) by (auto simp: idx_frame_def h'(5))
  ultimately show thesis using that h'(1) by blast
qed

lemma hole_read:
  assumes "hole h xs cur e" "k < length xs" "k \<noteq> cur"
  shows "read_slot h (d_binheap_pointer k) = Some (Some (xs ! k))" "chn_idx h (xs ! k) = k"
  using assms by (auto simp: hole_def hget_def)

lemma idx_frame_trans:
  "idx_frame X h h' \<Longrightarrow> idx_frame Y h' h'' \<Longrightarrow> Y \<subseteq> X \<Longrightarrow> idx_frame X h h''"
  by (auto simp: idx_frame_def)

lemma bubble_sim:
  "hole h xs cur e \<Longrightarrow> fb_loop cmp e cur did xs = (d, ys) \<Longrightarrow>
    \<exists>h'. bubble_loop cmp e (d_binheap_pointer cur) cur did h = Some (d, h') \<and> full h' ys
      \<and> idx_frame (insert e (set xs)) h h'"
proof (induction cmp e cur did xs arbitrary: h d ys rule: fb_loop.induct)
  case (1 cmp e cur did xs)
  have pb: "drop_bit (Suc 0) (cur - Suc 0) = (cur - Suc 0) div 2" by (simp add: drop_bit_Suc)
  obtain hs where hs: "settle e (d_binheap_pointer cur) cur did h = Some (did, hs)" "full hs (xs[cur := e])"
    "idx_frame (insert e (set xs)) h hs"
    using settle_hole [OF "1.prems"(1)] by metis
  show ?case
  proof (cases "cur > 0 \<and> \<not> cmp (xs ! par cur) e")
    case False
    then have "d = did" "ys = xs[cur := e]" using "1.prems"(2) by (auto simp: fb_loop.simps [of _ _ cur] split: if_splits)
    moreover have "cur > 0 \<Longrightarrow> par cur < length xs \<and> par cur \<noteq> cur" using "1.prems"(1) by (auto simp: hole_def)
    ultimately show ?thesis
      using False hs hole_read [OF "1.prems"(1), of "par cur"]
      by (auto simp: bubble_loop.simps [of _ _ _ cur] pb Let_def)
  next
    case True
    then have p: "par cur < length xs" "par cur \<noteq> cur" using "1.prems"(1) by (auto simp: hole_def)
    obtain h1 where h1: "write_slot (set_idx (xs ! par cur) cur h) (d_binheap_pointer cur) (Some (xs ! par cur)) = Some h1"
      "hole h1 (xs[cur := xs ! par cur]) (par cur) e" "idx_frame (insert e (set xs)) h h1"
      using move_hole [OF "1.prems"(1) p] by metis
    have fb: "fb_loop cmp e (par cur) True (xs[cur := xs ! par cur]) = (d, ys)"
      using True "1.prems"(2) by (simp add: fb_loop.simps [of _ _ cur])
    obtain h2 where h2: "bubble_loop cmp e (d_binheap_pointer (par cur)) (par cur) True h1 = Some (d, h2)"
      "full h2 ys" "idx_frame (insert e (set (xs[cur := xs ! par cur]))) h1 h2"
      using "1.IH" [OF _ _ h1(2) fb] True by blast
    have "set (xs[cur := xs ! par cur]) \<subseteq> set xs" using p(1) by (simp add: set_update_subsetI)
    then have "idx_frame (insert e (set xs)) h h2" using idx_frame_trans [OF h1(3) h2(3)] by auto
    moreover have "bubble_loop cmp e (d_binheap_pointer cur) cur did h = Some (d, h2)"
      using True h1(1) h2(1) hole_read [OF "1.prems"(1) p]
      by (simp add: bubble_loop.simps [of _ _ _ cur] pb Let_def)
    ultimately show ?thesis using h2(2) by blast
  qed
qed

lemma sink_child_eq:
  assumes "hole h xs cur e" "c < length xs" "cur < c"
  shows "sink_child cmp (length xs) c h = Some (xs ! min_child cmp xs c, min_child cmp xs c)"
  using assms hole_read [OF assms(1), of c] hole_read [OF assms(1), of "Suc c"]
  by (auto simp: sink_child_def min_child_def)

lemma sink_sim:
  "hole h xs cur e \<Longrightarrow> fs_loop cmp e cur did xs = (d, ys) \<Longrightarrow>
    \<exists>h'. sink_loop cmp (length xs) e (d_binheap_pointer cur) cur did h = Some (d, h') \<and> full h' ys
      \<and> idx_frame (insert e (set xs)) h h'"
proof (induction cmp e cur did xs arbitrary: h d ys rule: fs_loop.induct)
  case (1 cmp e cur did xs)
  have pb: "push_bit 1 cur = cur * 2" by (simp add: push_bit_Suc)
  have cur: "cur < length xs" using "1.prems"(1) by (simp add: hole_def)
  let ?c = "min_child cmp xs (cur * 2 + 1)"
  obtain hs where hs: "settle e (d_binheap_pointer cur) cur did h = Some (did, hs)" "full hs (xs[cur := e])"
    "idx_frame (insert e (set xs)) h hs"
    using settle_hole [OF "1.prems"(1)] by metis
  have sel: "cur * 2 + 1 < length xs \<Longrightarrow> sink_child cmp (length xs) (cur * 2 + 1) h = Some (xs ! ?c, ?c)"
    using sink_child_eq [OF "1.prems"(1), of "cur * 2 + 1" cmp] by simp
  have c: "cur * 2 + 1 < length xs \<Longrightarrow> ?c < length xs \<and> ?c \<noteq> cur" by (auto simp: min_child_def)
  show ?case
  proof (cases "cur * 2 + 1 < length xs \<and> \<not> cmp e (xs ! ?c)")
    case False
    then have "d = did" "ys = xs[cur := e]" using "1.prems"(2) by (auto simp: fs_loop.simps [of _ _ cur] Let_def split: if_splits)
    then show ?thesis
      using False hs sel cur c hole_read(2) [OF "1.prems"(1), of ?c]
      by (auto simp: sink_loop.simps [of _ _ _ _ cur] pb not_less)
  next
    case True
    then have p: "?c < length xs" "?c \<noteq> cur" using c by simp_all
    obtain h1 where h1: "write_slot (set_idx (xs ! ?c) cur h) (d_binheap_pointer cur) (Some (xs ! ?c)) = Some h1"
      "hole h1 (xs[cur := xs ! ?c]) ?c e" "idx_frame (insert e (set xs)) h h1"
      using move_hole [OF "1.prems"(1) p] by metis
    have fs: "fs_loop cmp e ?c True (xs[cur := xs ! ?c]) = (d, ys)"
      using True "1.prems"(2) by (simp add: fs_loop.simps [of _ _ cur] Let_def)
    obtain h2 where h2: "sink_loop cmp (length (xs[cur := xs ! ?c])) e (d_binheap_pointer ?c) ?c True h1 = Some (d, h2)"
      "full h2 ys" "idx_frame (insert e (set (xs[cur := xs ! ?c]))) h1 h2"
      using "1.IH" [OF _ refl _ h1(2) fs] True by blast
    have "set (xs[cur := xs ! ?c]) \<subseteq> set xs" using p(1) by (simp add: set_update_subsetI)
    then have "idx_frame (insert e (set xs)) h h2" using idx_frame_trans [OF h1(3) h2(3)] by auto
    moreover have "sink_loop cmp (length xs) e (d_binheap_pointer cur) cur did h = Some (d, h2)"
      using True h1(1) h2(1) sel cur hole_read(2) [OF "1.prems"(1) p]
      by (simp add: sink_loop.simps [of _ _ _ _ cur] pb)
    ultimately show ?thesis using h2(2) by blast
  qed
qed

section \<open>Heap order\<close>

definition heap :: "('n \<Rightarrow> 'k::linorder) \<Rightarrow> 'n list \<Rightarrow> bool" where
  "heap key xs \<longleftrightarrow> (\<forall>i. 0 < i \<and> i < length xs \<longrightarrow> key (xs ! par i) \<le> key (xs ! i))"

lemma heap_root_min: "heap key xs \<Longrightarrow> i < length xs \<Longrightarrow> key (xs ! 0) \<le> key (xs ! i)"
proof (induction i rule: less_induct)
  case (less i)
  show ?case
  proof (cases "i = 0")
    case False
    then have "par i < i" by auto
    then have "key (xs ! 0) \<le> key (xs ! par i)" using less by simp
    also have "\<dots> \<le> key (xs ! i)" using less.prems False by (simp add: heap_def)
    finally show ?thesis .
  qed simp
qed

lemma par_child: "0 < c \<Longrightarrow> par c = i \<longleftrightarrow> c = i * 2 + 1 \<or> c = i * 2 + 2"
  by presburger

lemma mset_move:
  assumes "cur < length xs" "k < length xs" "k \<noteq> cur"
  shows "mset (xs[cur := xs ! k, k := e]) = mset (xs[cur := e])"
proof -
  have "xs[cur := xs ! k, k := e] = (xs[cur := e])[k := xs[cur := e] ! cur, cur := xs[cur := e] ! k]"
    using assms by (intro nth_equalityI) (auto simp: nth_list_update)
  then show ?thesis using mset_swap [of cur "xs[cur := e]" k] assms(1,2) by simp
qed

text \<open>
  What a comparison callback has to satisfy with respect to some key of the nodes: an answer in
  either direction is right. Nothing is said about nodes with equal keys.
\<close>

lemma fb_did: "fb_loop cmp e cur did xs = (d, ys) \<Longrightarrow> did \<Longrightarrow> d"
  by (induction cmp e cur did xs rule: fb_loop.induct)
    (auto simp: fb_loop.simps [of _ _ cur for cur] split: if_splits)

locale heap_order =
  fixes cmp :: "'n \<Rightarrow> 'n \<Rightarrow> bool" and key :: "'n \<Rightarrow> 'k::linorder"
  assumes cmp_le: "cmp a b \<Longrightarrow> key a \<le> key b"
    and not_cmp_le: "\<not> cmp a b \<Longrightarrow> key b \<le> key a"
begin

text \<open>The order holds away from \<open>cur\<close>, and from above \<open>cur\<close> to below it.\<close>

definition around :: "'n list \<Rightarrow> nat \<Rightarrow> bool" where
  "around xs cur \<longleftrightarrow> (\<forall>i. 0 < i \<and> i < length xs \<and> i \<noteq> cur \<and> par i \<noteq> cur \<longrightarrow> key (xs ! par i) \<le> key (xs ! i))
     \<and> (\<forall>c. 0 < cur \<and> 0 < c \<and> c < length xs \<and> par c = cur \<longrightarrow> key (xs ! par cur) \<le> key (xs ! c))"

definition above_children :: "'n \<Rightarrow> 'n list \<Rightarrow> nat \<Rightarrow> bool" where
  "above_children e xs cur \<longleftrightarrow> (\<forall>c. 0 < c \<and> c < length xs \<and> par c = cur \<longrightarrow> key e \<le> key (xs ! c))"

lemma heap_around:
  assumes "heap key xs" "cur < length xs"
  shows "around xs cur"
proof -
  have "key (xs ! par cur) \<le> key (xs ! c)" if c: "0 < cur" "0 < c" "c < length xs" "par c = cur" for c
  proof -
    have "key (xs ! par cur) \<le> key (xs ! cur)" using assms c(1) by (simp add: heap_def)
    also have "\<dots> \<le> key (xs ! c)" using assms c by (auto simp: heap_def)
    finally show ?thesis .
  qed
  then show ?thesis using assms by (auto simp: around_def heap_def)
qed

lemma around_heap:
  assumes "around xs cur" "above_children e xs cur" "0 < cur \<Longrightarrow> key (xs ! par cur) \<le> key e"
    and "cur < length xs"
  shows "heap key (xs[cur := e])"
  unfolding heap_def
proof (intro allI impI)
  fix i
  assume i: "0 < i \<and> i < length (xs[cur := e])"
  have ne: "par i \<noteq> i" using i by auto
  consider "i = cur" | "i \<noteq> cur" "par i = cur" | "i \<noteq> cur" "par i \<noteq> cur" by blast
  then show "key (xs[cur := e] ! par i) \<le> key (xs[cur := e] ! i)"
  proof cases
    case 1
    then show ?thesis using assms(3,4) i ne by auto
  next
    case 2
    then have "key e \<le> key (xs ! i)" using assms(2) i by (simp add: above_children_def)
    then show ?thesis using 2 assms(4) by simp
  next
    case 3
    then have "key (xs ! par i) \<le> key (xs ! i)" using assms(1) i by (simp add: around_def)
    then show ?thesis using 3 by simp
  qed
qed

lemma around_up:
  assumes "around xs cur" "0 < cur" "cur < length xs" "key e \<le> key (xs ! par cur)"
  shows "around (xs[cur := xs ! par cur]) (par cur)" "above_children e (xs[cur := xs ! par cur]) (par cur)"
proof -
  let ?p = "par cur"
  have pc: "?p < cur" using assms(2) by auto
  have away: "key (xs ! par i) \<le> key (xs ! i)" if "0 < i" "i < length xs" "i \<noteq> cur" "par i \<noteq> cur" for i
    using that assms(1) by (simp add: around_def)
  have below: "key (xs ! ?p) \<le> key (xs ! c)" if "0 < c" "c < length xs" "par c = cur" for c
    using that assms(1,2) by (simp add: around_def)
  have sib: "key (xs ! ?p) \<le> key (xs[cur := xs ! ?p] ! c)" if "0 < c" "c < length xs" "par c = ?p" for c
    using away [of c] that pc assms(3) by (cases "c = cur") auto
  have gp: "0 < ?p \<Longrightarrow> key (xs ! par ?p) \<le> key (xs ! ?p)"
    using away [of ?p] pc assms(3) by auto
  show "above_children e (xs[cur := xs ! ?p]) ?p"
    using sib assms(4) by (auto simp: above_children_def intro: order_trans)
  show "around (xs[cur := xs ! ?p]) ?p"
    unfolding around_def
  proof (intro conjI allI impI)
    fix i
    assume i: "0 < i \<and> i < length (xs[cur := xs ! ?p]) \<and> i \<noteq> ?p \<and> par i \<noteq> ?p"
    then have "i \<noteq> cur" by auto
    then show "key (xs[cur := xs ! ?p] ! par i) \<le> key (xs[cur := xs ! ?p] ! i)"
      using i away [of i] below [of i] assms(3) by (cases "par i = cur") auto
  next
    fix c
    assume c: "0 < ?p \<and> 0 < c \<and> c < length (xs[cur := xs ! ?p]) \<and> par c = ?p"
    have "par ?p \<noteq> cur" using c pc by auto
    then show "key (xs[cur := xs ! ?p] ! par ?p) \<le> key (xs[cur := xs ! ?p] ! c)"
      using gp sib [of c] c by (auto intro: order_trans)
  qed
qed

lemma fb_loop_correct:
  "around xs cur \<Longrightarrow> (did \<Longrightarrow> above_children e xs cur) \<Longrightarrow> cur < length xs \<Longrightarrow>
    fb_loop cmp e cur did xs = (d, ys) \<Longrightarrow>
    mset ys = mset (xs[cur := e])
    \<and> (if d then heap key ys else ys = xs[cur := e] \<and> (0 < cur \<longrightarrow> key (xs ! par cur) \<le> key e))"
proof (induction cur arbitrary: did xs d ys rule: less_induct)
  case (less cur)
  show ?case
  proof (cases "0 < cur \<and> \<not> cmp (xs ! par cur) e")
    case False
    then have "d = did" "ys = xs[cur := e]"
      using less.prems(4) by (auto simp: fb_loop.simps [of _ _ cur] split: if_splits)
    moreover have "0 < cur \<Longrightarrow> key (xs ! par cur) \<le> key e" using False cmp_le by blast
    ultimately show ?thesis using around_heap [OF less.prems(1) less.prems(2)] less.prems(3) by auto
  next
    case True
    have le: "key e \<le> key (xs ! par cur)" using True not_cmp_le by blast
    note up = around_up [OF less.prems(1) _ less.prems(3) le]
    have pc: "par cur < cur" using True by auto
    have fb: "fb_loop cmp e (par cur) True (xs[cur := xs ! par cur]) = (d, ys)"
      using True less.prems(4) by (simp add: fb_loop.simps [of _ _ cur])
    then have d by (rule fb_did) simp
    moreover have "mset ys = mset (xs[cur := xs ! par cur, par cur := e])
        \<and> (if d then heap key ys else ys = xs[cur := xs ! par cur, par cur := e]
            \<and> (0 < par cur \<longrightarrow> key (xs[cur := xs ! par cur] ! par (par cur)) \<le> key e))"
      by (rule less.IH [OF pc _ _ _ fb]) (use up True less.prems(3) pc in auto)
    ultimately show ?thesis
      using mset_move [of cur xs "par cur" e] less.prems(3) pc by simp
  qed
qed

lemma min_child_min:
  assumes "0 < g" "g < length xs" "par g = cur"
  shows "key (xs ! min_child cmp xs (cur * 2 + 1)) \<le> key (xs ! g)"
  using assms par_child [of g cur] cmp_le not_cmp_le by (auto simp: min_child_def)

lemma around_down:
  assumes "around xs cur" "cur < length xs" "cur * 2 + 1 < length xs"
    and "c = min_child cmp xs (cur * 2 + 1)"
  shows "around (xs[cur := xs ! c]) c" "par c = cur" "c < length xs" "cur < c"
proof -
  show pc: "par c = cur" and c: "c < length xs" "cur < c"
    using assms by (auto simp: min_child_def)
  have away: "key (xs ! par i) \<le> key (xs ! i)" if "0 < i" "i < length xs" "i \<noteq> cur" "par i \<noteq> cur" for i
    using that assms(1) by (simp add: around_def)
  have low: "key (xs ! c) \<le> key (xs ! g)" if "0 < g" "g < length xs" "par g = cur" for g
    using min_child_min [OF that] assms(4) by simp
  show "around (xs[cur := xs ! c]) c"
    unfolding around_def
  proof (intro conjI allI impI)
    fix i
    assume i: "0 < i \<and> i < length (xs[cur := xs ! c]) \<and> i \<noteq> c \<and> par i \<noteq> c"
    have "par i \<noteq> i" using i by auto
    moreover have "0 < cur \<Longrightarrow> key (xs ! par cur) \<le> key (xs ! c)"
      using assms(1) c pc by (simp add: around_def)
    ultimately show "key (xs[cur := xs ! c] ! par i) \<le> key (xs[cur := xs ! c] ! i)"
      using i away [of i] low [of i] assms(2) by (cases "i = cur"; cases "par i = cur") auto
  next
    fix g
    assume g: "0 < c \<and> 0 < g \<and> g < length (xs[cur := xs ! c]) \<and> par g = c"
    then have "g \<noteq> cur" using c by auto
    then show "key (xs[cur := xs ! c] ! par c) \<le> key (xs[cur := xs ! c] ! g)"
      using away [of g] g pc c assms(2) by auto
  qed
qed

lemma fs_loop_correct:
  "around xs cur \<Longrightarrow> (0 < cur \<Longrightarrow> key (xs ! par cur) \<le> key e) \<Longrightarrow> cur < length xs \<Longrightarrow>
    fs_loop cmp e cur did xs = (d, ys) \<Longrightarrow> mset ys = mset (xs[cur := e]) \<and> heap key ys"
proof (induction "length xs - cur" arbitrary: cur did xs rule: less_induct)
  case less
  let ?c = "min_child cmp xs (cur * 2 + 1)"
  show ?case
  proof (cases "cur * 2 + 1 < length xs \<and> \<not> cmp e (xs ! ?c)")
    case False
    then have ys: "ys = xs[cur := e]"
      using less.prems(4) by (auto simp: fs_loop.simps [of _ _ cur] Let_def split: if_splits)
    have "above_children e xs cur"
      unfolding above_children_def
    proof (intro allI impI)
      fix g
      assume g: "0 < g \<and> g < length xs \<and> par g = cur"
      then have "cur * 2 + 1 < length xs" using par_child [of g cur] by auto
      then have "key e \<le> key (xs ! ?c)" using False cmp_le by blast
      then show "key e \<le> key (xs ! g)" using min_child_min [of g xs cur] g by auto
    qed
    then show ?thesis using ys around_heap [OF less.prems(1)] less.prems(2,3) by blast
  next
    case True
    note down = around_down [OF less.prems(1,3) conjunct1 [OF True] refl]
    have le: "key (xs ! ?c) \<le> key e" using True not_cmp_le by blast
    have fs: "fs_loop cmp e ?c True (xs[cur := xs ! ?c]) = (d, ys)"
      using True less.prems(4) by (simp add: fs_loop.simps [of _ _ cur] Let_def)
    have "mset ys = mset (xs[cur := xs ! ?c, ?c := e]) \<and> heap key ys"
      by (rule less.hyps [OF _ down(1) _ _ fs]) (use down le less.prems(3) in auto)
    then show ?thesis using mset_move [of cur xs ?c e] down less.prems(3) by simp
  qed
qed

section \<open>Operations\<close>

lemma bubble_correct:
  assumes "hole h xs cur e" "hget h cur = Some (Some e)" "chn_idx h e = cur" "around xs cur"
  obtains d h' ys where "d_binheap_bubble cmp h e = Some (d, h')" "full h' ys" "mset ys = mset (xs[cur := e])"
    "idx_frame (insert e (set xs)) h h'"
    "if d then heap key ys else ys = xs[cur := e] \<and> (0 < cur \<longrightarrow> key (xs ! par cur) \<le> key e)"
proof -
  obtain d ys where fb: "fb_loop cmp e cur False xs = (d, ys)" by fastforce
  obtain h' where h': "bubble_loop cmp e (d_binheap_pointer cur) cur False h = Some (d, h')" "full h' ys"
    "idx_frame (insert e (set xs)) h h'"
    using bubble_sim [OF assms(1) fb] by blast
  have "cur < length xs" using assms(1) by (simp add: hole_def)
  then have c: "mset ys = mset (xs[cur := e])
      \<and> (if d then heap key ys else ys = xs[cur := e] \<and> (0 < cur \<longrightarrow> key (xs ! par cur) \<le> key e))"
    using fb_loop_correct [OF assms(4) _ _ fb] by blast
  have "d_binheap_bubble cmp h e = Some (d, h')"
    using h'(1) assms(2,3) by (simp add: d_binheap_bubble_def hget_def)
  then show thesis by (rule that [OF _ h'(2) conjunct1 [OF c] h'(3) conjunct2 [OF c]])
qed

lemma insert_bubble:
  assumes "full h xs" "heap key xs" "e \<notin> set xs" "length xs < d_bh_hwm h"
  obtains h' d h'' ys where
    "write_slot ((set_idx e (length xs) h)\<lparr>d_bh_nodes_cnt := length xs + 1\<rparr>)
       (d_binheap_pointer (length xs)) (Some e) = Some h'"
    "d_binheap_bubble cmp h' e = Some (d, h'')"
    "full h'' ys" "heap key ys" "mset ys = add_mset e (mset xs)" "idx_frame (insert e (set xs)) h h''"
proof -
  let ?n = "length xs"
  let ?h = "(set_idx e ?n h)\<lparr>d_bh_nodes_cnt := ?n + 1\<rparr>"
  have "shape ?h" "?n < d_bh_hwm ?h" using assms(1,4) by (simp_all add: full_def)
  then obtain h' where h': "write_slot ?h (d_binheap_pointer ?n) (Some e) = Some h'" "shape h'"
    "d_bh_nodes_cnt h' = d_bh_nodes_cnt ?h" "d_bh_hwm h' = d_bh_hwm ?h" "chn_idx h' = chn_idx ?h"
    "\<forall>j. hget h' j = (if j = ?n then Some (Some e) else hget ?h j)"
    using hput [of ?h ?n "Some e"] by metis
  have hol: "hole h' (xs @ [e]) ?n e"
    using assms h' unfolding hole_def full_def by (auto simp: nth_append less_Suc_eq)
  have aro: "around (xs @ [e]) ?n"
  proof -
    have lt: "par c < ?n" if "0 < c" "c < Suc ?n" for c using that by linarith
    show ?thesis
      unfolding around_def
    proof (intro conjI allI impI)
      fix i
      assume "0 < i \<and> i < length (xs @ [e]) \<and> i \<noteq> ?n \<and> par i \<noteq> ?n"
      then show "key ((xs @ [e]) ! par i) \<le> key ((xs @ [e]) ! i)"
        using assms(2) lt [of i] by (simp add: heap_def nth_append)
    next
      fix c
      assume "0 < ?n \<and> 0 < c \<and> c < length (xs @ [e]) \<and> par c = ?n"
      then show "key ((xs @ [e]) ! par ?n) \<le> key ((xs @ [e]) ! c)" using lt [of c] by simp
    qed
  qed
  have at: "hget h' ?n = Some (Some e)" "chn_idx h' e = ?n" using h' by simp_all
  obtain d h'' ys where b: "d_binheap_bubble cmp h' e = Some (d, h'')" "full h'' ys"
    "mset ys = mset ((xs @ [e])[?n := e])" "idx_frame (insert e (set (xs @ [e]))) h' h''"
    "if d then heap key ys else ys = (xs @ [e])[?n := e] \<and> (0 < ?n \<longrightarrow> key ((xs @ [e]) ! par ?n) \<le> key e)"
    by (rule bubble_correct [OF hol at aro])
  have "heap key ys"
  proof (cases d)
    case False
    then have ys: "ys = xs @ [e]" using b(5) by simp
    have up: "key (xs ! par ?n) \<le> key e" if "0 < ?n"
    proof -
      have "par ?n < ?n" using that by linarith
      then show ?thesis using b(5) False that by (simp add: nth_append)
    qed
    show ?thesis
      unfolding heap_def
    proof (intro allI impI)
      fix i
      assume i: "0 < i \<and> i < length ys"
      then have "par i < ?n" using ys by simp linarith
      then show "key (ys ! par i) \<le> key (ys ! i)"
        using i ys up assms(2) by (cases "i = ?n") (auto simp: heap_def nth_append)
    qed
  qed (use b(5) in simp)
  moreover have "idx_frame (insert e (set xs)) h h''" using b(4) h'(5) by (auto simp: idx_frame_def)
  ultimately show thesis using that [OF h'(1) b(1,2)] b(3) by simp
qed

lemma around_replace: "around xs cur \<Longrightarrow> around (xs[cur := e]) cur"
  unfolding around_def by (auto simp: nth_list_update simp del: One_nat_def)

lemma heap_init: "heap key (xs @ [x]) \<Longrightarrow> heap key xs"
  unfolding heap_def
proof (intro allI impI)
  fix i
  assume h: "\<forall>i. 0 < i \<and> i < length (xs @ [x]) \<longrightarrow> key ((xs @ [x]) ! par i) \<le> key ((xs @ [x]) ! i)"
    and i: "0 < i \<and> i < length xs"
  then have "par i < length xs" by linarith
  then show "key (xs ! par i) \<le> key (xs ! i)" using spec [OF h, of i] i by (simp add: nth_append)
qed

lemma sink_correct:
  assumes "full h xs" "cur < length xs" "around xs cur" "0 < cur \<Longrightarrow> key (xs ! par cur) \<le> key (xs ! cur)"
  obtains d h' ys where "d_binheap_sink cmp h (xs ! cur) = Some (d, h')" "full h' ys" "heap key ys"
    "mset ys = mset xs" "idx_frame (set xs) h h'"
proof -
  let ?e = "xs ! cur"
  obtain d ys where fs: "fs_loop cmp ?e cur False xs = (d, ys)" by fastforce
  obtain h' where h': "sink_loop cmp (length xs) ?e (d_binheap_pointer cur) cur False h = Some (d, h')"
    "full h' ys" "idx_frame (insert ?e (set xs)) h h'"
    using sink_sim [OF full_hole [OF assms(1,2)] fs] by blast
  have c: "mset ys = mset (xs[cur := ?e]) \<and> heap key ys"
    using fs_loop_correct [OF assms(3,4,2) fs] .
  have "d_binheap_sink cmp h ?e = Some (d, h')"
    using h'(1) assms(1,2) by (simp add: d_binheap_sink_def full_def hget_def)
  moreover have "idx_frame (set xs) h h'" using h'(3) assms(2) by (simp add: insert_absorb)
  ultimately show thesis using that h'(2) c by simp
qed

text \<open>The last node takes the place of the removed one and is moved up or, failing that, down.\<close>

lemma replace_correct:
  assumes "hole h xs k e" "hget h k = Some (Some e)" "chn_idx h e = k" "around xs k"
  obtains h' ys where
    "(case d_binheap_bubble cmp h e of
        None \<Rightarrow> None
      | Some (True, h2) \<Rightarrow> out h2
      | Some (False, h2) \<Rightarrow> (case d_binheap_sink cmp h2 e of None \<Rightarrow> None | Some (_, h3) \<Rightarrow> out h3)) = out h'"
    "full h' ys" "heap key ys" "mset ys = mset (xs[k := e])" "idx_frame (insert e (set xs)) h h'"
proof -
  obtain d h2 ys where b: "d_binheap_bubble cmp h e = Some (d, h2)" "full h2 ys" "mset ys = mset (xs[k := e])"
    "idx_frame (insert e (set xs)) h h2"
    "if d then heap key ys else ys = xs[k := e] \<and> (0 < k \<longrightarrow> key (xs ! par k) \<le> key e)"
    by (rule bubble_correct [OF assms])
  show thesis
  proof (cases d)
    case True
    then show thesis using that [of h2 ys] b by simp
  next
    case False
    have k: "k < length xs" using assms(1) by (simp add: hole_def)
    have ys: "ys = xs[k := e]" and up: "0 < k \<Longrightarrow> key (xs ! par k) \<le> key e" using b(5) False by auto
    have up': "key (ys ! par k) \<le> key (ys ! k)" if "0 < k"
    proof -
      have "par k \<noteq> k" using that by linarith
      then show ?thesis using up [OF that] k by (simp add: ys)
    qed
    have aro: "around ys k" unfolding ys by (rule around_replace [OF assms(4)])
    have k': "k < length ys" using k ys by simp
    obtain d' h3 zs where s: "d_binheap_sink cmp h2 (ys ! k) = Some (d', h3)" "full h3 zs" "heap key zs"
      "mset zs = mset ys" "idx_frame (set ys) h2 h3"
      by (rule sink_correct [OF b(2) k' aro up'])
    have "set ys \<subseteq> insert e (set xs)" using ys set_update_subset_insert by metis
    then have "idx_frame (insert e (set xs)) h h3" using idx_frame_trans [OF b(4) s(5)] by simp
    then show thesis using that [of h3 zs] b(1,3) False s ys k by simp
  qed
qed

lemma remove_correct:
  assumes "full h (zs @ [l])" "heap key (zs @ [l])" "e \<in> set (zs @ [l])" "hop_compare ops = Some cmp"
  obtains h' ys where "d_binheap_remove_locked ops (Some h) (Some e) = Some (Some h')" "full h' ys"
    "heap key ys" "mset ys = mset (zs @ [l]) - {#e#}" "chn_idx h' e = DBH_POISON"
    "idx_frame (set (zs @ [l])) h h'"
proof -
  let ?xs = "zs @ [l]" and ?n = "length zs"
  obtain k where k: "k < length ?xs" "?xs ! k = e" using assms(3) by (metis in_set_conv_nth)
  let ?h = "h\<lparr>d_bh_nodes_cnt := ?n\<rparr>"
  have at: "hget h i = Some (Some (?xs ! i))" "chn_idx h (?xs ! i) = i" if "i < length ?xs" for i
    using that assms(1) unfolding full_def by blast+
  have cnt: "d_bh_nodes_cnt h = Suc ?n" using assms(1) by (simp add: full_def)
  have dist: "distinct zs" "l \<notin> set zs" using full_distinct [OF assms(1)] by simp_all
  have fb: "full ?h zs" using full_init [OF assms(1)] .
  have pre: "chn_idx h e = k" "k \<noteq> DBH_POISON" "read_slot h (d_binheap_pointer k) = Some (Some e)"
    "read_slot h (d_binheap_pointer ?n) = Some (Some l)"
    using at [OF k(1)] at [of ?n] k full_not_poison [OF assms(1) k(1)] by (simp_all add: hget_def)
  show thesis
  proof (cases "l = e")
    case True
    then have "full (set_idx e DBH_POISON ?h) zs" using full_set_idx [OF fb] dist(2) by simp
    then show thesis
      using that [of "set_idx e DBH_POISON ?h" zs] True pre cnt k(1) heap_init [OF assms(2)] assms(4)
      by (simp add: d_binheap_remove_locked_def Let_def idx_frame_def)
  next
    case False
    then have kn: "k < ?n" "zs ! k = e" using k by (auto simp: nth_append split: if_splits)
    have "shape ?h" "k < d_bh_hwm ?h" using fb kn by (simp_all add: full_def)
    then obtain h1 where h1: "write_slot (set_idx l k ?h) (d_binheap_pointer k) (Some l) = Some h1" "shape h1"
      "d_bh_nodes_cnt h1 = ?n" "d_bh_hwm h1 = d_bh_hwm h" "chn_idx h1 = (chn_idx h)(l := k)"
      "\<forall>j. hget h1 j = (if j = k then Some (Some l) else hget h j)"
      using hput_idx [of ?h k l] by auto
    have hol: "hole h1 zs k l"
      using fb h1 kn dist by (auto simp: hole_def full_def)
    have hk: "hget h1 k = Some (Some l)" "chn_idx h1 l = k" using h1 by simp_all
    have aro: "around zs k" using heap_around [OF heap_init [OF assms(2)] kn(1)] .
    obtain h2 ys where r: "(case d_binheap_bubble cmp h1 l of
        None \<Rightarrow> None
      | Some (True, h2) \<Rightarrow> Some (Some (set_idx e DBH_POISON h2))
      | Some (False, h2) \<Rightarrow> (case d_binheap_sink cmp h2 l of None \<Rightarrow> None
          | Some (_, h3) \<Rightarrow> Some (Some (set_idx e DBH_POISON h3)))) = Some (Some (set_idx e DBH_POISON h2))"
      "full h2 ys" "heap key ys" "mset ys = mset (zs[k := l])" "idx_frame (insert l (set zs)) h1 h2"
      by (rule replace_correct [OF hol hk aro, where out = "\<lambda>h. Some (Some (set_idx e DBH_POISON h))"])
    have ms: "mset ys = mset ?xs - {#e#}" using r(4) kn False by (simp add: mset_update diff_add_mset_swap)
    have "e \<notin> set ys"
    proof -
      have "distinct (zs @ [l])" using dist by simp
      then have "count (mset (zs @ [l])) e \<le> 1" by (simp add: distinct_count_atmost_1)
      then have "count (mset ys) e = 0" unfolding ms by (simp only: count_diff count_single) simp
      then show ?thesis by (simp add: count_eq_zero_iff)
    qed
    then have "full (set_idx e DBH_POISON h2) ys" using full_set_idx [OF r(2)] by blast
    moreover have "d_binheap_remove_locked ops (Some h) (Some e) = Some (Some (set_idx e DBH_POISON h2))"
      using r(1) pre cnt kn(1) h1(1) False assms(4)
      by (simp add: d_binheap_remove_locked_def Let_def)
    moreover have "idx_frame (set ?xs) h (set_idx e DBH_POISON h2)"
      using r(5) h1(5) assms(3) by (auto simp: idx_frame_def)
    ultimately show thesis using that r(3) ms by simp
  qed
qed

end

section \<open>The heap as a priority queue\<close>

text \<open>The nodes of a heap in the order of the tables, and the invariant the operations keep.\<close>

definition heap_nodes :: "'n d_binheap \<Rightarrow> 'n list" where
  "heap_nodes h = map (\<lambda>i. the (the (hget h i))) [0..<d_bh_nodes_cnt h]"

definition binheap_inv :: "('n \<Rightarrow> 'k::linorder) \<Rightarrow> 'n d_binheap \<Rightarrow> bool" where
  "binheap_inv key h \<longleftrightarrow> full h (heap_nodes h) \<and> heap key (heap_nodes h)"

lemma full_heap_nodes: "full h xs \<Longrightarrow> heap_nodes h = xs"
  by (auto simp: full_def heap_nodes_def intro: nth_equalityI)

lemma full_grow:
  assumes "full h xs" "d_binheap_grow a1 a2 a3 h = Some (rc, h')"
  shows "full h' xs" "chn_idx h' = chn_idx h" "rc = DER_SUCCESS \<Longrightarrow> d_bh_hwm h' = d_bh_hwm h + 512"
    "rc \<noteq> DER_SUCCESS \<Longrightarrow> rc = DER_NOMEM" "a1 \<and> a2 \<and> a3 \<and> d_bh_hwm h < DBH_MAX \<Longrightarrow> rc = DER_SUCCESS"
proof -
  have sh: "shape h" using assms(1) by (simp add: full_def)
  have g: "grow_ok (a1 \<and> a2 \<and> a3) h (rc, h')"
    by (rule grow_total [OF sh, of a1 a2 a3]) (use assms(2) in simp)
  show "full h' xs"
    using g assms(1) by (auto simp: grow_ok_def full_def split: if_splits)
  show "chn_idx h' = chn_idx h" "rc = DER_SUCCESS \<Longrightarrow> d_bh_hwm h' = d_bh_hwm h + 512"
    "rc \<noteq> DER_SUCCESS \<Longrightarrow> rc = DER_NOMEM" "a1 \<and> a2 \<and> a3 \<and> d_bh_hwm h < DBH_MAX \<Longrightarrow> rc = DER_SUCCESS"
    using g by (auto simp: grow_ok_def)
qed

context heap_order
begin

lemma insert_inv:
  assumes "binheap_inv key h" "e \<notin> set (heap_nodes h)" "hop_compare ops = Some cmp"
  obtains rc h' where "d_binheap_insert allocs ops (Some h) (Some e) = Some (rc, Some h')"
    "binheap_inv key h'"
    "mset (heap_nodes h') = (if rc = DER_SUCCESS then add_mset e (mset (heap_nodes h)) else mset (heap_nodes h))"
    "idx_frame (insert e (set (heap_nodes h))) h h'"
    "allocs = (True, True, True) \<Longrightarrow> hop_enter ops = None \<or> (\<exists>f. hop_enter ops = Some f \<and> f e = DER_SUCCESS) \<Longrightarrow>
      d_bh_nodes_cnt h < DBH_MAX \<Longrightarrow> rc = DER_SUCCESS"
proof -
  let ?xs = "heap_nodes h"
  let ?enter = "case hop_enter ops of None \<Rightarrow> DER_SUCCESS | Some enter \<Rightarrow> enter e"
  have full: "full h ?xs" and hp: "heap key ?xs" using assms(1) by (simp_all add: binheap_inv_def)
  have cnt: "d_bh_nodes_cnt h = length ?xs" "length ?xs \<le> d_bh_hwm h" using full by (simp_all add: full_def)
  obtain a1 a2 a3 where al: "allocs = (a1, a2, a3)" by (cases allocs)
  define g where "g = (if length ?xs = d_bh_hwm h then d_binheap_grow a1 a2 a3 h else Some (DER_SUCCESS, h))"
  have sh: "shape h" using full by (simp add: full_def)
  have "\<exists>r. d_binheap_grow a1 a2 a3 h = Some r"
    by (rule grow_total [OF sh, of a1 a2 a3]) simp
  then have "\<exists>r. g = Some r" by (simp add: g_def)
  then obtain rc1 h1 where g: "g = Some (rc1, h1)" by auto
  have h1: "full h1 ?xs" "chn_idx h1 = chn_idx h" "rc1 = DER_SUCCESS \<Longrightarrow> length ?xs < d_bh_hwm h1"
    "a1 \<and> a2 \<and> a3 \<and> length ?xs < DBH_MAX \<Longrightarrow> rc1 = DER_SUCCESS"
    using full_grow [OF full, of a1 a2 a3 rc1 h1] g full cnt unfolding g_def
    by (cases "length ?xs = d_bh_hwm h"; simp)+
  have nodes1: "heap_nodes h1 = ?xs" "binheap_inv key h1"
    using full_heap_nodes [OF h1(1)] h1(1) hp by (simp_all add: binheap_inv_def)
  have fr1: "idx_frame (insert e (set ?xs)) h h1" using h1(2) by (simp add: idx_frame_def)
  have ins: "d_binheap_insert allocs ops (Some h) (Some e) =
      (if rc1 \<noteq> DER_SUCCESS then Some (rc1, Some h1)
       else if ?enter \<noteq> DER_SUCCESS then Some (?enter, Some h1)
       else
         (case write_slot ((set_idx e (length ?xs) h1)\<lparr>d_bh_nodes_cnt := length ?xs + 1\<rparr>)
                 (d_binheap_pointer (length ?xs)) (Some e) of
            None \<Rightarrow> None
          | Some h2 \<Rightarrow> map_option (\<lambda>(did, h3). (DER_SUCCESS, Some h3)) (d_binheap_bubble cmp h2 e)))"
    using assms(3) cnt al g unfolding g_def
    by (cases "length ?xs = d_bh_hwm h") (simp_all add: d_binheap_insert_def Let_def)
  show thesis
  proof (cases "rc1 = DER_SUCCESS \<and> ?enter = DER_SUCCESS")
    case True
    have lt: "length ?xs < d_bh_hwm h1" using h1(3) True by blast
    obtain h2 d h3 ys where w: "write_slot ((set_idx e (length ?xs) h1)\<lparr>d_bh_nodes_cnt := length ?xs + 1\<rparr>)
         (d_binheap_pointer (length ?xs)) (Some e) = Some h2"
      "d_binheap_bubble cmp h2 e = Some (d, h3)"
      "full h3 ys" "heap key ys" "mset ys = add_mset e (mset ?xs)" "idx_frame (insert e (set ?xs)) h1 h3"
      by (rule insert_bubble [OF h1(1) hp assms(2) lt])
    have "d_binheap_insert allocs ops (Some h) (Some e) = Some (DER_SUCCESS, Some h3)"
      using True w(1,2) unfolding ins by simp
    then show thesis
      using that [of DER_SUCCESS h3] w(3-6) full_heap_nodes [OF w(3)] h1(2)
      by (simp add: binheap_inv_def idx_frame_def)
  next
    case False
    define rc where "rc = (if rc1 \<noteq> DER_SUCCESS then rc1 else ?enter)"
    have ne: "rc \<noteq> DER_SUCCESS" using False by (auto simp: rc_def)
    have eq: "d_binheap_insert allocs ops (Some h) (Some e) = Some (rc, Some h1)"
      using False unfolding ins rc_def by auto
    have cond: "rc = DER_SUCCESS"
      if "allocs = (True, True, True)" "hop_enter ops = None \<or> (\<exists>f. hop_enter ops = Some f \<and> f e = DER_SUCCESS)"
        "d_bh_nodes_cnt h < DBH_MAX"
      using that h1(4) al cnt by (auto simp: rc_def)
    show thesis by (rule that [OF eq nodes1(2) _ fr1 cond]) (simp_all add: nodes1 ne)
  qed
qed

lemma remove_inv:
  assumes "binheap_inv key h" "e \<in> set (heap_nodes h)" "hop_compare ops = Some cmp"
  obtains h' where "d_binheap_remove ops (Some h) (Some e) = Some (Some h')" "binheap_inv key h'"
    "mset (heap_nodes h') = mset (heap_nodes h) - {#e#}" "chn_idx h' e = DBH_POISON"
    "idx_frame (set (heap_nodes h)) h h'"
proof -
  obtain zs l where xs: "heap_nodes h = zs @ [l]"
    using assms(2) by (metis append_butlast_last_id empty_iff empty_set)
  have f: "full h (zs @ [l])" "heap key (zs @ [l])" "e \<in> set (zs @ [l])"
    using assms(1,2) by (simp_all only: binheap_inv_def xs)
  obtain h' ys where r: "d_binheap_remove_locked ops (Some h) (Some e) = Some (Some h')" "full h' ys"
    "heap key ys" "mset ys = mset (zs @ [l]) - {#e#}" "chn_idx h' e = DBH_POISON"
    "idx_frame (set (zs @ [l])) h h'"
    by (rule remove_correct [OF f assms(3)])
  show thesis
    by (rule that [of h']) (use r full_heap_nodes [OF r(2)] xs in \<open>auto simp: binheap_inv_def d_binheap_remove_def\<close>)
qed

lemma root_inv:
  assumes "binheap_inv key h"
  shows "d_binheap_root (Some h) = Some (if heap_nodes h = [] then None else Some (hd (heap_nodes h)))"
    and "x \<in> set (heap_nodes h) \<Longrightarrow> key (hd (heap_nodes h)) \<le> key x"
proof -
  have f: "full h (heap_nodes h)" and hp: "heap key (heap_nodes h)" using assms by (simp_all add: binheap_inv_def)
  show "d_binheap_root (Some h) = Some (if heap_nodes h = [] then None else Some (hd (heap_nodes h)))"
    using f by (auto simp: d_binheap_root_def d_binheap_find_def d_binheap_find_locked_def full_def hget_def hd_conv_nth)
  show "key (hd (heap_nodes h)) \<le> key x" if "x \<in> set (heap_nodes h)"
  proof -
    obtain i where "i < length (heap_nodes h)" "heap_nodes h ! i = x" using \<open>x \<in> _\<close> by (auto simp: in_set_conv_nth)
    moreover have "heap_nodes h \<noteq> []" using \<open>x \<in> _\<close> by auto
    ultimately show ?thesis using heap_root_min [OF hp] by (auto simp: hd_conv_nth)
  qed
qed

end

section \<open>Properties\<close>

text \<open>
  Property C15. Inserting a node that is not in the heap: no assertion fails; on success the nodes
  of the heap are the old ones and the new one, on failure the old ones; in both cases the heap
  order and the positions stored in the nodes are right again, and no node outside the heap has its
  position changed. The insertion succeeds if the allocations do, \<open>hop_enter\<close> agrees and the heap
  is not at its maximal size.
\<close>

theorem binheap_insert_correct:
  fixes key :: "'n \<Rightarrow> 'k::linorder"
  assumes "\<And>a b. cmp a b \<Longrightarrow> key a \<le> key b" "\<And>a b. \<not> cmp a b \<Longrightarrow> key b \<le> key a"
    and "hop_compare ops = Some cmp" "binheap_inv key h" "e \<notin> set (heap_nodes h)"
  shows "\<exists>rc h'. d_binheap_insert allocs ops (Some h) (Some e) = Some (rc, Some h') \<and> binheap_inv key h'
    \<and> mset (heap_nodes h') = (if rc = DER_SUCCESS then add_mset e (mset (heap_nodes h)) else mset (heap_nodes h))
    \<and> (\<forall>x. x \<notin> insert e (set (heap_nodes h)) \<longrightarrow> chn_idx h' x = chn_idx h x)
    \<and> (allocs = (True, True, True) \<and> d_bh_nodes_cnt h < DBH_MAX
        \<and> (hop_enter ops = None \<or> (\<exists>f. hop_enter ops = Some f \<and> f e = DER_SUCCESS)) \<longrightarrow> rc = DER_SUCCESS)"
proof -
  have ho: "heap_order cmp key" using assms(1,2) by unfold_locales
  show ?thesis
    by (rule heap_order.insert_inv [OF ho assms(4,5,3), of allocs]) (auto simp: idx_frame_def)
qed

definition lt_ops :: "nat d_binheap_ops" where
  "lt_ops = \<lparr>hop_enter = None, hop_exit = None, hop_compare = Some (<)\<rparr>"

definition heap57 :: "nat d_binheap" where
  "heap57 = \<lparr>d_bh_nodes3 = [], d_bh_nodes2 = [], d_bh_nodes1 = Some 5 # Some 7 # replicate 510 None,
     d_bh_nodes_cnt = 2, d_bh_hwm = 512, chn_idx = (\<lambda>_. DBH_POISON)(5 := 0, 7 := 1)\<rparr>"

lemma lt_ops_compare: "hop_compare lt_ops = Some (<)"
  by (simp add: lt_ops_def)

lemma heap57_nodes: "heap_nodes heap57 = [5, 7]" "binheap_inv id heap57"
proof -
  show n: "heap_nodes heap57 = [5, 7]"
    by (simp add: heap_nodes_def heap57_def hget_def pointer_eq numeral_2_eq_2)
  have "full heap57 [5, 7]"
    by (auto simp: full_def shape_def DBH_MAX_def heap57_def hget_def pointer_eq less_Suc_eq)
  then show "binheap_inv id heap57" using n by (auto simp: binheap_inv_def heap_def less_Suc_eq)
qed

theorem binheap_insert_correct_witness:
  "\<exists>h'. d_binheap_insert (True, True, True) lt_ops (Some heap57) (Some 3) = Some (DER_SUCCESS, Some h')
    \<and> mset (heap_nodes h') = {#3, 5, 7#}"
proof -
  have n: "3 \<notin> set (heap_nodes heap57)" by (simp add: heap57_nodes)
  have c: "d_bh_nodes_cnt heap57 < DBH_MAX" by (simp add: heap57_def DBH_MAX_def)
  show ?thesis
    using binheap_insert_correct [OF _ _ lt_ops_compare heap57_nodes(2) n, of "(True, True, True)"] c
    by (auto simp: heap57_nodes lt_ops_def)
qed

text \<open>
  Property C16. Removing a node of the heap: no assertion fails, exactly that node is gone, its
  position is poisoned, and the heap order and the positions of the remaining nodes are right.
\<close>

theorem binheap_remove_correct:
  fixes key :: "'n \<Rightarrow> 'k::linorder"
  assumes "\<And>a b. cmp a b \<Longrightarrow> key a \<le> key b" "\<And>a b. \<not> cmp a b \<Longrightarrow> key b \<le> key a"
    and "hop_compare ops = Some cmp" "binheap_inv key h" "e \<in> set (heap_nodes h)"
  shows "\<exists>h'. d_binheap_remove ops (Some h) (Some e) = Some (Some h') \<and> binheap_inv key h'
    \<and> mset (heap_nodes h') = mset (heap_nodes h) - {#e#} \<and> chn_idx h' e = DBH_POISON
    \<and> (\<forall>x. x \<notin> set (heap_nodes h) \<longrightarrow> chn_idx h' x = chn_idx h x)"
proof -
  have ho: "heap_order cmp key" using assms(1,2) by unfold_locales
  show ?thesis
    by (rule heap_order.remove_inv [OF ho assms(4,5,3)]) (auto simp: idx_frame_def)
qed

text \<open>
  Property C17. Removing the root of a heap returns a node with the smallest key and removes exactly
  that node; of an empty heap it returns \<open>NULL\<close> and changes nothing.
\<close>

theorem binheap_remove_root_min:
  fixes key :: "'n \<Rightarrow> 'k::linorder"
  assumes "\<And>a b. cmp a b \<Longrightarrow> key a \<le> key b" "\<And>a b. \<not> cmp a b \<Longrightarrow> key b \<le> key a"
    and "hop_compare ops = Some cmp" "binheap_inv key h"
  shows "if d_binheap_is_empty (Some h) then d_binheap_remove_root ops (Some h) = Some (None, Some h)
    else (\<exists>e h'. d_binheap_remove_root ops (Some h) = Some (Some e, Some h') \<and> binheap_inv key h'
      \<and> e \<in> set (heap_nodes h) \<and> (\<forall>x \<in> set (heap_nodes h). key e \<le> key x)
      \<and> mset (heap_nodes h') = mset (heap_nodes h) - {#e#})"
proof -
  have ho: "heap_order cmp key" using assms(1,2) by unfold_locales
  have f: "full h (heap_nodes h)" using assms(4) by (simp add: binheap_inv_def)
  then have emp: "d_binheap_is_empty (Some h) \<longleftrightarrow> heap_nodes h = []"
    by (auto simp: d_binheap_is_empty_def full_def)
  note root = heap_order.root_inv [OF ho assms(4)]
  have loc: "d_binheap_find_locked (Some h) 0 = d_binheap_root (Some h)"
    by (simp add: d_binheap_root_def d_binheap_find_def)
  show ?thesis
  proof (cases "heap_nodes h = []")
    case True
    then show ?thesis using emp root(1) loc by (simp add: d_binheap_remove_root_def)
  next
    case False
    let ?e = "hd (heap_nodes h)"
    have mem: "?e \<in> set (heap_nodes h)" using False by simp
    obtain h' where h': "d_binheap_remove ops (Some h) (Some ?e) = Some (Some h')" "binheap_inv key h'"
      "mset (heap_nodes h') = mset (heap_nodes h) - {#?e#}"
      by (rule heap_order.remove_inv [OF ho assms(4) mem assms(3)])
    have "d_binheap_remove_root ops (Some h) = Some (Some ?e, Some h')"
      using False root(1) loc h'(1) by (simp add: d_binheap_remove_root_def d_binheap_remove_def)
    then show ?thesis using False emp mem root(2) h'(2,3) by auto
  qed
qed

theorem binheap_remove_correct_witness:
  "\<exists>h'. d_binheap_remove lt_ops (Some heap57) (Some 5) = Some (Some h') \<and> mset (heap_nodes h') = {#7#}"
proof -
  have n: "5 \<in> set (heap_nodes heap57)" by (simp add: heap57_nodes)
  show ?thesis
    using binheap_remove_correct [OF _ _ lt_ops_compare heap57_nodes(2) n] by (auto simp: heap57_nodes)
qed

theorem binheap_remove_root_min_witness:
  "\<exists>h'. d_binheap_remove_root lt_ops (Some heap57) = Some (Some 5, Some h')"
proof -
  have "\<not> d_binheap_is_empty (Some heap57)" by (simp add: d_binheap_is_empty_def heap57_def)
  then show ?thesis
    using binheap_remove_root_min [OF _ _ lt_ops_compare heap57_nodes(2)] by (force simp: heap57_nodes)
qed

end
