(* ===== verification/Heap_Life.thy ===== *)
theory Heap_Life
  imports Heap_Order
begin

text \<open>
  Creation and destruction of a binary heap: the preallocation loop ends with the requested capacity
  or with everything freed again, and destroying a heap frees each of its tables exactly once.
\<close>

section \<open>The tables of a heap\<close>

definition blocks :: "nat \<Rightarrow> block set" where
  "blocks w =
     (if 0 < w then {Nodes1} else {})
     \<union> (if 512 < w then insert Nodes2 (Chunk2 ` {i. i < 512 \<and> 512 + i * 512 < w}) else {})
     \<union> (if 262656 < w then insert Nodes3 (Table3 ` {i. i < 512 \<and> 262656 + i * 262144 < w}
           \<union> {Chunk3 i j | i j. i < 512 \<and> j < 512 \<and> 262656 + i * 262144 + j * 512 < w}) else {})"

lemma free2_loop_eq:
  assumes "\<And>k. i \<le> k \<Longrightarrow> k < i + min r (512 - i) \<Longrightarrow> k < length (d_bh_nodes2 h) \<and> d_bh_nodes2 h ! k \<noteq> []"
    and "i \<le> 512"
  shows "free2_loop h i (512 * r) =
    Some (512 * (r - (512 - i)), map Chunk2 [i..<i + min r (512 - i)])"
  using assms
proof (induction "512 - i" arbitrary: i r)
  case 0
  then show ?case by (simp add: free2_loop.simps [of _ 512] dbh_consts)
next
  case (Suc m)
  show ?case
  proof (cases r)
    case 0
    then show ?thesis by (simp add: free2_loop.simps [of _ i])
  next
    case (Suc r')
    have i: "i < 512" using Suc.hyps(2) by simp
    have IH: "free2_loop h (Suc i) (512 * r') =
        Some (512 * (r' - (512 - Suc i)), map Chunk2 [Suc i..<Suc i + min r' (512 - Suc i)])"
    proof (rule Suc.hyps(1))
      show "k < length (d_bh_nodes2 h) \<and> d_bh_nodes2 h ! k \<noteq> []"
        if "Suc i \<le> k" "k < Suc i + min r' (512 - Suc i)" for k
        using Suc.prems(1) [of k] that Suc i by simp
    qed (use Suc.hyps(2) i in simp_all)
    have eq: "i + min r (512 - i) = Suc i + min r' (512 - Suc i)" "r - (512 - i) = r' - (512 - Suc i)"
      using Suc i by simp_all
    have up: "[i..<Suc i + k] = i # [Suc i..<Suc i + k]" for k
      by (subst upt_conv_Cons) simp_all
    show ?thesis
      unfolding eq up using IH i Suc Suc.prems(1) [of i]
      by (simp add: free2_loop.simps [of _ i] dbh_consts)
  qed
qed

lemma free3_inner_eq:
  assumes "\<And>k. j \<le> k \<Longrightarrow> k < j + min r (512 - j) \<Longrightarrow>
      k < length (d_bh_nodes3 h ! a) \<and> d_bh_nodes3 h ! a ! k \<noteq> []"
    and "j \<le> 512"
  shows "free3_inner h a j (512 * r) =
    Some (512 * (r - (512 - j)), map (Chunk3 a) [j..<j + min r (512 - j)])"
  using assms
proof (induction "512 - j" arbitrary: j r)
  case 0
  then show ?case by (simp add: free3_inner.simps [of _ _ 512] dbh_consts)
next
  case (Suc m)
  show ?case
  proof (cases r)
    case 0
    then show ?thesis by (simp add: free3_inner.simps [of _ _ j])
  next
    case (Suc r')
    have j: "j < 512" using Suc.hyps(2) by simp
    have IH: "free3_inner h a (Suc j) (512 * r') =
        Some (512 * (r' - (512 - Suc j)), map (Chunk3 a) [Suc j..<Suc j + min r' (512 - Suc j)])"
    proof (rule Suc.hyps(1))
      show "k < length (d_bh_nodes3 h ! a) \<and> d_bh_nodes3 h ! a ! k \<noteq> []"
        if "Suc j \<le> k" "k < Suc j + min r' (512 - Suc j)" for k
        using Suc.prems(1) [of k] that Suc j by simp
    qed (use Suc.hyps(2) j in simp_all)
    have eq: "j + min r (512 - j) = Suc j + min r' (512 - Suc j)" "r - (512 - j) = r' - (512 - Suc j)"
      using Suc j by simp_all
    have up: "[j..<Suc j + k] = j # [Suc j..<Suc j + k]" for k
      by (subst upt_conv_Cons) simp_all
    show ?thesis
      unfolding eq up using IH j Suc Suc.prems(1) [of j]
      by (simp add: free3_inner.simps [of _ _ j] dbh_consts)
  qed
qed

text \<open>The tables freed by the outer loop from the second-level table \<open>i\<close> on, \<open>r\<close> chunks being left.\<close>

function free3_blocks :: "nat \<Rightarrow> nat \<Rightarrow> block list" where
  "free3_blocks i r =
     (if i < 512 \<and> 0 < r then map (Chunk3 i) [0..<min r 512] @ Table3 i # free3_blocks (Suc i) (r - 512)
      else [])"
  by pat_completeness auto
termination
  by (relation "measure (\<lambda>(i, r). 512 - i)") auto

declare free3_blocks.simps [simp del]

lemma free3_loop_eq:
  assumes "\<And>a. i \<le> a \<Longrightarrow> a < 512 \<Longrightarrow> 512 * (a - i) < r \<Longrightarrow> a < length (d_bh_nodes3 h)
      \<and> (\<forall>k < min (r - 512 * (a - i)) 512. k < length (d_bh_nodes3 h ! a) \<and> d_bh_nodes3 h ! a ! k \<noteq> [])"
    and "r \<le> 512 * (512 - i)" "i \<le> 512"
  shows "free3_loop h i (512 * r) = Some (0, free3_blocks i r)"
  using assms
proof (induction "512 - i" arbitrary: i r)
  case 0
  then show ?case by (simp add: free3_loop.simps [of _ 512] free3_blocks.simps [of 512])
next
  case (Suc m)
  show ?case
  proof (cases "r = 0")
    case True
    then show ?thesis by (simp add: free3_loop.simps [of _ i] free3_blocks.simps [of i])
  next
    case False
    have i: "i < 512" using Suc.hyps(2) by simp
    have here: "i < length (d_bh_nodes3 h)"
      "\<And>k. k < min r 512 \<Longrightarrow> k < length (d_bh_nodes3 h ! i) \<and> d_bh_nodes3 h ! i ! k \<noteq> []"
      using Suc.prems(1) [of i] i False by auto
    have inner: "free3_inner h i 0 (512 * r) = Some (512 * (r - 512), map (Chunk3 i) [0..<min r 512])"
      using free3_inner_eq [of 0 r h i] here(2) by simp
    have IH: "free3_loop h (Suc i) (512 * (r - 512)) = Some (0, free3_blocks (Suc i) (r - 512))"
    proof (rule Suc.hyps(1))
      fix a
      assume a: "Suc i \<le> a" "a < 512" "512 * (a - Suc i) < r - 512"
      have e: "a - i = Suc (a - Suc i)" using a(1) by simp
      show "a < length (d_bh_nodes3 h) \<and> (\<forall>k < min (r - 512 - 512 * (a - Suc i)) 512.
          k < length (d_bh_nodes3 h ! a) \<and> d_bh_nodes3 h ! a ! k \<noteq> [])"
        using Suc.prems(1) [of a] a unfolding e by simp
    qed (use Suc.hyps(2) Suc.prems(2) i in auto)
    show ?thesis
      using False i here(1) inner IH
      by (simp add: free3_loop.simps [of _ i] free3_blocks.simps [of i] dbh_consts)
  qed
qed

lemma free3_blocks_exact:
  "distinct (free3_blocks i r) \<and> set (free3_blocks i r) =
     {Table3 a | a. i \<le> a \<and> a < 512 \<and> 512 * (a - i) < r}
     \<union> {Chunk3 a j | a j. i \<le> a \<and> a < 512 \<and> j < 512 \<and> 512 * (a - i) + j < r}"
proof (induction i r rule: free3_blocks.induct)
  case (1 i r)
  show ?case
  proof (cases "i < 512 \<and> 0 < r")
    case False
    then have "free3_blocks i r = []" by (simp add: free3_blocks.simps [of i])
    then show ?thesis using False by auto
  next
    case True
    let ?c = "map (Chunk3 i) [0..<min r 512]"
    have IH: "distinct (free3_blocks (Suc i) (r - 512))"
      "set (free3_blocks (Suc i) (r - 512)) =
        {Table3 a | a. Suc i \<le> a \<and> a < 512 \<and> 512 * (a - Suc i) < r - 512}
        \<union> {Chunk3 a j | a j. Suc i \<le> a \<and> a < 512 \<and> j < 512 \<and> 512 * (a - Suc i) + j < r - 512}"
      using "1.IH" [OF True] by auto
    have eq: "free3_blocks i r = ?c @ Table3 i # free3_blocks (Suc i) (r - 512)"
      using True by (simp add: free3_blocks.simps [of i])
    have s: "512 * (a - Suc i) < r - 512 \<longleftrightarrow> 512 * (a - i) < r"
      "512 * (a - Suc i) + j < r - 512 \<longleftrightarrow> 512 * (a - i) + j < r" if "Suc i \<le> a" for a j
    proof -
      have "a - i = Suc (a - Suc i)" using that by simp
      then show "512 * (a - Suc i) < r - 512 \<longleftrightarrow> 512 * (a - i) < r"
        "512 * (a - Suc i) + j < r - 512 \<longleftrightarrow> 512 * (a - i) + j < r" by linarith+
    qed
    have at: "i \<le> a \<longleftrightarrow> a = i \<or> Suc i \<le> a" for a by auto
    have "set (free3_blocks (Suc i) (r - 512)) =
        {Table3 a | a. Suc i \<le> a \<and> a < 512 \<and> 512 * (a - i) < r}
        \<union> {Chunk3 a j | a j. Suc i \<le> a \<and> a < 512 \<and> j < 512 \<and> 512 * (a - i) + j < r}"
      unfolding IH(2) using s by blast
    moreover have "set ?c = {Chunk3 i j | j. j < 512 \<and> j < r}" by auto
    ultimately have "set (free3_blocks i r) =
        {Table3 a | a. i \<le> a \<and> a < 512 \<and> 512 * (a - i) < r}
        \<union> {Chunk3 a j | a j. i \<le> a \<and> a < 512 \<and> j < 512 \<and> 512 * (a - i) + j < r}"
      unfolding eq at using True by auto
    moreover have "distinct (free3_blocks i r)"
      unfolding eq using IH by (auto simp: distinct_map inj_on_def)
    ultimately show ?thesis by blast
  qed
qed

section \<open>Destruction\<close>

lemma lenne: "length xs = 512 \<Longrightarrow> xs \<noteq> []"
  by auto

lemma destroy_total:
  assumes "shape h"
  obtains bs z where "d_binheap_destroy_inplace h = Some (bs, z)" "distinct bs" "set bs = blocks (d_bh_hwm h)"
    "d_bh_hwm z = 0" "d_bh_nodes_cnt z = 0" "chn_idx z = chn_idx h"
proof -
  obtain m where m: "d_bh_hwm h = 512 * m" and le: "512 * m \<le> 134480384"
    using assms by (auto simp: shape_def DBH_MAX_def elim: dvdE)
  let ?z = "h\<lparr>d_bh_nodes3 := [], d_bh_nodes2 := [], d_bh_nodes1 := [], d_bh_nodes_cnt := 0, d_bh_hwm := 0\<rparr>"
  let ?m2 = "m - 1" and ?m3 = "m - 513"
  have two: "free2_loop h 0 (512 * ?m2) = Some (512 * ?m3, map Chunk2 [0..<min ?m2 512])" if "1 < m"
  proof -
    have sh: "length (d_bh_nodes2 h) = 512" "\<And>i. i < 512 \<Longrightarrow> 512 + i * 512 < 512 * m \<Longrightarrow> d_bh_nodes2 h ! i \<noteq> []"
      using assms that lenne by (auto simp: shape_def m)
    have "512 + k * 512 < 512 * m" if "k < min ?m2 512" for k using that by linarith
    then show ?thesis using free2_loop_eq [of 0 ?m2 h] sh by simp
  qed
  have three: "free3_loop h 0 (512 * ?m3) = Some (0, free3_blocks 0 ?m3)" if "513 < m"
  proof (rule free3_loop_eq)
    fix a
    assume a: "0 \<le> a" "a < 512" "512 * (a - 0) < ?m3"
    have lt: "262656 + a * 262144 < d_bh_hwm h" using a(3) m by simp
    then have sh: "length (d_bh_nodes3 h) = 512" "length (d_bh_nodes3 h ! a) = 512"
      "\<And>j. j < 512 \<Longrightarrow> 262656 + a * 262144 + j * 512 < d_bh_hwm h \<Longrightarrow> length (d_bh_nodes3 h ! a ! j) = 512"
      using assms a(2) that m by (auto simp: shape_def)
    have "262656 + a * 262144 + k * 512 < d_bh_hwm h" if "k < min (?m3 - 512 * (a - 0)) 512" for k
      using that m by simp linarith
    then show "a < length (d_bh_nodes3 h) \<and> (\<forall>k < min (?m3 - 512 * (a - 0)) 512.
        k < length (d_bh_nodes3 h ! a) \<and> d_bh_nodes3 h ! a ! k \<noteq> [])"
      using sh a(2) by (auto dest: lenne)
  qed (use le in simp_all)
  consider "m = 0" | "m = 1" | "1 < m" "m \<le> 513" | "513 < m" by linarith
  then show thesis
  proof cases
    case 1
    then show thesis
      using that [of "[]" ?z] by (simp add: d_binheap_destroy_inplace_def m blocks_def)
  next
    case 2
    then show thesis
      using that [of "[Nodes1]" ?z] by (simp add: d_binheap_destroy_inplace_def m blocks_def dbh_consts)
  next
    case 3
    let ?bs = "Nodes1 # map Chunk2 [0..<min ?m2 512] @ [Nodes2]"
    have d: "d_binheap_destroy_inplace h = Some (?bs, ?z)"
      using 3 two by (simp add: d_binheap_destroy_inplace_def m dbh_consts diff_mult_distrib2)
    have "distinct ?bs" by (auto simp: distinct_map inj_on_def)
    moreover have "set ?bs = blocks (d_bh_hwm h)"
    proof -
      have "i < 512 \<and> 512 + i * 512 < 512 * m \<longleftrightarrow> i < min ?m2 512" for i by linarith
      then show ?thesis using 3 by (auto simp: blocks_def m)
    qed
    ultimately show thesis using that [OF d] by simp
  next
    case 4
    let ?bs = "Nodes1 # (map Chunk2 [0..<min ?m2 512] @ [Nodes2]) @ free3_blocks 0 ?m3 @ [Nodes3]"
    note ex = free3_blocks_exact [of 0 ?m3]
    have d: "d_binheap_destroy_inplace h = Some (?bs, ?z)"
      using 4 two three by (simp add: d_binheap_destroy_inplace_def m dbh_consts diff_mult_distrib2)
    have "distinct ?bs" using ex by (auto simp: distinct_map inj_on_def)
    moreover have "set ?bs = blocks (d_bh_hwm h)"
    proof -
      have a: "512 + i * 512 < 512 * m \<longleftrightarrow> i < ?m2" for i by linarith
      have b: "262656 + i * 262144 + j * 512 < 512 * m \<longleftrightarrow> 512 * (i - 0) + j < ?m3" for i j by simp linarith
      have c: "262656 + i * 262144 < 512 * m \<longleftrightarrow> 512 * (i - 0) < ?m3" for i using b [of i 0] by simp
      have n: "0 < 512 * m" "512 < 512 * m" "262656 < 512 * m" using 4 by simp_all
      have s: "set ?bs = {Nodes1} \<union> insert Nodes2 (Chunk2 ` {i. i < 512 \<and> i < ?m2})
          \<union> insert Nodes3 (set (free3_blocks 0 ?m3))" by auto
      show ?thesis unfolding s blocks_def m a b c using n ex by auto
    qed
    ultimately show thesis using that [OF d] by simp
  qed
qed

section \<open>Creation\<close>

definition create_ok :: "(nat \<Rightarrow> bool \<times> bool \<times> bool) \<Rightarrow> nat \<Rightarrow> nat \<Rightarrow> rc \<Rightarrow> 'n d_binheap \<Rightarrow> bool" where
  "create_ok alloc cnt n rc h' \<longleftrightarrow>
     (rc = DER_SUCCESS \<longrightarrow> shape h' \<and> cnt \<le> d_bh_hwm h' \<and> d_bh_nodes_cnt h' = n)
     \<and> (rc \<noteq> DER_SUCCESS \<longrightarrow> rc = DER_NOMEM \<and> d_bh_hwm h' = 0)
     \<and> ((\<forall>i. alloc i = (True, True, True)) \<and> cnt \<le> DBH_MAX \<longrightarrow> rc = DER_SUCCESS)"

lemma create_loop_total:
  "shape h \<Longrightarrow> \<exists>rc h'. create_loop alloc k cnt h = Some (rc, h') \<and> create_ok alloc cnt (d_bh_nodes_cnt h) rc h'"
proof (induction alloc k cnt h rule: create_loop.induct)
  case (1 alloc k cnt h)
  show ?case
  proof (cases "d_bh_hwm h < cnt")
    case False
    then show ?thesis using "1.prems" by (simp add: create_loop.simps [of _ _ _ h] create_ok_def)
  next
    case True
    obtain a1 a2 a3 where al: "alloc k = (a1, a2, a3)" by (cases "alloc k")
    obtain rc h1 where g: "d_binheap_grow a1 a2 a3 h = Some (rc, h1)" "grow_ok (a1 \<and> a2 \<and> a3) h (rc, h1)"
      by (rule grow_total [OF "1.prems"])
    then have h1: "shape h1" "d_bh_nodes_cnt h1 = d_bh_nodes_cnt h"
      by (simp_all add: grow_ok_def)
    show ?thesis
    proof (cases "rc = DER_SUCCESS")
      case s: True
      then have eq: "create_loop alloc k cnt h = create_loop alloc (Suc k) cnt h1"
        using True al g(1) by (simp add: create_loop.simps [of _ _ _ h])
      show ?thesis
        unfolding eq using "1.IH" [OF True al [symmetric] refl g(1) refl _ h1(1)] s h1(2) by simp
    next
      case f: False
      obtain bs z where z: "d_binheap_destroy_inplace h1 = Some (bs, z)" "d_bh_hwm z = 0"
        by (rule destroy_total [OF h1(1)])
      have "create_loop alloc k cnt h = Some (rc, z)"
        using True al g(1) f z(1) by (simp add: create_loop.simps [of _ _ _ h])
      moreover have "rc = DER_NOMEM" using g(2) f by (simp add: grow_ok_def)
      moreover have "rc = DER_SUCCESS" if "\<forall>i. alloc i = (True, True, True)" "cnt \<le> DBH_MAX"
        using that g(2) al True by (auto simp: grow_ok_def)
      ultimately show ?thesis using z f by (auto simp: create_ok_def)
    qed
  qed
qed

lemma create_total:
  fixes key :: "'n \<Rightarrow> 'k::linorder"
  assumes "hop_compare ops = Some cmp"
  shows "\<exists>rc h'. d_binheap_create_inplace alloc lock_rc cnt (Some ops) (Some h) = Some (rc, Some h')
    \<and> (if rc = DER_SUCCESS then binheap_inv key h' \<and> heap_nodes h' = [] \<and> cnt \<le> d_bh_hwm h'
       else (rc = DER_NOMEM \<or> rc = lock_rc) \<and> d_bh_hwm h' = 0)
    \<and> ((\<forall>i. alloc i = (True, True, True)) \<and> cnt \<le> DBH_MAX \<and> lock_rc = DER_SUCCESS \<longrightarrow> rc = DER_SUCCESS)"
proof -
  let ?h = "h\<lparr>d_bh_nodes_cnt := 0, d_bh_hwm := 0\<rparr>"
  have "shape ?h" by (simp add: shape_def)
  then obtain rc h1 where c1: "create_loop alloc 0 cnt ?h = Some (rc, h1)" and ok: "create_ok alloc cnt 0 rc h1"
    using create_loop_total [of ?h alloc 0 cnt] by auto
  then have c: "create_loop alloc 0 cnt ?h = Some (rc, h1)"
    "rc = DER_SUCCESS \<longrightarrow> shape h1 \<and> cnt \<le> d_bh_hwm h1 \<and> d_bh_nodes_cnt h1 = 0"
    "rc \<noteq> DER_SUCCESS \<longrightarrow> rc = DER_NOMEM \<and> d_bh_hwm h1 = 0"
    "(\<forall>i. alloc i = (True, True, True)) \<and> cnt \<le> DBH_MAX \<longrightarrow> rc = DER_SUCCESS"
    unfolding create_ok_def by blast+
  show ?thesis
  proof (cases "rc = DER_SUCCESS")
    case False
    then show ?thesis using c assms by (auto simp: d_binheap_create_inplace_def)
  next
    case True
    then have sh: "shape h1" "cnt \<le> d_bh_hwm h1" "d_bh_nodes_cnt h1 = 0" using c(2) by blast+
    have "full h1 []" using sh by (simp add: full_def)
    then have inv: "binheap_inv key h1" "heap_nodes h1 = []"
      using full_heap_nodes [of h1 "[]"] by (simp_all add: binheap_inv_def heap_def)
    obtain bs z where z: "d_binheap_destroy_inplace h1 = Some (bs, z)" "d_bh_hwm z = 0"
      by (rule destroy_total [OF sh(1)])
    show ?thesis
      using True c(1) sh(2) inv z assms by (cases "lock_rc = DER_SUCCESS") (simp_all add: d_binheap_create_inplace_def)
  qed
qed

section \<open>Properties\<close>


text \<open>
  Property C19. Destroying a heap never touches a table that does not exist, frees every table that
  was allocated for its capacity exactly once, and leaves the structure with capacity \<open>0\<close>.
\<close>

theorem binheap_destroy_frees_all:
  assumes "shape h"
  shows "\<exists>bs z. d_binheap_destroy_inplace h = Some (bs, z) \<and> distinct bs \<and> set bs = blocks (d_bh_hwm h)
    \<and> d_bh_hwm z = 0 \<and> d_bh_nodes_cnt z = 0"
  by (rule destroy_total [OF assms]) blast

definition nat_ops :: "nat d_binheap_ops" where
  "nat_ops = \<lparr>hop_enter = None, hop_exit = None, hop_compare = Some (<)\<rparr>"

definition heap1 :: "nat d_binheap" where
  "heap1 = \<lparr>d_bh_nodes3 = [], d_bh_nodes2 = [], d_bh_nodes1 = Some 5 # replicate 511 None,
     d_bh_nodes_cnt = 1, d_bh_hwm = 512, chn_idx = (\<lambda>_. DBH_POISON)(5 := 0)\<rparr>"

lemma heap1_nodes: "heap_nodes heap1 = [5]" "shape heap1" "binheap_inv id heap1"
proof -
  show n: "heap_nodes heap1 = [5]" by (simp add: heap_nodes_def heap1_def hget_def pointer_eq)
  show sh: "shape heap1" by (simp add: shape_def heap1_def DBH_MAX_def)
  have "full heap1 [5]" using sh by (simp add: full_def heap1_def hget_def pointer_eq)
  then show "binheap_inv id heap1" using n by (simp add: binheap_inv_def heap_def)
qed


theorem binheap_destroy_frees_all_witness:
  "\<exists>bs z. d_binheap_destroy_inplace heap1 = Some (bs, z) \<and> set bs = blocks 512"
  using binheap_destroy_frees_all [OF heap1_nodes(2)] by (auto simp: heap1_def)

end
