(* ===== verification/Opc_Map.thy ===== *)
theory Opc_Map
  imports Crt_Prelude
begin

text \<open>
  The registration of RPC protocols, \<^verbatim>\<open>src/cart/crt_register.c\<close>: the three-level opcode map (base opcode,
  protocol version, member index), its creation and destruction, the registration of a protocol and
  the lookups. An array is a list and the null pointer is \<open>None\<close>; a failed assertion or an access
  outside an array makes an operation \<open>None\<close>. The read-write lock of the map only delimits critical
  sections; what is kept of it is whether it exists.
\<close>

section \<open>Data\<close>

text \<open>Callbacks and operation tables are named by numbers; \<open>off_t\<close> and \<open>size_t\<close> are 64-bit words.\<close>

record crt_req_format =
  crf_proc_in :: "nat option"
  crf_proc_out :: "nat option"
  crf_size_in :: u64
  crf_size_out :: u64

record crt_proto_rpc_format =
  prf_req_fmt :: "crt_req_format option"
  prf_hdlr :: "nat option"
  prf_co_ops :: "nat option"
  prf_flags :: u32

record crt_proto_format =
  cpf_name :: string
  cpf_ver :: u32
  cpf_count :: u32
  cpf_prf :: "crt_proto_rpc_format list option"
  cpf_base :: u32

record crt_opc_info =
  coi_opc :: u32
  coi_inited :: bool
  coi_proc_init :: bool
  coi_rpccb_init :: bool
  coi_coops_init :: bool
  coi_no_reply :: bool
  coi_queue_front :: bool
  coi_reset_timer :: bool
  coi_rpc_cb :: "nat option"
  coi_co_ops :: "nat option"
  coi_rpc_size :: u64
  coi_input_offset :: u64
  coi_output_offset :: u64
  coi_crf :: "crt_req_format option"

record crt_opc_map_L3 =
  L3_num_slots_total :: u32
  L3_num_slots_used :: u32
  L3_map :: "crt_opc_info list option"

record crt_opc_map_L2 =
  L2_num_slots_total :: u32
  L2_num_slots_used :: u32
  L2_map :: "crt_opc_map_L3 list option"

record crt_opc_map =
  com_lock_init :: bool
  com_pid :: nat
  com_bits :: u32
  com_num_slots_total :: u32
  com_map :: "crt_opc_map_L2 list option"

text \<open>What \<^verbatim>\<open>calloc\<close> and \<^verbatim>\<open>memset\<close> leave.\<close>

definition zeroed_info :: crt_opc_info where
  "zeroed_info =
     \<lparr>coi_opc = 0, coi_inited = False, coi_proc_init = False, coi_rpccb_init = False, coi_coops_init = False,
      coi_no_reply = False, coi_queue_front = False, coi_reset_timer = False, coi_rpc_cb = None, coi_co_ops = None,
      coi_rpc_size = 0, coi_input_offset = 0, coi_output_offset = 0, coi_crf = None\<rparr>"

lemma zeroed_info_simps [simp]:
  "\<not> coi_inited zeroed_info" "\<not> coi_queue_front zeroed_info" "\<not> coi_reset_timer zeroed_info" "\<not> coi_no_reply zeroed_info"
  by (simp_all add: zeroed_info_def)

definition zeroed_L3 :: crt_opc_map_L3 where
  "zeroed_L3 = \<lparr>L3_num_slots_total = 0, L3_num_slots_used = 0, L3_map = None\<rparr>"

definition zeroed_L2 :: crt_opc_map_L2 where
  "zeroed_L2 = \<lparr>L2_num_slots_total = 0, L2_num_slots_used = 0, L2_map = None\<rparr>"

text \<open>
  The state: the global map \<^verbatim>\<open>crt_gdata.cg_opc_map\<close>, the process id, the number of blocks allocated and not
  freed, the number of locks initialised and not destroyed, and the schedule of the allocations: \<open>ow_ok k\<close>
  says whether the \<open>k\<close>-th one succeeds.
\<close>

record opc_world =
  cg_opc_map :: "crt_opc_map option"
  ow_pid :: nat
  ow_live :: int
  ow_locks :: int
  ow_ok :: "nat \<Rightarrow> bool"
  ow_nalloc :: nat

definition opc_alloc :: "opc_world \<Rightarrow> bool \<times> opc_world" where
  "opc_alloc w =
     (ow_ok w (ow_nalloc w),
      w\<lparr>ow_nalloc := ow_nalloc w + 1, ow_live := (if ow_ok w (ow_nalloc w) then ow_live w + 1 else ow_live w)\<rparr>)"

definition opc_free :: "opc_world \<Rightarrow> opc_world" where
  "opc_free w = w\<lparr>ow_live := ow_live w - 1\<rparr>"

text \<open>
  \<^verbatim>\<open>D_REALLOC_ARRAY\<close> followed by the \<^verbatim>\<open>memset\<close> of what lies behind the \<open>used\<close> elements in use. A null pointer
  gives a new block; on failure the old block stays.
\<close>

definition realloc_zero ::
  "'a \<Rightarrow> 'a list option \<Rightarrow> nat \<Rightarrow> nat \<Rightarrow> opc_world \<Rightarrow> 'a list option \<times> opc_world" where
  "realloc_zero z old used n w =
     (if \<not> ow_ok w (ow_nalloc w) then (None, w\<lparr>ow_nalloc := ow_nalloc w + 1\<rparr>)
      else (Some (take used (case old of None \<Rightarrow> [] | Some xs \<Rightarrow> xs) @ replicate (n - used) z),
            w\<lparr>ow_nalloc := ow_nalloc w + 1, ow_live := (if old = None then ow_live w + 1 else ow_live w)\<rparr>))"

section \<open>Opcodes\<close>

definition CRT_PROTO_MAX_VER :: u32 where "CRT_PROTO_MAX_VER = 0xFF"
definition CRT_PROTO_MAX_COUNT :: u32 where "CRT_PROTO_MAX_COUNT = 0xFFFF"
definition CRT_PROTO_BASEOPC_MASK :: u32 where "CRT_PROTO_BASEOPC_MASK = 0xFF000000"
definition CRT_PROTO_VER_MASK :: u32 where "CRT_PROTO_VER_MASK = 0x00FF0000"
definition CRT_PROTO_COUNT_MASK :: u32 where "CRT_PROTO_COUNT_MASK = 0x0000FFFF"
definition CRT_OPC_MAP_BITS :: u32 where "CRT_OPC_MAP_BITS = 8"
definition CRT_OPC_INTERNAL_BASE :: u32 where "CRT_OPC_INTERNAL_BASE = 0xFF000000"
definition CRT_MAX_INPUT_SIZE :: u64 where "CRT_MAX_INPUT_SIZE = 0x4000000"
definition CRT_MAX_OUTPUT_SIZE :: u64 where "CRT_MAX_OUTPUT_SIZE = 0x4000000"

definition CRT_PROTO_OPC :: "u32 \<Rightarrow> u32 \<Rightarrow> u32 \<Rightarrow> u32" where
  "CRT_PROTO_OPC base_opc version rpc_index = (base_opc OR push_bit 16 version) OR rpc_index"

definition L1_idx :: "u32 \<Rightarrow> nat" where "L1_idx opc = unat (drop_bit 24 opc)"
definition L2_idx :: "u32 \<Rightarrow> nat" where "L2_idx opc = unat (drop_bit 16 (opc AND CRT_PROTO_VER_MASK))"
definition L3_idx :: "u32 \<Rightarrow> nat" where "L3_idx opc = unat (opc AND CRT_PROTO_COUNT_MASK)"

definition CRT_RPC_FEAT_NO_REPLY :: u32 where "CRT_RPC_FEAT_NO_REPLY = push_bit 1 1"
definition CRT_RPC_FEAT_NO_TIMEOUT :: u32 where "CRT_RPC_FEAT_NO_TIMEOUT = push_bit 2 1"
definition CRT_RPC_FEAT_QUEUE_FRONT :: u32 where "CRT_RPC_FEAT_QUEUE_FRONT = push_bit 3 1"

definition D_BIT_IS_SET :: "u32 \<Rightarrow> u32 \<Rightarrow> bool" where
  "D_BIT_IS_SET val b \<longleftrightarrow> val AND b \<noteq> 0"

definition D_ALIGNUP :: "u64 \<Rightarrow> u64 \<Rightarrow> u64" where
  "D_ALIGNUP x a = (x + (a - 1)) AND NOT (a - 1)"

section \<open>Lookup\<close>

definition crt_proto_lookup :: "crt_opc_map \<Rightarrow> u32 \<Rightarrow> rc option" where
  "crt_proto_lookup m opc =
     (if unat (com_num_slots_total m) \<le> L1_idx opc then Some DER_NONEXIST
      else
        Option.bind (com_map m) (\<lambda>l1.
        if length l1 \<le> L1_idx opc then None
        else
          let l2 = l1 ! L1_idx opc in
          if L2_num_slots_total l2 = 0 then Some DER_NONEXIST
          else if unat (L2_num_slots_total l2) \<le> L2_idx opc then Some DER_UNREG
          else
            Option.bind (L2_map l2) (\<lambda>l3s.
            if length l3s \<le> L2_idx opc then None
            else if L3_num_slots_total (l3s ! L2_idx opc) = 0 then Some DER_UNREG
            else Some DER_SUCCESS)))"

definition crt_opc_lookup :: "crt_opc_map \<Rightarrow> u32 \<Rightarrow> crt_opc_info option option" where
  "crt_opc_lookup m opc =
     (if unat (com_num_slots_total m) \<le> L1_idx opc then Some None
      else
        Option.bind (com_map m) (\<lambda>l1.
        if length l1 \<le> L1_idx opc then None
        else
          let l2 = l1 ! L1_idx opc in
          if unat (L2_num_slots_total l2) \<le> L2_idx opc then Some None
          else
            Option.bind (L2_map l2) (\<lambda>l3s.
            if length l3s \<le> L2_idx opc then None
            else
              let l3 = l3s ! L2_idx opc in
              if unat (L3_num_slots_total l3) \<le> L3_idx opc then Some None
              else
                Option.bind (L3_map l3) (\<lambda>infos.
                if length infos \<le> L3_idx opc then None else Some (Some (infos ! L3_idx opc))))))"

section \<open>Registration\<close>

text \<open>\<open>sz\<close> is \<^verbatim>\<open>sizeof(struct crt_rpc_priv)\<close>, which the compiler chooses.\<close>

definition crt_opc_reg ::
  "u64 \<Rightarrow> crt_opc_info \<Rightarrow> u32 \<Rightarrow> u32 \<Rightarrow> crt_req_format option \<Rightarrow> nat option \<Rightarrow> nat option \<Rightarrow> rc \<times> crt_opc_info" where
  "crt_opc_reg sz opc_info opc flags crf rpc_cb co_ops =
     (if coi_inited opc_info then (DER_EXIST, opc_info)
      else
        let i = opc_info\<lparr>coi_opc := opc, coi_crf := crf, coi_proc_init := True\<rparr>;
            i = (if rpc_cb \<noteq> None then i\<lparr>coi_rpc_cb := rpc_cb, coi_rpccb_init := True\<rparr> else i);
            i = (if co_ops \<noteq> None then i\<lparr>coi_co_ops := co_ops, coi_coops_init := True\<rparr> else i);
            size_in = (case crf of None \<Rightarrow> 0 | Some f \<Rightarrow> crf_size_in f);
            size_out = (case crf of None \<Rightarrow> 0 | Some f \<Rightarrow> crf_size_out f);
            i = i\<lparr>coi_inited := True\<rparr>;
            output_offset = D_ALIGNUP sz 64;
            input_offset = D_ALIGNUP (output_offset + size_out) 64
        in (DER_SUCCESS,
            i\<lparr>coi_output_offset := output_offset, coi_input_offset := input_offset,
              coi_rpc_size := sz + input_offset + size_in,
              coi_no_reply := D_BIT_IS_SET flags CRT_RPC_FEAT_NO_REPLY,
              coi_reset_timer := D_BIT_IS_SET flags CRT_RPC_FEAT_NO_TIMEOUT,
              coi_queue_front := D_BIT_IS_SET flags CRT_RPC_FEAT_QUEUE_FRONT\<rparr>))"

definition crf_too_large :: "crt_req_format option \<Rightarrow> bool" where
  "crf_too_large crf \<longleftrightarrow>
     (case crf of None \<Rightarrow> False
      | Some f \<Rightarrow> CRT_MAX_INPUT_SIZE < crf_size_in f \<or> CRT_MAX_OUTPUT_SIZE < crf_size_out f)"

definition crt_opc_reg_internal ::
  "u64 \<Rightarrow> crt_opc_info \<Rightarrow> u32 \<Rightarrow> crt_proto_rpc_format \<Rightarrow> rc \<times> crt_opc_info" where
  "crt_opc_reg_internal sz opc_info opc prf =
     (if crf_too_large (prf_req_fmt prf) then (DER_INVAL, opc_info)
      else crt_opc_reg sz opc_info opc (prf_flags prf) (prf_req_fmt prf) (prf_hdlr prf) (prf_co_ops prf))"

definition validate_base_opcode :: "u32 \<Rightarrow> bool" where
  "validate_base_opcode base_opc \<longleftrightarrow>
     \<not> (base_opc = 0 \<or> base_opc AND NOT CRT_PROTO_BASEOPC_MASK \<noteq> 0 \<or> base_opc = CRT_PROTO_BASEOPC_MASK)"

text \<open>The loop of \<open>crt_proto_reg_L3\<close>, \<open>n\<close> members to go from index \<open>i\<close> on.\<close>

fun reg_L3_loop ::
  "u64 \<Rightarrow> crt_proto_format \<Rightarrow> crt_proto_rpc_format list \<Rightarrow> nat \<Rightarrow> nat \<Rightarrow> crt_opc_info list \<Rightarrow> (rc \<times> crt_opc_info list) option"
where
  "reg_L3_loop sz cpf prfs i 0 infos = Some (DER_SUCCESS, infos)"
| "reg_L3_loop sz cpf prfs i (Suc n) infos =
     (if length prfs \<le> i \<or> length infos \<le> i then None
      else
        let (rc, info) = crt_opc_reg_internal sz (infos ! i)
                           (CRT_PROTO_OPC (cpf_base cpf) (cpf_ver cpf) (of_nat i)) (prfs ! i);
            infos = infos[i := info]
        in if rc \<noteq> DER_SUCCESS then Some (rc, infos)
           else reg_L3_loop sz cpf prfs (Suc i) n infos)"

definition grow_L3 :: "crt_opc_map_L3 \<Rightarrow> u32 \<Rightarrow> opc_world \<Rightarrow> crt_opc_map_L3 option \<times> opc_world" where
  "grow_L3 l3 cnt w =
     (if L3_num_slots_total l3 < cnt then
        let (info_array, w) = realloc_zero zeroed_info (L3_map l3) (unat (L3_num_slots_total l3)) (unat cnt) w in
        (case info_array of
           None \<Rightarrow> (None, w)
         | Some a \<Rightarrow> (Some (l3\<lparr>L3_map := Some a, L3_num_slots_total := cnt\<rparr>), w))
      else (Some l3, w))"

definition crt_proto_reg_L3 ::
  "u64 \<Rightarrow> crt_opc_map_L3 \<Rightarrow> crt_proto_format \<Rightarrow> opc_world \<Rightarrow> (rc \<times> crt_opc_map_L3 \<times> opc_world) option" where
  "crt_proto_reg_L3 sz l3 cpf w =
     (let (g, w) = grow_L3 l3 (cpf_count cpf) w in
      case g of
        None \<Rightarrow> Some (DER_NOMEM, l3, w)
      | Some l3 \<Rightarrow>
          if cpf_count cpf = 0 then Some (DER_SUCCESS, l3, w)
          else
            Option.bind (cpf_prf cpf) (\<lambda>prfs.
            Option.bind (L3_map l3) (\<lambda>infos.
            Option.bind (reg_L3_loop sz cpf prfs 0 (unat (cpf_count cpf)) infos) (\<lambda>(rc, infos).
              Some (rc, l3\<lparr>L3_map := Some infos\<rparr>, w)))))"

text \<open>\<open>get_L3_map\<close> grows the array of versions if it has to and returns the index of the entry.\<close>

definition get_L3_map :: "crt_opc_map_L2 \<Rightarrow> crt_proto_format \<Rightarrow> opc_world \<Rightarrow> crt_opc_map_L2 option \<times> opc_world" where
  "get_L3_map l2 cpf w =
     (if L2_num_slots_total l2 < cpf_ver cpf + 1 then
        let (new_map, w) = realloc_zero zeroed_L3 (L2_map l2) (unat (L2_num_slots_total l2)) (unat (cpf_ver cpf + 1)) w in
        (case new_map of
           None \<Rightarrow> (None, w)
         | Some a \<Rightarrow> (Some (l2\<lparr>L2_map := Some a, L2_num_slots_total := cpf_ver cpf + 1\<rparr>), w))
      else (Some l2, w))"

definition crt_proto_reg_L2 ::
  "u64 \<Rightarrow> crt_opc_map_L2 \<Rightarrow> crt_proto_format \<Rightarrow> opc_world \<Rightarrow> (rc \<times> crt_opc_map_L2 \<times> opc_world) option" where
  "crt_proto_reg_L2 sz l2 cpf w =
     (let (g, w) = get_L3_map l2 cpf w in
      case g of
        None \<Rightarrow> Some (DER_NOMEM, l2, w)
      | Some l2 \<Rightarrow>
          Option.bind (L2_map l2) (\<lambda>l3s.
          if length l3s \<le> unat (cpf_ver cpf) then None
          else
            let l3 = l3s ! unat (cpf_ver cpf);
                l2 = (if L3_num_slots_total l3 = 0 then l2\<lparr>L2_num_slots_used := L2_num_slots_used l2 + 1\<rparr> else l2)
            in Option.bind (crt_proto_reg_L3 sz l3 cpf w) (\<lambda>(rc, l3, w).
                 Some (rc, l2\<lparr>L2_map := Some (l3s[unat (cpf_ver cpf) := l3])\<rparr>, w))))"

definition crt_proto_reg_L1 :: "u64 \<Rightarrow> crt_proto_format \<Rightarrow> opc_world \<Rightarrow> (rc \<times> opc_world) option" where
  "crt_proto_reg_L1 sz cpf w =
     Option.bind (cg_opc_map w) (\<lambda>m.
       let index = L1_idx (cpf_base cpf) in
       if unat (com_num_slots_total m) \<le> index then None
       else
         Option.bind (com_map m) (\<lambda>l1.
         if length l1 \<le> index then None
         else
           Option.bind (crt_proto_reg_L2 sz (l1 ! index) cpf w) (\<lambda>(rc, l2, w).
             Some (rc, w\<lparr>cg_opc_map := Some (m\<lparr>com_map := Some (l1[index := l2])\<rparr>)\<rparr>))))"

definition crt_proto_register_common :: "u64 \<Rightarrow> crt_proto_format \<Rightarrow> opc_world \<Rightarrow> (rc \<times> opc_world) option" where
  "crt_proto_register_common sz cpf w =
     (if CRT_PROTO_MAX_VER < cpf_ver cpf then Some (DER_INVAL, w)
      else if CRT_PROTO_MAX_COUNT < cpf_count cpf then Some (DER_INVAL, w)
      else if cpf_count cpf = 0 then Some (DER_INVAL, w)
      else if cpf_prf cpf = None then Some (DER_INVAL, w)
      else crt_proto_reg_L1 sz cpf w)"

definition crt_proto_register :: "u64 \<Rightarrow> crt_proto_format option \<Rightarrow> opc_world \<Rightarrow> (rc \<times> opc_world) option" where
  "crt_proto_register sz cpf w =
     (case cpf of
        None \<Rightarrow> Some (DER_INVAL, w)
      | Some f \<Rightarrow>
          if \<not> validate_base_opcode (cpf_base f) then Some (DER_INVAL, w)
          else crt_proto_register_common sz f w)"

definition crt_proto_register_internal :: "u64 \<Rightarrow> crt_proto_format option \<Rightarrow> opc_world \<Rightarrow> (rc \<times> opc_world) option" where
  "crt_proto_register_internal sz cpf w =
     (case cpf of
        None \<Rightarrow> Some (DER_INVAL, w)
      | Some f \<Rightarrow>
          if cpf_base f XOR CRT_PROTO_BASEOPC_MASK \<noteq> 0 then Some (DER_INVAL, w)
          else crt_proto_register_common sz f w)"

text \<open>
  \<open>crt_internal_rpc_register\<close> of \<^verbatim>\<open>src/cart/crt_rpc.c\<close>; the member RPCs of \<^verbatim>\<open>crt_internal_rpcs\<close>, whose formats
  the preprocessor generates, are an argument.
\<close>

definition crt_internal_rpc_register :: "u64 \<Rightarrow> crt_proto_rpc_format list \<Rightarrow> opc_world \<Rightarrow> (rc \<times> opc_world) option" where
  "crt_internal_rpc_register sz rpcs w =
     crt_proto_register_internal sz
       (Some \<lparr>cpf_name = ''internal-proto'', cpf_ver = 0, cpf_count = of_nat (length rpcs), cpf_prf = Some rpcs,
              cpf_base = CRT_OPC_INTERNAL_BASE\<rparr>) w"

section \<open>Destruction\<close>

definition crt_opc_map_L3_destroy :: "crt_opc_map_L3 \<Rightarrow> opc_world \<Rightarrow> crt_opc_map_L3 \<times> opc_world" where
  "crt_opc_map_L3_destroy l3 w =
     (let l3 = l3\<lparr>L3_num_slots_total := 0, L3_num_slots_used := 0\<rparr> in
      if L3_map l3 \<noteq> None then (l3\<lparr>L3_map := None\<rparr>, opc_free w) else (l3, w))"

fun L2_destroy_loop ::
  "nat \<Rightarrow> nat \<Rightarrow> crt_opc_map_L3 list \<Rightarrow> opc_world \<Rightarrow> (crt_opc_map_L3 list \<times> opc_world) option" where
  "L2_destroy_loop i 0 l3s w = Some (l3s, w)"
| "L2_destroy_loop i (Suc n) l3s w =
     (if length l3s \<le> i then None
      else let (l3, w) = crt_opc_map_L3_destroy (l3s ! i) w in L2_destroy_loop (Suc i) n (l3s[i := l3]) w)"

definition crt_opc_map_L2_destroy :: "crt_opc_map_L2 \<Rightarrow> opc_world \<Rightarrow> (crt_opc_map_L2 \<times> opc_world) option" where
  "crt_opc_map_L2_destroy l2 w =
     Option.bind
       (L2_destroy_loop 0 (unat (L2_num_slots_total l2)) (case L2_map l2 of None \<Rightarrow> [] | Some xs \<Rightarrow> xs) w) (\<lambda>(l3s, w).
       let l2' = l2\<lparr>L2_num_slots_total := 0, L2_num_slots_used := 0\<rparr> in
       Some (if L2_map l2' \<noteq> None then (l2'\<lparr>L2_map := None\<rparr>, opc_free w) else (l2', w)))"

fun L1_destroy_loop ::
  "nat \<Rightarrow> nat \<Rightarrow> crt_opc_map_L2 list \<Rightarrow> opc_world \<Rightarrow> (crt_opc_map_L2 list \<times> opc_world) option" where
  "L1_destroy_loop i 0 l2s w = Some (l2s, w)"
| "L1_destroy_loop i (Suc n) l2s w =
     (if length l2s \<le> i then None
      else
        Option.bind (crt_opc_map_L2_destroy (l2s ! i) w) (\<lambda>(l2, w). L1_destroy_loop (Suc i) n (l2s[i := l2]) w))"

definition crt_opc_map_destroy :: "crt_opc_map option \<Rightarrow> opc_world \<Rightarrow> opc_world option" where
  "crt_opc_map_destroy map_p w =
     Option.bind map_p (\<lambda>m.
       Option.bind
         (case com_map m of
            None \<Rightarrow> Some w
          | Some l2s \<Rightarrow>
              Option.bind (L1_destroy_loop 0 (unat (com_num_slots_total m)) l2s w) (\<lambda>(l2s, w). Some (opc_free w))) (\<lambda>w.
         let w = (if com_lock_init m \<and> com_pid m = ow_pid w then w\<lparr>ow_locks := ow_locks w - 1\<rparr> else w)
         in Some (opc_free (w\<lparr>cg_opc_map := None\<rparr>))))"

section \<open>Creation\<close>

definition crt_opc_map_L2_create :: "crt_opc_map_L2 \<Rightarrow> opc_world \<Rightarrow> rc \<times> crt_opc_map_L2 \<times> opc_world" where
  "crt_opc_map_L2_create l2 w =
     (let (a, w) = opc_alloc w in
      if \<not> a then (DER_NOMEM, l2\<lparr>L2_map := None\<rparr>, w)
      else (DER_SUCCESS, l2\<lparr>L2_map := Some (replicate 32 zeroed_L3)\<rparr>, w))"

fun create_L2_loop ::
  "nat \<Rightarrow> nat \<Rightarrow> crt_opc_map_L2 list \<Rightarrow> opc_world \<Rightarrow> (rc \<times> crt_opc_map_L2 list \<times> opc_world) option" where
  "create_L2_loop i 0 l2s w = Some (DER_SUCCESS, l2s, w)"
| "create_L2_loop i (Suc n) l2s w =
     (if length l2s \<le> i then None
      else
        let (rc, l2, w) = crt_opc_map_L2_create (l2s ! i) w; l2s = l2s[i := l2] in
        if rc \<noteq> DER_SUCCESS then Some (rc, l2s, w) else create_L2_loop (Suc i) n l2s w)"

text \<open>\<open>count = ~(0xFFFFFFFFUL >> bits << bits) + 1\<close>, computed in 64 bits and stored in 32.\<close>

definition opc_map_count :: "u32 \<Rightarrow> u32" where
  "opc_map_count bits = ucast (NOT (push_bit (unat bits) (drop_bit (unat bits) (0xFFFFFFFF :: u64))) + 1)"

text \<open>
  The second half of the creation, from the initialisation of the lock on; \<open>lock_rc\<close> is its result. On a failure the
  map is destroyed again.
\<close>

definition opc_map_setup ::
  "u64 \<Rightarrow> crt_proto_rpc_format list \<Rightarrow> rc \<Rightarrow> crt_opc_map \<Rightarrow> opc_world \<Rightarrow> (rc \<times> opc_world) option" where
  "opc_map_setup sz rpcs lock_rc m w =
     (if lock_rc \<noteq> DER_SUCCESS then map_option (\<lambda>w. (lock_rc, w)) (crt_opc_map_destroy (Some m) w)
      else
        let w = w\<lparr>ow_locks := ow_locks w + 1, cg_opc_map := Some (m\<lparr>com_lock_init := True\<rparr>)\<rparr> in
        Option.bind (crt_internal_rpc_register sz rpcs w) (\<lambda>(rc, w).
          if rc \<noteq> DER_SUCCESS then map_option (\<lambda>w. (rc, w)) (crt_opc_map_destroy (cg_opc_map w) w)
          else Some (DER_SUCCESS, w)))"

definition crt_opc_map_create ::
  "u64 \<Rightarrow> crt_proto_rpc_format list \<Rightarrow> rc \<Rightarrow> u32 \<Rightarrow> opc_world \<Rightarrow> (rc \<times> opc_world) option" where
  "crt_opc_map_create sz rpcs lock_rc bits w =
     (let (a, w) = opc_alloc w in
      if \<not> a then Some (DER_NOMEM, w)
      else if 64 \<le> unat bits then None
      else
        let m = \<lparr>com_lock_init = False, com_pid = ow_pid w, com_bits = bits, com_num_slots_total = 0, com_map = None\<rparr>;
            count = opc_map_count bits;
            (a, w) = opc_alloc w
        in
        if \<not> a then map_option (\<lambda>w. (DER_NOMEM, w)) (crt_opc_map_destroy (Some m) w)
        else
          Option.bind (create_L2_loop 0 16 (replicate (unat count) zeroed_L2) w) (\<lambda>(rc, l2s, w).
            let m = m\<lparr>com_num_slots_total := count, com_map := Some l2s\<rparr> in
            if rc \<noteq> DER_SUCCESS then map_option (\<lambda>w. (rc, w)) (crt_opc_map_destroy (Some m) w)
            else opc_map_setup sz rpcs lock_rc m w))"

section \<open>Protocol queries\<close>

definition crt_proto_query_local :: "u32 \<Rightarrow> u32 \<Rightarrow> opc_world \<Rightarrow> rc option" where
  "crt_proto_query_local base_opc ver w =
     Option.bind (cg_opc_map w) (\<lambda>m. crt_proto_lookup m (CRT_PROTO_OPC base_opc ver 0))"

text \<open>The loop of \<open>crt_hdlr_proto_query\<close>: \<open>n\<close> entries to go from index \<open>i\<close> on.\<close>

fun query_loop :: "u32 \<Rightarrow> u32 list \<Rightarrow> opc_world \<Rightarrow> nat \<Rightarrow> nat \<Rightarrow> u32 \<Rightarrow> rc \<Rightarrow> rc \<Rightarrow> (u32 \<times> rc \<times> rc) option" where
  "query_loop base vers w i 0 high_ver rc_tmp rc = Some (high_ver, rc_tmp, rc)"
| "query_loop base vers w i (Suc n) high_ver rc_tmp rc =
     (if length vers \<le> i then None
      else
        let ver = vers ! i in
        if ver < high_ver then query_loop base vers w (Suc i) n high_ver rc_tmp rc
        else
          Option.bind (crt_proto_query_local base ver w) (\<lambda>rc_tmp.
          if rc_tmp \<noteq> DER_SUCCESS then query_loop base vers w (Suc i) n high_ver rc_tmp rc
          else if high_ver \<le> ver then query_loop base vers w (Suc i) n ver rc_tmp DER_SUCCESS
          else query_loop base vers w (Suc i) n high_ver rc_tmp rc))"

text \<open>
  The reply of \<open>crt_hdlr_proto_query\<close>, the fields \<open>pq_ver\<close> and \<open>pq_rc\<close>: \<open>vers\<close> is the array the request
  carries and \<open>cnt\<close> its field \<open>pq_ver_count\<close>.
\<close>

definition crt_hdlr_proto_query :: "u32 \<Rightarrow> u32 list option \<Rightarrow> int \<Rightarrow> opc_world \<Rightarrow> (u32 \<times> rc) option" where
  "crt_hdlr_proto_query base version_array cnt w =
     Option.bind version_array (\<lambda>vers.
     if cg_opc_map w = None then None
     else
       Option.bind (query_loop base vers w 0 (nat cnt) 0 DER_NONEXIST DER_NONEXIST) (\<lambda>(high_ver, rc_tmp, rc).
         Some (high_ver, if rc \<noteq> DER_SUCCESS then rc_tmp else rc)))"

end
