(* ===== verification/Rpc_Priv.thy ===== *)
theory Rpc_Priv
  imports Crt_Prelude Heap_Life Opc_Map
begin

text \<open>
  The RPC descriptor of \<^verbatim>\<open>src/cart/crt_rpc.h\<close> (\<^verbatim>\<open>struct crt_rpc_priv\<close>) as far as the context, the
  timeout heap and the flow control read or write it, its reference count, and the operation
  table \<^verbatim>\<open>crt_timeout_bh_ops\<close> of \<^verbatim>\<open>src/cart/crt_rpc.c\<close> with which a context keeps the descriptors in a
  binary heap ordered by time stamp. A descriptor is named by its address, a natural number; the
  memory is a function from addresses to descriptors.
\<close>

section \<open>The descriptor\<close>

datatype crt_rpc_state =
    RPC_STATE_INITED | RPC_STATE_QUEUED | RPC_STATE_REQ_SENT | RPC_STATE_REPLY_RECVED
  | RPC_STATE_COMPLETED | RPC_STATE_CANCELED | RPC_STATE_TIMEOUT | RPC_STATE_ADDR_LOOKUP
  | RPC_STATE_URI_LOOKUP | RPC_STATE_FWD_UNREACH

text \<open>
  Pointers are optional addresses: \<open>cr_ctx\<close> the context, \<open>crp_epi\<close> the endpoint record, \<open>crp_ul_req\<close>
  the request that looks up an address. \<open>crp_complete_cb\<close> and \<open>crp_hg_hdl\<close> say whether the pointer
  is set; \<open>crp_reply_rc\<close> is \<open>crp_reply_hdr.cch_rc\<close>.
\<close>

record crt_rpc_priv =
  cr_opc :: u32
  cr_ctx :: "nat option"
  ep_rank :: d_rank_t
  crp_timeout_sec :: u32
  crp_timeout_ts :: u64
  crp_complete_cb :: bool
  crp_epi :: "nat option"
  crp_state :: crt_rpc_state
  crp_hg_hdl :: bool
  crp_ul_req :: "nat option"
  crp_in_binheap :: bool
  crp_ctx_tracked :: bool
  crp_on_wire :: bool
  crp_refcount :: u32
  crp_reply_rc :: rc
  crp_opc_info :: crt_opc_info

type_synonym rpc_mem = "nat \<Rightarrow> crt_rpc_priv"

section \<open>The operation table of the timeout heap\<close>

definition timeout_bp_node_enter :: "nat \<Rightarrow> rc" where
  "timeout_bp_node_enter e = DER_SUCCESS"

definition timeout_bp_node_exit :: "nat \<Rightarrow> rc" where
  "timeout_bp_node_exit e = DER_SUCCESS"

definition timeout_bp_node_cmp :: "rpc_mem \<Rightarrow> nat \<Rightarrow> nat \<Rightarrow> bool" where
  "timeout_bp_node_cmp m a b \<longleftrightarrow> crp_timeout_ts (m a) < crp_timeout_ts (m b)"

definition crt_timeout_bh_ops :: "rpc_mem \<Rightarrow> nat d_binheap_ops" where
  "crt_timeout_bh_ops m =
     \<lparr>hop_enter = Some timeout_bp_node_enter, hop_exit = Some timeout_bp_node_exit,
      hop_compare = Some (timeout_bp_node_cmp m)\<rparr>"

interpretation timeout_order: heap_order "timeout_bp_node_cmp m" "\<lambda>r. crp_timeout_ts (m r)" for m
  by unfold_locales (auto simp: timeout_bp_node_cmp_def)

end
