(* ===== verification/Hlc.thy ===== *)
theory Hlc
  imports Crt_Prelude
begin

text \<open>
  The hybrid logical clock of \<^verbatim>\<open>src/cart/crt_hlc.c\<close>: the clock value of a process is the 64-bit word
  \<open>crt_hlc\<close>, whose upper 48 bits follow the physical time and whose lower 16 bits count. The two
  operations read the physical clock once and then retry a compare-and-exchange; the value other
  threads may have stored between the read and the exchange is given by an interference function,
  and the number of attempts by a fuel argument, for which the lemmas give enough values.
  The last part runs the operations in several processes that exchange time stamps and shows that
  the stamps respect the happens-before order.
\<close>

section \<open>Operations\<close>

definition CRT_HLC_MASK :: u64 where "CRT_HLC_MASK = 0xFFFF"
definition NSEC_PER_SEC :: u64 where "NSEC_PER_SEC = 1000000000"

text \<open>A reading of the system clock: \<open>None\<close> when \<open>clock_gettime\<close> fails, else seconds and nanoseconds.\<close>

type_synonym timespec = "(u64 \<times> u64) option"

definition crt_hlc_localtime_get :: "timespec \<Rightarrow> u64 \<Rightarrow> u64" where
  "crt_hlc_localtime_get now hlc =
     (case now of None \<Rightarrow> hlc | Some (tv_sec, tv_nsec) \<Rightarrow> tv_sec * NSEC_PER_SEC + tv_nsec) AND NOT CRT_HLC_MASK"

text \<open>The value the body of the loop of \<open>crt_hlc_get\<close> computes, and the loop.\<close>

definition hlc_next :: "u64 \<Rightarrow> u64 \<Rightarrow> u64" where
  "hlc_next pt hlc = (if hlc AND NOT CRT_HLC_MASK < pt then pt else hlc + 1)"

definition hlc_next_msg :: "u64 \<Rightarrow> u64 \<Rightarrow> u64 \<Rightarrow> u64" where
  "hlc_next_msg msg pt hlc =
     (let ml = msg AND NOT CRT_HLC_MASK in
      if hlc AND NOT CRT_HLC_MASK < ml then (if ml < pt then pt else msg + 1)
      else if hlc AND NOT CRT_HLC_MASK < pt then pt
      else if pt \<le> ml then (if hlc < msg then msg else hlc) + 1
      else hlc + 1)"

text \<open>
  \<open>env i hlc\<close> gives the shared word at the exchange of attempt \<open>i\<close> when it was \<open>hlc\<close> at the read, and
  whether the exchange fails although the words agree, as the weak exchange of
  \<^verbatim>\<open>src/include/gurt/atomic.h\<close> may. The result is the returned value and the word left in \<open>crt_hlc\<close>.
\<close>

fun cas_loop :: "nat \<Rightarrow> (u64 \<Rightarrow> u64) \<Rightarrow> (nat \<Rightarrow> u64 \<Rightarrow> u64 \<times> bool) \<Rightarrow> nat \<Rightarrow> u64 \<Rightarrow> (u64 \<times> u64) option" where
  "cas_loop 0 nxt env i crt_hlc = None"
| "cas_loop (Suc fuel) nxt env i crt_hlc =
     (let hlc = crt_hlc; ret = nxt hlc; (cur, weak) = env i crt_hlc in
      if cur = hlc \<and> \<not> weak then Some (ret, ret) else cas_loop fuel nxt env (Suc i) cur)"

definition crt_hlc_get :: "nat \<Rightarrow> (nat \<Rightarrow> u64 \<Rightarrow> u64 \<times> bool) \<Rightarrow> timespec \<Rightarrow> u64 \<Rightarrow> (u64 \<times> u64) option" where
  "crt_hlc_get fuel env now crt_hlc =
     (let pt = crt_hlc_localtime_get now crt_hlc in cas_loop fuel (hlc_next pt) env 0 crt_hlc)"

definition crt_hlc_get_msg ::
  "nat \<Rightarrow> (nat \<Rightarrow> u64 \<Rightarrow> u64 \<times> bool) \<Rightarrow> timespec \<Rightarrow> u64 \<Rightarrow> u64 \<Rightarrow> (u64 \<times> u64) option" where
  "crt_hlc_get_msg fuel env now msg crt_hlc =
     (let pt = crt_hlc_localtime_get now crt_hlc in cas_loop fuel (hlc_next_msg msg pt) env 0 crt_hlc)"

definition crt_hlc2sec :: "u64 \<Rightarrow> u64" where
  "crt_hlc2sec hlc = (hlc AND NOT CRT_HLC_MASK) div NSEC_PER_SEC"

section \<open>The upper and the lower part of a clock value\<close>

lemma unat_and_not_mask: "unat (x AND NOT CRT_HLC_MASK) = unat x div 65536 * 65536"
proof -
  have m: "CRT_HLC_MASK = mask 16" by (simp add: CRT_HLC_MASK_def mask_eq_exp_minus_1)
  have "x AND NOT (mask 16) = push_bit 16 (drop_bit 16 x)"
    by (rule bit_word_eqI) (auto simp: bit_simps)
  then have "unat (x AND NOT CRT_HLC_MASK) = unat (x div 65536 * 65536)"
    using m by (simp add: push_bit_eq_mult drop_bit_eq_div)
  also have "\<dots> = unat x div 65536 * 65536"
  proof -
    have "unat x div 65536 * 65536 \<le> unat x" by simp
    also have "\<dots> < 2 ^ 64" using unsigned_less [of x] by simp
    finally show ?thesis by (simp add: unat_word_ariths unat_div_distrib)
  qed
  finally show ?thesis .
qed

lemma upper_le: "x AND NOT CRT_HLC_MASK \<le> x"
  by (simp add: word_le_nat_alt unat_and_not_mask)

lemma localtime_aligned: "\<exists>n. unat (crt_hlc_localtime_get now hlc) = n * 65536"
  by (auto simp: crt_hlc_localtime_get_def unat_and_not_mask)

lemma upper_less: "\<lbrakk>x AND NOT CRT_HLC_MASK < pt; \<exists>n. unat pt = n * 65536\<rbrakk> \<Longrightarrow> x < pt"
  by (auto simp: word_less_nat_alt unat_and_not_mask div_less_iff_less_mult)

lemma not_upper_less: "\<not> x AND NOT CRT_HLC_MASK < pt \<Longrightarrow> pt \<le> x"
  using upper_le [of x] by (simp add: not_less order_trans)

lemma word_less_inc: "(x :: u64) \<noteq> - 1 \<Longrightarrow> x < x + 1"
proof -
  assume "x \<noteq> - 1"
  then have "unat x \<noteq> unat (- 1 :: u64)" by (simp add: word_unat_eq_iff)
  moreover have "unat x < 2 ^ 64" by (rule order_less_le_trans [OF unsigned_less]) simp
  ultimately have "unat x + 1 < 2 ^ 64" by (simp add: unsigned_minus_1_eq_mask mask_eq_exp_minus_1)
  then show ?thesis by (simp add: word_less_nat_alt unat_word_ariths)
qed

text \<open>The two updates move the clock forward, beyond the message and not behind the physical time.\<close>

lemma hlc_next_greater:
  assumes "hlc \<noteq> - 1" "\<exists>n. unat pt = n * 65536"
  shows "hlc < hlc_next pt hlc" "pt \<le> hlc_next pt hlc"
  using assms upper_less [of hlc pt] not_upper_less [of hlc pt] word_less_inc [of hlc]
  by (auto simp: hlc_next_def intro: order_trans less_imp_le)

lemma hlc_next_msg_greater:
  assumes "hlc \<noteq> - 1" "msg \<noteq> - 1" "\<exists>n. unat pt = n * 65536"
  shows "hlc < hlc_next_msg msg pt hlc" "msg < hlc_next_msg msg pt hlc" "pt \<le> hlc_next_msg msg pt hlc"
proof -
  let ?ml = "msg AND NOT CRT_HLC_MASK" and ?hl = "hlc AND NOT CRT_HLC_MASK"
  have ml: "\<exists>n. unat ?ml = n * 65536" by (auto simp: unat_and_not_mask)
  note less = upper_less [OF _ assms(3)] upper_less [OF _ ml]
  note le = upper_le [of msg] upper_le [of hlc]
  note inc = word_less_inc [OF assms(1)] word_less_inc [OF assms(2)]
  have "hlc < hlc_next_msg msg pt hlc \<and> msg < hlc_next_msg msg pt hlc \<and> pt \<le> hlc_next_msg msg pt hlc"
  proof (cases "?hl < ?ml")
    case True
    then have "hlc < ?ml" by (rule less(2))
    then show ?thesis using True less(1) [of msg] le inc
      by (auto simp: hlc_next_msg_def Let_def not_less)
  next
    case a: False
    show ?thesis
    proof (cases "?hl < pt")
      case True
      then have "hlc < pt" "msg < pt" using a less(1) [of hlc] less(1) [of msg] by auto
      then show ?thesis using a True by (simp add: hlc_next_msg_def Let_def)
    next
      case b: False
      then have "pt \<le> hlc" using le by (auto intro: order_trans simp: not_less)
      moreover have "\<not> pt \<le> ?ml \<Longrightarrow> msg < pt" using less(1) [of msg] by (simp add: not_le)
      ultimately show ?thesis using a b inc
        by (auto simp: hlc_next_msg_def Let_def not_less intro: order_trans less_imp_le)
    qed
  qed
  then show "hlc < hlc_next_msg msg pt hlc" "msg < hlc_next_msg msg pt hlc" "pt \<le> hlc_next_msg msg pt hlc"
    by simp_all
qed

section \<open>The retry loop\<close>

lemma cas_loop_Some:
  "cas_loop fuel nxt env i h = Some (ret, w) \<Longrightarrow>
     \<exists>k cur. k < fuel \<and> env (i + k) cur = (cur, False) \<and> ret = nxt cur \<and> w = ret"
proof (induction fuel nxt env i h rule: cas_loop.induct)
  case (2 fuel nxt env i h)
  obtain cur weak where e: "env i h = (cur, weak)" by (cases "env i h")
  show ?case
  proof (cases "cur = h \<and> \<not> weak")
    case True
    then show ?thesis using "2.prems" e by (intro exI [of _ 0] exI [of _ h]) (auto simp: Let_def)
  next
    case False
    then have "cas_loop fuel nxt env (Suc i) cur = Some (ret, w)"
      using "2.prems" e by (auto simp: Let_def)
    then obtain k c where "k < fuel" "env (Suc i + k) c = (c, False)" "ret = nxt c" "w = ret"
      using "2.IH" [OF refl refl refl e [symmetric]] False by blast
    then show ?thesis by (intro exI [of _ "Suc k"] exI [of _ c]) simp
  qed
qed simp

lemma cas_loop_ends:
  assumes "\<forall>h. env (i + k) h = (h, False)" "k < fuel"
  shows "\<exists>r. cas_loop fuel nxt env i h = Some r"
  using assms
proof (induction fuel arbitrary: i k h)
  case (Suc fuel)
  obtain cur weak where e: "env i h = (cur, weak)" by (cases "env i h")
  show ?case
  proof (cases "cur = h \<and> \<not> weak")
    case False
    then have "k \<noteq> 0" using Suc.prems(1) e by (intro notI) auto
    then have "\<exists>r. cas_loop fuel nxt env (Suc i) cur = Some r"
      using Suc.IH [of "Suc i" "k - 1" cur] Suc.prems by simp
    then show ?thesis using False e by (auto simp: Let_def)
  qed (use e in \<open>auto simp: Let_def\<close>)
qed simp

section \<open>Processes, threads and messages\<close>

text \<open>
  Where a thread stands in \<open>crt_hlc_get\<close> (no message) or \<open>crt_hlc_get_msg\<close> (the index in the
  history of the event whose stamp the message carries): between the clock reading and the read
  of the word, or between that read and the exchange.
\<close>

datatype pc = Idle | Timed u64 "nat option" | Loaded u64 "nat option" u64

text \<open>An entry of the history: the process, the received event and the stamp returned.\<close>

type_synonym hlc_event = "nat \<times> nat option \<times> u64"

definition ev_proc :: "hlc_event \<Rightarrow> nat" where "ev_proc e = fst e"
definition ev_msg :: "hlc_event \<Rightarrow> nat option" where "ev_msg e = fst (snd e)"
definition ev_ts :: "hlc_event \<Rightarrow> u64" where "ev_ts e = snd (snd e)"

definition hlc_ret :: "hlc_event list \<Rightarrow> u64 \<Rightarrow> nat option \<Rightarrow> u64 \<Rightarrow> u64" where
  "hlc_ret tr pt src hlc =
     (case src of None \<Rightarrow> hlc_next pt hlc | Some i \<Rightarrow> hlc_next_msg (ev_ts (tr ! i)) pt hlc)"

record hlc_sys =
  word_of :: "nat \<Rightarrow> u64"
  pc_of :: "nat \<times> nat \<Rightarrow> pc"
  history :: "hlc_event list"

inductive hlc_step :: "hlc_sys \<Rightarrow> hlc_sys \<Rightarrow> bool" where
  clock: "\<lbrakk>pc_of s (p, t) = Idle; case src of None \<Rightarrow> True | Some i \<Rightarrow> i < length (history s);
     pt = crt_hlc_localtime_get now (word_of s p)\<rbrakk> \<Longrightarrow>
     hlc_step s (s\<lparr>pc_of := (pc_of s)((p, t) := Timed pt src)\<rparr>)"
| load: "pc_of s (p, t) = Timed pt src \<Longrightarrow>
     hlc_step s (s\<lparr>pc_of := (pc_of s)((p, t) := Loaded pt src (word_of s p))\<rparr>)"
| exchange: "\<lbrakk>pc_of s (p, t) = Loaded pt src hlc; word_of s p = hlc; ret = hlc_ret (history s) pt src hlc\<rbrakk> \<Longrightarrow>
     hlc_step s \<lparr>word_of = (word_of s)(p := ret), pc_of = (pc_of s)((p, t) := Idle),
                 history = history s @ [(p, src, ret)]\<rparr>"
| retry: "pc_of s (p, t) = Loaded pt src hlc \<Longrightarrow>
     hlc_step s (s\<lparr>pc_of := (pc_of s)((p, t) := Timed pt src)\<rparr>)"

definition hlc_init :: hlc_sys where
  "hlc_init = \<lparr>word_of = (\<lambda>_. 0), pc_of = (\<lambda>_. Idle), history = []\<rparr>"

text \<open>Direct causality between entries of a history: the order of a process, and a message.\<close>

definition hlc_cause :: "hlc_event list \<Rightarrow> nat \<Rightarrow> nat \<Rightarrow> bool" where
  "hlc_cause tr i j \<longleftrightarrow> i < j \<and> j < length tr \<and> (ev_proc (tr ! i) = ev_proc (tr ! j) \<or> ev_msg (tr ! j) = Some i)"

definition pc_ok :: "hlc_event list \<Rightarrow> pc \<Rightarrow> bool" where
  "pc_ok tr q \<longleftrightarrow>
     (case q of Idle \<Rightarrow> True
      | Timed pt src \<Rightarrow> (\<exists>n. unat pt = n * 65536) \<and> (\<forall>i. src = Some i \<longrightarrow> i < length tr)
      | Loaded pt src hlc \<Rightarrow> (\<exists>n. unat pt = n * 65536) \<and> (\<forall>i. src = Some i \<longrightarrow> i < length tr))"

definition hlc_inv :: "hlc_sys \<Rightarrow> bool" where
  "hlc_inv s \<longleftrightarrow>
     (\<forall>x. pc_ok (history s) (pc_of s x))
     \<and> (\<forall>p. word_of s p = 0 \<or> (\<exists>e \<in> set (history s). word_of s p = ev_ts e))
     \<and> (\<forall>e \<in> set (history s). ev_ts e \<le> word_of s (ev_proc e))
     \<and> (\<forall>i j. hlc_cause (history s) i j \<longrightarrow> ev_ts (history s ! i) < ev_ts (history s ! j))"

lemma pc_ok_mono: "pc_ok tr q \<Longrightarrow> pc_ok (tr @ es) q"
  by (auto simp: pc_ok_def split: pc.splits)

lemma hlc_cause_snoc:
  "hlc_cause (tr @ [e]) i j \<longleftrightarrow>
     hlc_cause tr i j \<or> (j = length tr \<and> i < length tr \<and> (ev_proc (tr ! i) = ev_proc e \<or> ev_msg e = Some i))"
  by (auto simp: hlc_cause_def nth_append less_Suc_eq)

lemma hlc_ret_greater:
  assumes "\<exists>n. unat pt = n * 65536" "hlc \<noteq> - 1" "\<forall>i. src = Some i \<longrightarrow> i < length tr \<and> ev_ts (tr ! i) \<noteq> - 1"
  shows "hlc < hlc_ret tr pt src hlc" "\<forall>i. src = Some i \<longrightarrow> ev_ts (tr ! i) < hlc_ret tr pt src hlc"
  using assms hlc_next_greater(1) [of hlc pt] hlc_next_msg_greater(1,2) [of hlc "ev_ts (tr ! the src)" pt]
  by (cases src; simp add: hlc_ret_def)+

lemma hlc_exchange_inv:
  assumes inv: "hlc_inv s" and pc: "pc_of s (p, t) = Loaded pt src hlc" and w: "word_of s p = hlc"
    and ret: "ret = hlc_ret (history s) pt src hlc" and nw: "\<forall>e \<in> set (history s). ev_ts e \<noteq> - 1"
  shows "hlc_inv \<lparr>word_of = (word_of s)(p := ret), pc_of = (pc_of s)((p, t) := Idle),
                 history = history s @ [(p, src, ret)]\<rparr>"
proof -
  let ?tr = "history s"
  have ok: "pc_ok ?tr (Loaded pt src hlc)" using inv pc unfolding hlc_inv_def by metis
  have "hlc = 0 \<or> (\<exists>e \<in> set ?tr. hlc = ev_ts e)" using inv w unfolding hlc_inv_def by blast
  then have "hlc \<noteq> - 1" using nw by auto
  moreover have "\<forall>i. src = Some i \<longrightarrow> i < length ?tr \<and> ev_ts (?tr ! i) \<noteq> - 1"
    using ok nw by (auto simp: pc_ok_def)
  ultimately have gr: "hlc < ret" "\<forall>i. src = Some i \<longrightarrow> ev_ts (?tr ! i) < ret"
    using hlc_ret_greater [of pt hlc src ?tr] ok ret by (auto simp: pc_ok_def)
  have le: "ev_ts e \<le> word_of s (ev_proc e)" if "e \<in> set ?tr" for e
    using inv that unfolding hlc_inv_def by blast
  have same: "ev_ts (?tr ! i) < ret" if "i < length ?tr" "ev_proc (?tr ! i) = p" for i
    using le [OF nth_mem [OF that(1)]] that(2) gr(1) w by simp
  let ?s = "\<lparr>word_of = (word_of s)(p := ret), pc_of = (pc_of s)((p, t) := Idle),
                 history = ?tr @ [(p, src, ret)]\<rparr>"
  have "pc_ok (history ?s) (pc_of ?s x)" for x
  proof (cases "x = (p, t)")
    case False
    moreover have "pc_ok ?tr (pc_of s x)" using inv unfolding hlc_inv_def by blast
    ultimately show ?thesis using pc_ok_mono by simp
  qed (simp add: pc_ok_def)
  moreover have "word_of ?s q = 0 \<or> (\<exists>e \<in> set (history ?s). word_of ?s q = ev_ts e)" for q
    using inv by (auto simp: hlc_inv_def ev_ts_def)
  moreover have "ev_ts e \<le> word_of ?s (ev_proc e)" if "e \<in> set (history ?s)" for e
  proof (cases "e = (p, src, ret)")
    case False
    then have "ev_ts e \<le> word_of s (ev_proc e)" using that le by simp
    then show ?thesis using gr(1) w by (simp add: order_trans [OF _ less_imp_le])
  qed (simp add: ev_ts_def ev_proc_def)
  moreover have "ev_ts (history ?s ! i) < ev_ts (history ?s ! j)" if c: "hlc_cause (history ?s) i j" for i j
  proof (cases "hlc_cause ?tr i j")
    case True
    then have "i < length ?tr" "j < length ?tr" by (auto simp: hlc_cause_def)
    moreover have "ev_ts (?tr ! i) < ev_ts (?tr ! j)" using inv True unfolding hlc_inv_def by blast
    ultimately show ?thesis by (simp add: nth_append)
  next
    case False
    then have "j = length ?tr" "i < length ?tr" "ev_proc (?tr ! i) = p \<or> src = Some i"
      using c by (auto simp: hlc_cause_snoc ev_proc_def ev_msg_def)
    then show ?thesis using same [of i] gr(2) by (auto simp: nth_append ev_ts_def)
  qed
  ultimately show ?thesis unfolding hlc_inv_def by blast
qed

lemma hlc_step_inv:
  assumes "hlc_step s s'" "hlc_inv s" "\<forall>e \<in> set (history s). ev_ts e \<noteq> - 1"
  shows "hlc_inv s'"
  using assms
proof (cases rule: hlc_step.cases)
  case (exchange p t pt src hlc ret)
  then show ?thesis using hlc_exchange_inv assms(2,3) by blast
next
  case (clock p t src pt now)
  then show ?thesis using assms(2) localtime_aligned [of now "word_of s p"]
    by (auto simp: hlc_inv_def pc_ok_def split: option.splits)
next
  case (load p t pt src)
  then have "pc_ok (history s) (Timed pt src)" using assms(2) unfolding hlc_inv_def by metis
  then have "pc_ok (history s) (Loaded pt src (word_of s p))" by (simp add: pc_ok_def)
  then show ?thesis using load assms(2) by (simp add: hlc_inv_def)
next
  case (retry p t pt src hlc)
  then have "pc_ok (history s) (Loaded pt src hlc)" using assms(2) unfolding hlc_inv_def by metis
  then have "pc_ok (history s) (Timed pt src)" by (simp add: pc_ok_def)
  then show ?thesis using retry assms(2) by (simp add: hlc_inv_def)
qed

lemma hlc_step_history: "hlc_step s s' \<Longrightarrow> set (history s) \<subseteq> set (history s')"
  by (auto elim: hlc_step.cases)

lemma hlc_run_inv:
  assumes "hlc_step\<^sup>*\<^sup>* hlc_init s" "\<forall>e \<in> set (history s). ev_ts e \<noteq> - 1"
  shows "hlc_inv s"
  using assms
proof (induction rule: rtranclp_induct)
  case base
  then show ?case by (simp add: hlc_inv_def hlc_init_def pc_ok_def hlc_cause_def)
next
  case (step s s')
  then show ?case using hlc_step_inv hlc_step_history by blast
qed

section \<open>Properties\<close>

text \<open>
  Property C31. Whatever the interleaving of threads and messages, as long as no stamp is the last
  64-bit value, stamps respect causality: an event that happened before another one (in the same
  process, by a message, or by a chain of these) has the smaller stamp.
\<close>

theorem hlc_causality:
  assumes "hlc_step\<^sup>*\<^sup>* hlc_init s" "\<forall>e \<in> set (history s). ev_ts e \<noteq> - 1"
    and "(hlc_cause (history s))\<^sup>+\<^sup>+ i j"
  shows "ev_ts (history s ! i) < ev_ts (history s ! j)"
proof -
  have "hlc_inv s" by (rule hlc_run_inv [OF assms(1,2)])
  then have "ev_ts (history s ! i) < ev_ts (history s ! j)" if "hlc_cause (history s) i j" for i j
    using that unfolding hlc_inv_def by blast
  with assms(3) show ?thesis by (induction rule: tranclp_induct) (auto intro: less_trans)
qed



definition hlc_two :: "hlc_event list" where
  "hlc_two = [(0, None, 1), (1, Some 0, 2)]"

lemma hlc_two_run:
  "hlc_step\<^sup>*\<^sup>* hlc_init \<lparr>word_of = ((\<lambda>_. 0)(0 := 1))(1 := 2), pc_of = (\<lambda>_. Idle), history = hlc_two\<rparr>"
proof -
  let ?w1 = "(\<lambda>_. 0)(0 := 1) :: nat \<Rightarrow> u64"
  let ?s1 = "hlc_init\<lparr>pc_of := (\<lambda>_. Idle)((0, 0) := Timed 0 None)\<rparr>"
  let ?s2 = "hlc_init\<lparr>pc_of := (\<lambda>_. Idle)((0, 0) := Loaded 0 None 0)\<rparr>"
  let ?s3 = "\<lparr>word_of = ?w1, pc_of = (\<lambda>_. Idle), history = [(0, None, 1)]\<rparr>"
  let ?s4 = "?s3\<lparr>pc_of := (\<lambda>_. Idle)((1, 0) := Timed 0 (Some 0))\<rparr>"
  let ?s5 = "?s3\<lparr>pc_of := (\<lambda>_. Idle)((1, 0) := Loaded 0 (Some 0) 0)\<rparr>"
  let ?s6 = "\<lparr>word_of = ?w1(1 := 2), pc_of = (\<lambda>_. Idle), history = hlc_two\<rparr>"
  have t1: "hlc_step hlc_init ?s1"
    using clock [of hlc_init 0 0 None 0 None] by (simp add: hlc_init_def crt_hlc_localtime_get_def)
  have t2: "hlc_step ?s1 ?s2" using load [of ?s1 0 0 0 None] by (simp add: hlc_init_def)
  have t3: "hlc_step ?s2 ?s3"
    using exchange [of ?s2 0 0 0 None 0 1] by (simp add: hlc_init_def hlc_ret_def hlc_next_def fun_upd_idem)
  have t4: "hlc_step ?s3 ?s4"
    using clock [of ?s3 1 0 "Some 0" 0 None] by (simp add: crt_hlc_localtime_get_def)
  have t5: "hlc_step ?s4 ?s5" using load [of ?s4 1 0 0 "Some 0"] by simp
  have t6: "hlc_step ?s5 ?s6"
    using exchange [of ?s5 1 0 0 "Some 0" 0 2]
    by (simp add: hlc_ret_def hlc_next_msg_def CRT_HLC_MASK_def ev_ts_def fun_upd_idem hlc_two_def)
  note c = converse_rtranclp_into_rtranclp [where r = hlc_step]
  show ?thesis by (rule c [OF t1 c [OF t2 c [OF t3 c [OF t4 c [OF t5 r_into_rtranclp [where r = hlc_step, OF t6]]]]]])
qed

theorem hlc_causality_witness: "ev_ts (hlc_two ! 0) < ev_ts (hlc_two ! 1)"
proof -
  have "hlc_cause hlc_two 0 1" by (simp add: hlc_cause_def hlc_two_def ev_msg_def)
  then show ?thesis
    using hlc_causality [OF hlc_two_run, of 0 1] by (auto simp: hlc_two_def ev_ts_def)
qed

end
