(* ===== verification/Hash_Fn.thy ===== *)
theory Hash_Fn
  imports Crt_Prelude
begin

text \<open>
  The hash functions of \<^verbatim>\<open>src/gurt/hash.c\<close>: the 64- and 96-bit mixers, the search in a consistent
  hash ring, the djb2 string hash and the Murmur hash. Keys are the bytes at the key pointer; a read
  past them, a negative index and a signed overflow are \<open>None\<close>.
\<close>

type_synonym u8 = "8 word"

section \<open>Definitions\<close>

definition d_hash_mix64 :: "u64 \<Rightarrow> u64" where
  "d_hash_mix64 key =
     (let key = NOT key + push_bit 21 key;
          key = key XOR drop_bit 24 key;
          key = key + push_bit 3 key + push_bit 8 key;
          key = key XOR drop_bit 14 key;
          key = key + push_bit 2 key + push_bit 4 key;
          key = key XOR drop_bit 28 key
      in key + push_bit 31 key)"

definition d_hash_mix96 :: "u32 \<Rightarrow> u32 \<Rightarrow> u32 \<Rightarrow> u32" where
  "d_hash_mix96 a b c =
     (let a = a - b; a = a - c; a = a XOR drop_bit 13 c;
          b = b - c; b = b - a; b = b XOR push_bit 8 a;
          c = c - a; c = c - b; c = c XOR drop_bit 13 b;
          a = a - b; a = a - c; a = a XOR drop_bit 12 c;
          b = b - c; b = b - a; b = b XOR push_bit 16 a;
          c = c - a; c = c - b; c = c XOR drop_bit 5 b;
          a = a - b; a = a - c; a = a XOR drop_bit 3 c;
          b = b - c; b = b - a; b = b XOR push_bit 10 a;
          c = c - a; c = c - b; c = c XOR drop_bit 15 b
      in c)"

text \<open>
  The search. The index starts at \<open>high / 2\<close> with \<open>low = 0\<close> and is \<open>(low + high) / 2\<close> afterwards, so it
  is \<open>(low + high) / 2\<close> throughout.
\<close>

function srch_loop :: "u64 list \<Rightarrow> u64 \<Rightarrow> int \<Rightarrow> int \<Rightarrow> (int \<times> int) option" where
  "srch_loop hashes val low high =
     (if low + high \<ge> 2 ^ 31 then None
      else let i = (low + high) div 2 in
        if high - low > 1 then
          if i < 0 \<or> i \<ge> int (length hashes) then None
          else if val \<ge> hashes ! nat i then srch_loop hashes val i high
          else srch_loop hashes val low i
        else Some (low, high))"
  by pat_completeness auto
termination
  by (relation "measure (\<lambda>(hashes, val, low, high). nat (high - low))") auto

declare srch_loop.simps [simp del]

definition d_hash_srch_u64 :: "u64 list \<Rightarrow> nat \<Rightarrow> u64 \<Rightarrow> int option" where
  "d_hash_srch_u64 hashes nhashes val =
     (case srch_loop hashes val 0 (int nhashes - 1) of
        None \<Rightarrow> None
      | Some (low, high) \<Rightarrow>
          if high < 0 \<or> high \<ge> int (length hashes) then None
          else Some (if val \<ge> hashes ! nat high then high else low))"

fun string_loop :: "u8 list \<Rightarrow> nat \<Rightarrow> u32 \<Rightarrow> u32 option" where
  "string_loop p 0 result = Some result"
| "string_loop [] (Suc len) result = None"
| "string_loop (c # p) (Suc len) result = string_loop p len (push_bit 5 result + result + ucast c)"

definition d_hash_string_u32 :: "u8 list \<Rightarrow> nat \<Rightarrow> u32 option" where
  "d_hash_string_u32 string len = string_loop string len 5381"

definition MUR_PRIME :: u64 where "MUR_PRIME = 0xc6a4a7935bd1e995"
definition MUR_ROTATE :: nat where "MUR_ROTATE = 47"

text \<open>A 64-bit word read from memory (least significant byte first).\<close>

definition le64 :: "u8 list \<Rightarrow> u64" where
  "le64 bs = foldr (\<lambda>b acc. push_bit 8 acc OR ucast b) bs 0"

fun mur_loop :: "nat \<Rightarrow> u8 list \<Rightarrow> u64 \<Rightarrow> (u64 \<times> u8 list) option" where
  "mur_loop 0 key mur = Some (mur, key)"
| "mur_loop (Suc loop) key mur =
     (if length key < 8 then None
      else
        let k = le64 (take 8 key);
            k = k * MUR_PRIME;
            k = k XOR drop_bit MUR_ROTATE k;
            k = k * MUR_PRIME
        in mur_loop loop (drop 8 key) ((mur XOR k) * MUR_PRIME))"

definition mur_tail :: "nat \<Rightarrow> u8 list \<Rightarrow> u64 \<Rightarrow> u64 option" where
  "mur_tail rest key mur =
     (if length key < rest then None
      else if rest = 0 then Some mur
      else Some (fold (\<lambda>i mur. mur XOR push_bit (8 * i) (ucast (key ! i))) (rev [0..<rest]) mur * MUR_PRIME))"

definition d_hash_murmur64 :: "u8 list \<Rightarrow> u32 \<Rightarrow> u32 \<Rightarrow> u64 option" where
  "d_hash_murmur64 key key_len seed =
     (case mur_loop (unat (drop_bit 3 key_len)) key (ucast seed XOR (ucast key_len * MUR_PRIME)) of
        None \<Rightarrow> None
      | Some (mur, key') \<Rightarrow>
          (case mur_tail (unat (key_len AND 7)) key' mur of
             None \<Rightarrow> None
           | Some mur \<Rightarrow>
               let mur = mur XOR drop_bit MUR_ROTATE mur;
                   mur = mur * MUR_PRIME
               in Some (mur XOR drop_bit MUR_ROTATE mur)))"

section \<open>The mixers lose nothing\<close>

lemma xorshift_inj:
  assumes "x XOR drop_bit k x = y XOR drop_bit k (y :: u64)" "0 < k"
  shows "x = y"
proof (rule bit_word_eqI)
  have b: "bit x n \<noteq> bit x (n + k) \<longleftrightarrow> bit y n \<noteq> bit y (n + k)" for n
    using arg_cong [OF assms(1), of "\<lambda>z. bit z n"]
    by (auto simp: bit_simps ac_simps dest: bit_imp_le_length)
  have "64 - n \<le> m \<Longrightarrow> bit x n = bit y n" for m n
  proof (induction m arbitrary: n)
    case 0
    then show ?case by (auto dest!: bit_imp_le_length)
  next
    case (Suc m)
    have "bit x (n + k) = bit y (n + k)" using Suc.IH [of "n + k"] Suc.prems assms(2) by simp
    then show ?case using b [of n] by auto
  qed
  then show "bit x n = bit y n" for n by blast
qed

lemma mult_inj:
  assumes "c * d = 1" "x * c = y * (c :: u64)"
  shows "x = y"
proof -
  have "x * c * d = y * c * d" using assms(2) by simp
  then show ?thesis using assms(1) by (simp add: mult.assoc)
qed

lemma mix_mults:
  "NOT x + push_bit 21 x = x * 2097151 - 1" "x + push_bit 3 x + push_bit 8 x = x * 265"
  "x + push_bit 2 x + push_bit 4 x = x * 21" "x + push_bit 31 x = (x :: u64) * 2147483649"
proof -
  have p: "push_bit n x = x * 2 ^ n" for n by (simp add: push_bit_eq_mult)
  have "x * 2097151 = x * (2 ^ 21 - 1)" "x * 265 = x * (1 + 2 ^ 3 + 2 ^ 8)"
    "x * 21 = x * (1 + 2 ^ 2 + 2 ^ 4)" "x * 2147483649 = x * (1 + 2 ^ 31)"
    by simp_all
  then show "NOT x + push_bit 21 x = x * 2097151 - 1" "x + push_bit 3 x + push_bit 8 x = x * 265"
    "x + push_bit 2 x + push_bit 4 x = x * 21" "x + push_bit 31 x = (x :: u64) * 2147483649"
    by (simp_all only: p not_eq_complement distrib_left right_diff_distrib mult_1_right) (simp_all only: diff_add_eq ac_simps diff_diff_eq uminus_add_conv_diff add_uminus_conv_diff)
qed

lemma xorshift_eq: "0 < k \<Longrightarrow> x XOR drop_bit k x = y XOR drop_bit k (y :: u64) \<longleftrightarrow> x = y"
  using xorshift_inj by blast

lemma mult_eqs:
  "x * 2097151 = y * 2097151 \<longleftrightarrow> x = y" "x * 265 = y * 265 \<longleftrightarrow> x = y" "x * 21 = y * 21 \<longleftrightarrow> x = y"
  "x * 2147483649 = y * 2147483649 \<longleftrightarrow> x = y" "x * MUR_PRIME = y * MUR_PRIME \<longleftrightarrow> x = (y :: u64)"
  using mult_inj [of 2097151 9223367638806167551 x y] mult_inj [of 265 15244667743933553977 x y]
    mult_inj [of 21 14933078535860113213 x y] mult_inj [of 2147483649 4611686016279904257 x y]
    mult_inj [of MUR_PRIME 6879827495036328381 x y]
  by (auto simp: MUR_PRIME_def)

lemma mix64_inj: "d_hash_mix64 x = d_hash_mix64 y \<longleftrightarrow> x = y"
  by (simp add: d_hash_mix64_def Let_def mix_mults mult_eqs xorshift_eq)

section \<open>Murmur on short keys\<close>

lemma le64_simps: "le64 [] = 0" "le64 (b # bs) = push_bit 8 (le64 bs) OR ucast b"
  by (simp_all add: le64_def)

lemma bit_le64:
  "length bs \<le> 8 \<Longrightarrow> bit (le64 bs) n \<longleftrightarrow> n div 8 < length bs \<and> bit (bs ! (n div 8)) (n mod 8)"
proof (induction bs arbitrary: n)
  case (Cons b bs)
  show ?case
  proof (cases "n < 8")
    case True
    then show ?thesis by (simp add: le64_simps bit_simps)
  next
    case False
    then have d: "n div 8 = Suc ((n - 8) div 8)" "n mod 8 = (n - 8) mod 8"
      by (simp_all add: le_div_geq le_mod_geq)
    have "\<not> bit (ucast b :: u64) n" using False by (auto simp: bit_simps dest: bit_imp_le_length)
    moreover have "bit (bs ! ((n - 8) div 8)) ((n - 8) mod 8) \<Longrightarrow> (n - 8) div 8 < length bs \<Longrightarrow> n < 64"
      using Cons.prems False by (simp add: div_less_iff_less_mult)
    ultimately show ?thesis using Cons False d by (auto simp: le64_simps bit_simps)
  qed
qed (simp add: le64_simps)

lemma le64_inj:
  assumes "le64 xs = le64 ys" "length xs = length ys" "length xs \<le> 8"
  shows "xs = ys"
proof (rule nth_equalityI)
  fix i assume i: "i < length xs"
  show "xs ! i = ys ! i"
  proof (rule bit_word_eqI)
    fix n assume "n < LENGTH(8)"
    then have "(8 * i + n) div 8 = i" "(8 * i + n) mod 8 = n" by simp_all
    then show "bit (xs ! i) n = bit (ys ! i) n"
      using arg_cong [OF assms(1), of "\<lambda>z. bit z (8 * i + n)"] bit_le64 [of xs "8 * i + n"]
        bit_le64 [of ys "8 * i + n"] i assms(2,3) by simp
  qed
qed (rule assms(2))

lemma le64_snoc:
  assumes "length bs < 8"
  shows "le64 (bs @ [b]) = le64 bs XOR push_bit (8 * length bs) (ucast b)"
proof (rule bit_word_eqI)
  fix n assume n: "n < LENGTH(64)"
  show "bit (le64 (bs @ [b])) n = bit (le64 bs XOR push_bit (8 * length bs) (ucast b)) n"
  proof (cases "n div 8 < length bs")
    case True
    then have "n < 8 * length bs" by (simp add: div_less_iff_less_mult mult.commute)
    then show ?thesis using True assms by (simp add: bit_le64 bit_simps nth_append)
  next
    case False
    then have ge: "8 * length bs \<le> n" by (simp add: div_less_iff_less_mult mult.commute)
    show ?thesis
    proof (cases "n div 8 = length bs")
      case True
      then have "n mod 8 = n - 8 * length bs" by (metis minus_mult_div_eq_mod)
      moreover have "n - 8 * length bs < 8" using calculation by (metis mod_less_divisor zero_less_numeral)
      ultimately show ?thesis using True assms ge n by (simp add: bit_le64 bit_simps)
    next
      case no: False
      then have "8 * length bs + 8 \<le> n"
        using False by (metis Suc_leI add.commute div_less_iff_less_mult linorder_neqE_nat mult.commute mult_Suc_right not_le zero_less_numeral)
      then have "\<not> bit b (n - 8 * length bs)" by (auto dest: bit_imp_le_length)
      then show ?thesis using no False assms ge by (simp add: bit_le64 bit_simps)
    qed
  qed
qed

lemma tail_fold:
  "rest \<le> length key \<Longrightarrow> rest < 8 \<Longrightarrow>
     fold (\<lambda>i mur. mur XOR push_bit (8 * i) (ucast (key ! i))) (rev [0..<rest]) mur = mur XOR le64 (take rest key)"
proof (induction rest arbitrary: mur)
  case (Suc rest)
  then have "le64 (take (Suc rest) key) = le64 (take rest key) XOR push_bit (8 * rest) (ucast (key ! rest))"
    using le64_snoc [of "take rest key" "key ! rest"] by (simp add: take_Suc_conv_app_nth)
  then show ?case using Suc by (simp add: ac_simps)
qed (simp add: le64_simps)

lemma xor_cancel: "a XOR x = a XOR y \<longleftrightarrow> x = (y :: u64)"
proof
  assume "a XOR x = a XOR y"
  then have "a XOR (a XOR x) = a XOR (a XOR y)" by (rule arg_cong)
  then show "x = y" by (simp flip: xor.assoc)
qed simp

lemma mur_tail_inj:
  assumes "mur_tail rest x mur = mur_tail rest y mur" "length x = rest" "length y = rest" "rest < 8"
  shows "x = y"
proof (cases "rest = 0")
  case False
  then have "le64 x = le64 y"
    using assms tail_fold [of rest x mur] tail_fold [of rest y mur]
    by (simp add: mur_tail_def mult_eqs xor_cancel)
  then show ?thesis using le64_inj [of x y] assms by simp
qed (use assms in simp)

section \<open>The ring search\<close>

definition srch_inv :: "u64 list \<Rightarrow> u64 \<Rightarrow> int \<Rightarrow> int \<Rightarrow> bool" where
  "srch_inv hashes val low high \<longleftrightarrow>
     0 \<le> low \<and> low \<le> high \<and> high < int (length hashes)
     \<and> (low = 0 \<or> hashes ! nat low \<le> val)
     \<and> (\<forall>j < length hashes. high < int j \<longrightarrow> val < hashes ! j)"

lemma srch_loop_exact:
  "\<lbrakk>srch_inv hashes val low high; sorted hashes; length hashes \<le> 2 ^ 30\<rbrakk> \<Longrightarrow>
     \<exists>l h. srch_loop hashes val low high = Some (l, h) \<and> srch_inv hashes val l h \<and> h - l \<le> 1"
proof (induction hashes val low high rule: srch_loop.induct)
  case (1 hashes val low high)
  let ?i = "(low + high) div 2"
  note inv = "1.prems"(1) [unfolded srch_inv_def]
  have nov: "\<not> low + high \<ge> 2 ^ 31" using inv "1.prems"(3) by simp
  show ?case
  proof (cases "high - low > 1")
    case False
    then show ?thesis using "1.prems"(1) nov by (simp add: srch_loop.simps [of hashes])
  next
    case True
    then have i: "low < ?i" "?i < high" by simp_all
    then have r: "\<not> (?i < 0 \<or> ?i \<ge> int (length hashes))" using inv by simp
    show ?thesis
    proof (cases "val \<ge> hashes ! nat ?i")
      case ge: True
      then have "srch_inv hashes val ?i high" using inv i by (simp add: srch_inv_def)
      moreover have "srch_loop hashes val low high = srch_loop hashes val ?i high"
        using nov True r ge by (subst srch_loop.simps) (simp add: Let_def)
      ultimately show ?thesis using "1.IH"(1) [OF nov refl True r ge] "1.prems"(2,3) by simp
    next
      case lt: False
      have "val < hashes ! j" if "j < length hashes" "?i < int j" for j
      proof -
        have "hashes ! nat ?i \<le> hashes ! j"
          using that i inv by (intro sorted_nth_mono [OF "1.prems"(2)]) simp_all
        then show ?thesis using lt by simp
      qed
      then have "srch_inv hashes val low ?i" using inv i by (simp add: srch_inv_def)
      moreover have "srch_loop hashes val low high = srch_loop hashes val low ?i"
        using nov True r lt by (subst srch_loop.simps) (simp add: Let_def)
      ultimately show ?thesis using "1.IH"(2) [OF nov refl True r lt] "1.prems"(2,3) by simp
    qed
  qed
qed

section \<open>Properties\<close>

text \<open>
  Property C33. The 64-bit mixer loses nothing: different keys have different hashes. The Murmur
  hash has no collision between keys of one length of at most eight bytes, whatever the seed.
\<close>

theorem hash_no_collision:
  "inj d_hash_mix64
   \<and> (\<forall>n \<le> 8. inj_on (\<lambda>key. d_hash_murmur64 key (of_nat n) seed) {key. length key = n})"
proof -
  have "x = y" if n: "length x = n" "length y = n" "n \<le> 8"
    and eq: "d_hash_murmur64 x (of_nat n) seed = d_hash_murmur64 y (of_nat n) seed" for n x y
  proof (cases "n = 8")
    case True
    have c: "unat (drop_bit 3 (8 :: u32)) = 1" "unat ((8 :: u32) AND 7) = 0" by simp_all
    show ?thesis using eq n le64_inj [of x y] c unfolding True
      by (simp add: d_hash_murmur64_def mur_tail_def Let_def mult_eqs xorshift_eq xor_cancel MUR_ROTATE_def)
  next
    case False
    then have l: "n < 8" using n(3) by simp
    then have u: "unat (of_nat n :: u32) = n" by (simp add: unat_of_nat)
    have d: "unat (drop_bit 3 (of_nat n :: u32)) = 0"
      using l u by (simp add: drop_bit_eq_div unat_div_distrib)
    have a: "unat ((of_nat n :: u32) AND 7) = n"
    proof -
      have "(of_nat n :: u32) AND 7 = take_bit 3 (of_nat n)" by (simp add: take_bit_eq_mask mask_eq_exp_minus_1)
      then show ?thesis using l u by (simp add: take_bit_eq_mod unat_mod_distrib)
    qed
    let ?m = "ucast seed XOR (ucast (of_nat n :: u32) * MUR_PRIME) :: u64"
    obtain t1 t2 where t: "mur_tail n x ?m = Some t1" "mur_tail n y ?m = Some t2"
      using n by (cases "n = 0") (simp_all add: mur_tail_def)
    then have "t1 = t2"
      using eq unfolding d_hash_murmur64_def d a
      by (simp add: Let_def mult_eqs xorshift_eq MUR_ROTATE_def)
    then show ?thesis using mur_tail_inj [of n x ?m y] n l t by simp
  qed
  then show ?thesis unfolding inj_on_def using mix64_inj by blast
qed

theorem hash_no_collision_witness:
  "d_hash_murmur64 [1, 2] 2 7 \<noteq> d_hash_murmur64 [2, 1] 2 7"
proof -
  have "(2 :: nat) \<le> 8" by simp
  then have inj: "inj_on (\<lambda>key. d_hash_murmur64 key (of_nat 2) 7) {key. length key = 2}"
    using hash_no_collision [of 7] by blast
  have "[1, 2] \<noteq> [2, 1 :: u8]" by simp
  then have "d_hash_murmur64 [1, 2] (of_nat 2) 7 \<noteq> d_hash_murmur64 [2, 1] (of_nat 2) 7"
    using inj_on_contraD [OF inj, of "[1, 2]" "[2, 1]"] by (simp del: of_nat_numeral)
  then show ?thesis unfolding of_nat_numeral .
qed

text \<open>
  On a sorted ring the search returns the last index whose hash does not exceed the
  value, or \<open>0\<close> when there is none, without reading outside the ring.
\<close>

lemma hash_srch_exact:
  assumes "sorted hashes" "hashes \<noteq> []" "length hashes \<le> 2 ^ 30"
  shows "\<exists>r < length hashes. d_hash_srch_u64 hashes (length hashes) val = Some (int r)
    \<and> (r = 0 \<or> hashes ! r \<le> val) \<and> (\<forall>j < length hashes. r < j \<longrightarrow> val < hashes ! j)"
proof -
  have "srch_inv hashes val 0 (int (length hashes) - 1)"
    using assms(2) by (auto simp: srch_inv_def Suc_leI)
  then obtain l h where l: "srch_loop hashes val 0 (int (length hashes) - 1) = Some (l, h)"
    and inv: "srch_inv hashes val l h" and d: "h - l \<le> 1"
    using srch_loop_exact assms by blast
  let ?r = "nat (if val \<ge> hashes ! nat h then h else l)"
  have gt: "val < hashes ! j" if "j < length hashes" "?r < j" for j
  proof (cases "val \<ge> hashes ! nat h")
    case False
    have "nat h \<le> j" using that False d by (simp split: if_splits)
    then have "hashes ! nat h \<le> hashes ! j" using that by (intro sorted_nth_mono [OF assms(1)])
    then show ?thesis using False by simp
  qed (use that inv in \<open>auto simp: srch_inv_def\<close>)
  have "d_hash_srch_u64 hashes (length hashes) val = Some (int ?r)"
    using l inv by (auto simp: d_hash_srch_u64_def srch_inv_def)
  moreover have "?r < length hashes" "?r = 0 \<or> hashes ! ?r \<le> val"
    using inv by (auto simp: srch_inv_def)
  ultimately show ?thesis using gt by blast
qed

end
