(* ===== verification/Hash_Table.thy ===== *)
theory Hash_Table
  imports Hash_Fn
begin

text \<open>
  The generic hash table of \<^verbatim>\<open>src/gurt/hash.c\<close> and \<^verbatim>\<open>src/include/gurt/hash.h\<close>. A record is named by
  the address of its link (\<open>'r\<close>); a bucket is the list of links chained in it, head first. The data the
  member functions work on (reference counts, keys, generators) is a state \<open>'w\<close> that every
  operation threads through. An operation is \<open>None\<close> when an assertion fails, in the table or in a
  member function. \<open>d_list_empty\<close> of a link is that the link is in no bucket: a link is initialised
  before use and belongs to one table. The locks are taken and released around single operations
  and are left out; \<open>lock_rc\<close> is the result of initialising them.
\<close>

section \<open>Data\<close>

text \<open>
  The member functions; an absent one is \<open>None\<close>. A key of type \<open>'k\<close> stands for the memory at a key
  pointer, never null, whose bytes only the default hash reads.
\<close>

record ('w, 'r, 'k, 'a) d_hash_table_ops =
  hop_key_cmp :: "('w \<Rightarrow> 'r \<Rightarrow> 'k \<Rightarrow> nat \<Rightarrow> bool option) option"
  hop_key_init :: "('w \<Rightarrow> 'r \<Rightarrow> 'a \<Rightarrow> 'w) option"
  hop_key_get :: "('w \<Rightarrow> 'r \<Rightarrow> 'k \<times> nat) option"
  hop_key_hash :: "('k \<Rightarrow> nat \<Rightarrow> u32 option) option"
  hop_rec_addref :: "('w \<Rightarrow> 'r \<Rightarrow> 'w option) option"
  hop_rec_decref :: "('w \<Rightarrow> 'r \<Rightarrow> (bool \<times> 'w) option) option"
  hop_rec_free :: "('w \<Rightarrow> 'r \<Rightarrow> 'w option) option"
  key_bytes :: "'k \<Rightarrow> u8 list"

text \<open>The lock bits of \<open>ht_feats\<close> select a lock only; \<open>D_HASH_FT_EPHEMERAL\<close> is bit 2.\<close>

definition D_HASH_FT_NOLOCK :: u32 where "D_HASH_FT_NOLOCK = 1"
definition D_HASH_FT_RWLOCK :: u32 where "D_HASH_FT_RWLOCK = 2"
definition D_HASH_FT_EPHEMERAL :: u32 where "D_HASH_FT_EPHEMERAL = 4"

text \<open>\<open>ht_buckets\<close> is \<open>None\<close> for the null pointer, and \<open>ht_ops\<close> for a table that has been zeroed.\<close>

record ('w, 'r, 'k, 'a) d_hash_table =
  ht_bits :: nat
  ht_feats :: u32
  ht_ops :: "('w, 'r, 'k, 'a) d_hash_table_ops option"
  ht_buckets :: "'r list list option"

definition ephemeral :: "('w, 'r, 'k, 'a) d_hash_table \<Rightarrow> bool" where
  "ephemeral t \<longleftrightarrow> ht_feats t AND D_HASH_FT_EPHEMERAL \<noteq> 0"

definition rlink_empty :: "('w, 'r, 'k, 'a) d_hash_table \<Rightarrow> 'r \<Rightarrow> bool" where
  "rlink_empty t r \<longleftrightarrow>
     (case ht_buckets t of None \<Rightarrow> True | Some bs \<Rightarrow> list_all (\<lambda>b. r \<notin> set b) bs)"

section \<open>Wrappers of the member functions\<close>

definition ch_key_hash :: "('w, 'r, 'k, 'a) d_hash_table \<Rightarrow> 'k \<Rightarrow> nat \<Rightarrow> nat option" where
  "ch_key_hash t key ksize =
     Option.bind (ht_ops t) (\<lambda>ops.
       map_option (\<lambda>idx. unat (idx AND (push_bit (ht_bits t) 1 - 1)))
         (case hop_key_hash ops of
            Some f \<Rightarrow> f key ksize
          | None \<Rightarrow> d_hash_string_u32 (key_bytes ops key) ksize))"

definition ch_key_init :: "('w, 'r, 'k, 'a) d_hash_table \<Rightarrow> 'w \<Rightarrow> 'r \<Rightarrow> 'a \<Rightarrow> 'w option" where
  "ch_key_init t w r arg =
     Option.bind (ht_ops t) (\<lambda>ops. map_option (\<lambda>f. f w r arg) (hop_key_init ops))"

definition ch_key_cmp :: "('w, 'r, 'k, 'a) d_hash_table \<Rightarrow> 'w \<Rightarrow> 'r \<Rightarrow> 'k \<Rightarrow> nat \<Rightarrow> bool option" where
  "ch_key_cmp t w r key ksize =
     Option.bind (ht_ops t) (\<lambda>ops. Option.bind (hop_key_cmp ops) (\<lambda>f. f w r key ksize))"

definition ch_key_get :: "('w, 'r, 'k, 'a) d_hash_table \<Rightarrow> 'w \<Rightarrow> 'r \<Rightarrow> ('k \<times> nat) option" where
  "ch_key_get t w r =
     Option.bind (ht_ops t) (\<lambda>ops. map_option (\<lambda>f. f w r) (hop_key_get ops))"

definition ch_rec_insert ::
  "('w, 'r, 'k, 'a) d_hash_table \<Rightarrow> nat \<Rightarrow> 'r \<Rightarrow> ('w, 'r, 'k, 'a) d_hash_table option" where
  "ch_rec_insert t idx r =
     Option.bind (ht_buckets t) (\<lambda>bs.
       if idx < length bs then Some (t\<lparr>ht_buckets := Some (bs[idx := r # bs ! idx])\<rparr>) else None)"

definition ch_rec_delete :: "('w, 'r, 'k, 'a) d_hash_table \<Rightarrow> 'r \<Rightarrow> ('w, 'r, 'k, 'a) d_hash_table" where
  "ch_rec_delete t r = t\<lparr>ht_buckets := map_option (map (removeAll r)) (ht_buckets t)\<rparr>"

fun find_loop :: "('w, 'r, 'k, 'a) d_hash_table \<Rightarrow> 'w \<Rightarrow> 'k \<Rightarrow> nat \<Rightarrow> 'r list \<Rightarrow> 'r option option" where
  "find_loop t w key ksize [] = Some None"
| "find_loop t w key ksize (r # rs) =
     (case ch_key_cmp t w r key ksize of
        None \<Rightarrow> None
      | Some True \<Rightarrow> Some (Some r)
      | Some False \<Rightarrow> find_loop t w key ksize rs)"

definition ch_rec_find ::
  "('w, 'r, 'k, 'a) d_hash_table \<Rightarrow> 'w \<Rightarrow> nat \<Rightarrow> 'k \<Rightarrow> nat \<Rightarrow> 'r option option" where
  "ch_rec_find t w idx key ksize =
     Option.bind (ht_buckets t) (\<lambda>bs.
       if idx < length bs then find_loop t w key ksize (bs ! idx) else None)"

definition ch_rec_addref :: "('w, 'r, 'k, 'a) d_hash_table \<Rightarrow> 'w \<Rightarrow> 'r \<Rightarrow> 'w option" where
  "ch_rec_addref t w r =
     Option.bind (ht_ops t) (\<lambda>ops. case hop_rec_addref ops of None \<Rightarrow> Some w | Some f \<Rightarrow> f w r)"

definition ch_rec_decref :: "('w, 'r, 'k, 'a) d_hash_table \<Rightarrow> 'w \<Rightarrow> 'r \<Rightarrow> (bool \<times> 'w) option" where
  "ch_rec_decref t w r =
     Option.bind (ht_ops t) (\<lambda>ops. case hop_rec_decref ops of None \<Rightarrow> Some (False, w) | Some f \<Rightarrow> f w r)"

definition ch_rec_free :: "('w, 'r, 'k, 'a) d_hash_table \<Rightarrow> 'w \<Rightarrow> 'r \<Rightarrow> 'w option" where
  "ch_rec_free t w r =
     Option.bind (ht_ops t) (\<lambda>ops. case hop_rec_free ops of None \<Rightarrow> Some w | Some f \<Rightarrow> f w r)"

definition ch_rec_insert_addref ::
  "('w, 'r, 'k, 'a) d_hash_table \<Rightarrow> 'w \<Rightarrow> nat \<Rightarrow> 'r \<Rightarrow> (('w, 'r, 'k, 'a) d_hash_table \<times> 'w) option" where
  "ch_rec_insert_addref t w bucket_idx r =
     Option.bind (if \<not> ephemeral t then ch_rec_addref t w r else Some w) (\<lambda>w'.
       map_option (\<lambda>t'. (t', w')) (ch_rec_insert t bucket_idx r))"

definition ch_rec_del_decref ::
  "('w, 'r, 'k, 'a) d_hash_table \<Rightarrow> 'w \<Rightarrow> 'r \<Rightarrow> (bool \<times> ('w, 'r, 'k, 'a) d_hash_table \<times> 'w) option" where
  "ch_rec_del_decref t w r =
     (let t' = ch_rec_delete t r in
      if \<not> ephemeral t then map_option (\<lambda>(zombie, w'). (zombie, t', w')) (ch_rec_decref t' w r)
      else Some (False, t', w))"

definition free_if_zombie ::
  "bool \<Rightarrow> ('w, 'r, 'k, 'a) d_hash_table \<Rightarrow> 'w \<Rightarrow> 'r \<Rightarrow> 'w option" where
  "free_if_zombie zombie t w r = (if zombie then ch_rec_free t w r else Some w)"

section \<open>Operations\<close>

definition d_hash_rec_find ::
  "('w, 'r, 'k, 'a) d_hash_table \<Rightarrow> 'w \<Rightarrow> 'k \<Rightarrow> nat \<Rightarrow> ('r option \<times> 'w) option" where
  "d_hash_rec_find t w key ksize =
     Option.bind (ch_key_hash t key ksize) (\<lambda>idx.
     Option.bind (ch_rec_find t w idx key ksize) (\<lambda>rlink.
       case rlink of
         None \<Rightarrow> Some (None, w)
       | Some r \<Rightarrow> map_option (\<lambda>w'. (Some r, w')) (ch_rec_addref t w r)))"

definition d_hash_rec_insert ::
  "('w, 'r, 'k, 'a) d_hash_table \<Rightarrow> 'w \<Rightarrow> 'k \<Rightarrow> nat \<Rightarrow> 'r \<Rightarrow> bool \<Rightarrow>
     (rc \<times> ('w, 'r, 'k, 'a) d_hash_table \<times> 'w) option" where
  "d_hash_rec_insert t w key ksize r exclusive =
     (if ksize = 0 then None
      else
        Option.bind (ch_key_hash t key ksize) (\<lambda>idx.
        Option.bind (if exclusive then ch_rec_find t w idx key ksize else Some None) (\<lambda>tmp.
          if tmp \<noteq> None then Some (DER_EXIST, t, w)
          else map_option (\<lambda>(t', w'). (DER_SUCCESS, t', w')) (ch_rec_insert_addref t w idx r))))"

definition d_hash_rec_find_insert ::
  "('w, 'r, 'k, 'a) d_hash_table \<Rightarrow> 'w \<Rightarrow> 'k \<Rightarrow> nat \<Rightarrow> 'r \<Rightarrow>
     ('r \<times> ('w, 'r, 'k, 'a) d_hash_table \<times> 'w) option" where
  "d_hash_rec_find_insert t w key ksize r =
     (if ksize = 0 then None
      else
        Option.bind (ch_key_hash t key ksize) (\<lambda>idx.
        Option.bind (ch_rec_find t w idx key ksize) (\<lambda>tmp.
          case tmp of
            Some r' \<Rightarrow> map_option (\<lambda>w'. (r', t, w')) (ch_rec_addref t w r')
          | None \<Rightarrow> map_option (\<lambda>(t', w'). (r, t', w')) (ch_rec_insert_addref t w idx r))))"

definition d_hash_rec_insert_anonym ::
  "('w, 'r, 'k, 'a) d_hash_table \<Rightarrow> 'w \<Rightarrow> 'r \<Rightarrow> 'a \<Rightarrow>
     (rc \<times> ('w, 'r, 'k, 'a) d_hash_table \<times> 'w) option" where
  "d_hash_rec_insert_anonym t w r arg =
     Option.bind (ht_ops t) (\<lambda>ops.
       if hop_key_init ops = None \<or> hop_key_get ops = None then Some (DER_NO_PERM, t, w)
       else
         Option.bind (ch_key_init t w r arg) (\<lambda>w.
         Option.bind (ch_key_get t w r) (\<lambda>(key, ksize).
         Option.bind (ch_key_hash t key ksize) (\<lambda>idx.
           map_option (\<lambda>(t', w'). (DER_SUCCESS, t', w')) (ch_rec_insert_addref t w idx r)))))"

definition d_hash_rec_delete ::
  "('w, 'r, 'k, 'a) d_hash_table \<Rightarrow> 'w \<Rightarrow> 'k \<Rightarrow> nat \<Rightarrow> (bool \<times> ('w, 'r, 'k, 'a) d_hash_table \<times> 'w) option" where
  "d_hash_rec_delete t w key ksize =
     Option.bind (ch_key_hash t key ksize) (\<lambda>idx.
     Option.bind (ch_rec_find t w idx key ksize) (\<lambda>rlink.
       case rlink of
         None \<Rightarrow> Some (False, t, w)
       | Some r \<Rightarrow>
           Option.bind (ch_rec_del_decref t w r) (\<lambda>(zombie, t', w').
             map_option (\<lambda>w''. (True, t', w'')) (free_if_zombie zombie t' w' r))))"

definition d_hash_rec_delete_at ::
  "('w, 'r, 'k, 'a) d_hash_table \<Rightarrow> 'w \<Rightarrow> 'r \<Rightarrow> (bool \<times> ('w, 'r, 'k, 'a) d_hash_table \<times> 'w) option" where
  "d_hash_rec_delete_at t w r =
     (if \<not> rlink_empty t r then
        Option.bind (ch_rec_del_decref t w r) (\<lambda>(zombie, t', w').
          map_option (\<lambda>w''. (True, t', w'')) (free_if_zombie zombie t' w' r))
      else Some (False, t, w))"

definition d_hash_rec_addref :: "('w, 'r, 'k, 'a) d_hash_table \<Rightarrow> 'w \<Rightarrow> 'r \<Rightarrow> 'w option" where
  "d_hash_rec_addref t w r = ch_rec_addref t w r"

text \<open>What \<open>d_hash_rec_decref\<close> and \<open>d_hash_rec_ndecref\<close> do once the references are dropped.\<close>

definition drop_zombie ::
  "bool \<Rightarrow> ('w, 'r, 'k, 'a) d_hash_table \<Rightarrow> 'w \<Rightarrow> 'r \<Rightarrow> (('w, 'r, 'k, 'a) d_hash_table \<times> 'w) option" where
  "drop_zombie zombie t w r =
     (let t' = (if zombie \<and> ephemeral t \<and> \<not> rlink_empty t r then ch_rec_delete t r else t) in
      if zombie \<and> \<not> rlink_empty t' r then None
      else map_option (\<lambda>w'. (t', w')) (free_if_zombie zombie t' w r))"

definition d_hash_rec_decref ::
  "('w, 'r, 'k, 'a) d_hash_table \<Rightarrow> 'w \<Rightarrow> 'r \<Rightarrow> (('w, 'r, 'k, 'a) d_hash_table \<times> 'w) option" where
  "d_hash_rec_decref t w r =
     Option.bind (ch_rec_decref t w r) (\<lambda>(zombie, w'). drop_zombie zombie t w' r)"

text \<open>
  The loop of \<open>d_hash_rec_ndecref\<close> decrements the signed counter before it tests it: a counter that
  starts at \<open>0\<close> or below runs until the record is a zombie or the counter overflows.
\<close>

function ndecref_loop ::
  "('w, 'r, 'k, 'a) d_hash_table \<Rightarrow> 'w \<Rightarrow> 'r \<Rightarrow> int \<Rightarrow> (bool \<times> int \<times> 'w) option" where
  "ndecref_loop t w r cnt =
     (if cnt \<le> - (2 ^ 31) then None
      else
        case ch_rec_decref t w r of
          None \<Rightarrow> None
        | Some (zombie, w') \<Rightarrow>
            if cnt - 1 \<noteq> 0 \<and> \<not> zombie then ndecref_loop t w' r (cnt - 1)
            else Some (zombie, cnt - 1, w'))"
  by pat_completeness auto
termination
  by (relation "measure (\<lambda>(t, w, r, cnt). nat (cnt + 2 ^ 31))") auto

declare ndecref_loop.simps [simp del]

definition d_hash_rec_ndecref ::
  "('w, 'r, 'k, 'a) d_hash_table \<Rightarrow> 'w \<Rightarrow> int \<Rightarrow> 'r \<Rightarrow> (rc \<times> ('w, 'r, 'k, 'a) d_hash_table \<times> 'w) option" where
  "d_hash_rec_ndecref t w cnt r =
     Option.bind (ndecref_loop t w r cnt) (\<lambda>(zombie, cnt', w').
       map_option (\<lambda>(t', w''). (if cnt' \<noteq> 0 then DER_INVAL else DER_SUCCESS, t', w''))
         (drop_zombie zombie t w' r))"

definition d_hash_rec_unlinked :: "('w, 'r, 'k, 'a) d_hash_table \<Rightarrow> 'r \<Rightarrow> bool" where
  "d_hash_rec_unlinked t r = rlink_empty t r"

section \<open>Whole tables\<close>

fun traverse_bucket :: "('r \<Rightarrow> 's \<Rightarrow> rc \<times> 's) \<Rightarrow> 'r list \<Rightarrow> 's \<Rightarrow> rc \<times> 's" where
  "traverse_bucket cb [] s = (DER_SUCCESS, s)"
| "traverse_bucket cb (r # rs) s =
     (case cb r s of (rc, s') \<Rightarrow> if rc \<noteq> DER_SUCCESS then (rc, s') else traverse_bucket cb rs s')"

fun traverse_loop :: "('r \<Rightarrow> 's \<Rightarrow> rc \<times> 's) \<Rightarrow> 'r list list \<Rightarrow> 's \<Rightarrow> rc \<times> 's" where
  "traverse_loop cb [] s = (DER_SUCCESS, s)"
| "traverse_loop cb (b # bs) s =
     (case traverse_bucket cb b s of (rc, s') \<Rightarrow> if rc \<noteq> DER_SUCCESS then (rc, s') else traverse_loop cb bs s')"

text \<open>The buckets \<open>0 \<dots> 2 ^ ht_bits - 1\<close>, \<open>None\<close> if the array is shorter.\<close>

definition all_buckets :: "('w, 'r, 'k, 'a) d_hash_table \<Rightarrow> 'r list list \<Rightarrow> 'r list list option" where
  "all_buckets t bs = (if 2 ^ ht_bits t \<le> length bs then Some (take (2 ^ ht_bits t) bs) else None)"

definition d_hash_table_traverse ::
  "('w, 'r, 'k, 'a) d_hash_table \<Rightarrow> ('r \<Rightarrow> 's \<Rightarrow> rc \<times> 's) option \<Rightarrow> 's \<Rightarrow> (rc \<times> 's) option" where
  "d_hash_table_traverse t cb s =
     (case ht_buckets t of
        None \<Rightarrow> Some (DER_UNINIT, s)
      | Some bs \<Rightarrow>
          (case cb of
             None \<Rightarrow> Some (DER_INVAL, s)
           | Some f \<Rightarrow> map_option (\<lambda>bs'. traverse_loop f bs' s) (all_buckets t bs)))"

definition d_hash_find_single :: "'r \<Rightarrow> 'r option \<Rightarrow> rc \<times> 'r option" where
  "d_hash_find_single r arg = (RC_OTHER 1, Some r)"

definition d_hash_rec_first :: "('w, 'r, 'k, 'a) d_hash_table \<Rightarrow> 'r option option" where
  "d_hash_rec_first t =
     map_option (\<lambda>(rc, rlink). if rc \<noteq> DER_SUCCESS \<and> rc \<noteq> RC_OTHER 1 then None else rlink)
       (d_hash_table_traverse t (Some d_hash_find_single) None)"

text \<open>
  Creation in the memory of \<open>t\<close>. After a failed lock initialisation \<open>ht_buckets\<close> still names the
  block that has been freed.
\<close>

definition d_hash_table_create_inplace ::
  "bool \<Rightarrow> rc \<Rightarrow> u32 \<Rightarrow> nat \<Rightarrow> ('w, 'r, 'k, 'a) d_hash_table_ops option \<Rightarrow> ('w, 'r, 'k, 'a) d_hash_table \<Rightarrow>
     (rc \<times> ('w, 'r, 'k, 'a) d_hash_table) option" where
  "d_hash_table_create_inplace alloc lock_rc feats bits hops t =
     Option.bind hops (\<lambda>ops.
       if hop_key_cmp ops = None then None
       else
         let t' = t\<lparr>ht_feats := feats, ht_bits := bits, ht_ops := Some ops\<rparr> in
         if \<not> alloc then Some (DER_NOMEM, t')
         else
           let t'' = t'\<lparr>ht_buckets := Some (replicate (2 ^ bits) [])\<rparr> in
           if lock_rc \<noteq> DER_SUCCESS then Some (lock_rc, t'') else Some (DER_SUCCESS, t''))"

text \<open>The zeroed structure.\<close>

definition zeroed_table :: "('w, 'r, 'k, 'a) d_hash_table" where
  "zeroed_table = \<lparr>ht_bits = 0, ht_feats = 0, ht_ops = None, ht_buckets = None\<rparr>"

definition d_hash_table_create ::
  "bool \<Rightarrow> bool \<Rightarrow> rc \<Rightarrow> u32 \<Rightarrow> nat \<Rightarrow> ('w, 'r, 'k, 'a) d_hash_table_ops option \<Rightarrow>
     (rc \<times> ('w, 'r, 'k, 'a) d_hash_table option) option" where
  "d_hash_table_create alloc_t alloc lock_rc feats bits hops =
     (if \<not> alloc_t then Some (DER_NOMEM, None)
      else
        map_option (\<lambda>(rc, t). if rc \<noteq> DER_SUCCESS then (rc, None) else (DER_SUCCESS, Some t))
          (d_hash_table_create_inplace alloc lock_rc feats bits hops zeroed_table))"

definition d_hash_table_is_empty :: "('w, 'r, 'k, 'a) d_hash_table \<Rightarrow> bool option" where
  "d_hash_table_is_empty t =
     (case ht_buckets t of
        None \<Rightarrow> Some True
      | Some bs \<Rightarrow> map_option (list_all (\<lambda>b. b = [])) (all_buckets t bs))"

section \<open>Destruction\<close>

text \<open>Empties bucket \<open>i\<close>, head first; \<open>Inl\<close> is the early return.\<close>

definition bucket_at :: "('w, 'r, 'k, 'a) d_hash_table \<Rightarrow> nat \<Rightarrow> 'r list" where
  "bucket_at t i = (case ht_buckets t of None \<Rightarrow> [] | Some bs \<Rightarrow> if i < length bs then bs ! i else [])"

lemma bucket_at_delete [simp]: "bucket_at (ch_rec_delete t r) i = removeAll r (bucket_at t i)"
  by (auto simp: bucket_at_def ch_rec_delete_def split: option.splits)

lemma delete_at_table: "d_hash_rec_delete_at t w r = Some (d, t', w') \<Longrightarrow> \<not> rlink_empty t r \<Longrightarrow> t' = ch_rec_delete t r"
  by (auto simp: d_hash_rec_delete_at_def ch_rec_del_decref_def Let_def split: if_splits bind_splits)

lemma bucket_head_linked: "bucket_at t i = r # rs \<Longrightarrow> \<not> rlink_empty t r"
  by (auto simp: bucket_at_def rlink_empty_def list_all_iff split: option.splits if_splits)
    (metis list.set_intros(1) nth_mem)

function destroy_bucket ::
  "bool \<Rightarrow> nat \<Rightarrow> ('w, 'r, 'k, 'a) d_hash_table \<Rightarrow> 'w \<Rightarrow> (rc \<times> ('w, 'r, 'k, 'a) d_hash_table \<times> 'w) option" where
  "destroy_bucket force i t w =
     (case bucket_at t i of
        [] \<Rightarrow> Some (DER_SUCCESS, t, w)
      | r # rs \<Rightarrow>
          if \<not> force then Some (DER_BUSY, t, w)
          else (case d_hash_rec_delete_at t w r of
                  None \<Rightarrow> None
                | Some (deleted, t', w') \<Rightarrow> destroy_bucket force i t' w'))"
  by pat_completeness auto
termination
proof (relation "measure (\<lambda>(force, i, t, w). length (bucket_at t i))", goal_cases)
  case (2 force i t w r rs d x y t' w')
  then have "t' = ch_rec_delete t r" using delete_at_table bucket_head_linked by metis
  then show ?case using 2 by (auto simp: le_imp_less_Suc)
qed simp

declare destroy_bucket.simps [simp del]

fun destroy_loop ::
  "bool \<Rightarrow> nat \<Rightarrow> nat \<Rightarrow> ('w, 'r, 'k, 'a) d_hash_table \<Rightarrow> 'w \<Rightarrow> (rc \<times> ('w, 'r, 'k, 'a) d_hash_table \<times> 'w) option" where
  "destroy_loop force 0 i t w = Some (DER_SUCCESS, t, w)"
| "destroy_loop force (Suc n) i t w =
     (case destroy_bucket force i t w of
        None \<Rightarrow> None
      | Some (rc, t', w') \<Rightarrow> if rc \<noteq> DER_SUCCESS then Some (rc, t', w') else destroy_loop force n (Suc i) t' w')"

definition d_hash_table_destroy_inplace ::
  "('w, 'r, 'k, 'a) d_hash_table \<Rightarrow> 'w \<Rightarrow> bool \<Rightarrow> (rc \<times> ('w, 'r, 'k, 'a) d_hash_table \<times> 'w) option" where
  "d_hash_table_destroy_inplace t w force =
     (case ht_buckets t of
        None \<Rightarrow> Some (DER_SUCCESS, zeroed_table, w)
      | Some bs \<Rightarrow>
          if \<not> 2 ^ ht_bits t \<le> length bs then None
          else
            Option.bind (destroy_loop force (2 ^ ht_bits t) 0 t w) (\<lambda>(rc, t', w').
              if rc \<noteq> DER_SUCCESS then Some (rc, t', w') else Some (DER_SUCCESS, zeroed_table, w')))"

definition d_hash_table_destroy ::
  "('w, 'r, 'k, 'a) d_hash_table \<Rightarrow> 'w \<Rightarrow> bool \<Rightarrow> (rc \<times> ('w, 'r, 'k, 'a) d_hash_table option \<times> 'w) option" where
  "d_hash_table_destroy t w force =
     map_option (\<lambda>(rc, t', w'). if rc \<noteq> DER_SUCCESS then (rc, Some t', w') else (DER_SUCCESS, None, w'))
       (d_hash_table_destroy_inplace t w force)"

end
