(* ===== verification/Hash_Map.thy ===== *)
theory Hash_Map
  imports Hash_Table
begin

text \<open>
  What a client of the hash table may rely on. The locale states what the member functions of a
  client promise (the comparison compares keys, the reference functions count, nothing else is
  touched); under these laws the table implements a finite map from keys to records that holds one
  reference per linked record: lookup, insertion, deletion and destruction are proved once for every
  client.
\<close>

section \<open>Slots\<close>

definition slot_of :: "nat \<Rightarrow> u32 \<Rightarrow> nat" where
  "slot_of bits h = unat (h AND (push_bit bits 1 - 1))"

lemma slot_of_less:
  assumes "bits < 32"
  shows "slot_of bits h < 2 ^ bits"
proof -
  have "h AND (push_bit bits 1 - 1) = take_bit bits h"
    using assms by (simp add: take_bit_eq_mask mask_eq_exp_minus_1 push_bit_eq_mult)
  then show ?thesis
    using assms by (simp add: slot_of_def unsigned_take_bit_eq)
qed

lemma set_concat_cons: "i < length bs \<Longrightarrow> \<Union> (set ` set (bs[i := r # bs ! i])) = insert r (\<Union> (set ` set bs))"
proof (induction bs arbitrary: i)
  case (Cons b bs)
  then show ?case by (cases i) auto
qed simp

section \<open>The contract of the member functions\<close>

text \<open>
  \<open>key_of\<close> and \<open>ref_of\<close> read the key and the reference count of a record in the state, \<open>freeable\<close>
  is the condition under which the free function succeeds.
\<close>

locale hash_client =
  fixes ops :: "('w, 'r, 'k, 'a) d_hash_table_ops"
    and key_of :: "'w \<Rightarrow> 'r \<Rightarrow> 'k" and ref_of :: "'w \<Rightarrow> 'r \<Rightarrow> u32"
    and freeable :: "'w \<Rightarrow> 'r \<Rightarrow> bool" and ksz :: nat and hashf :: "'k \<Rightarrow> u32"
  assumes ksz: "ksz \<noteq> 0"
    and cmp: "\<exists>f. hop_key_cmp ops = Some f \<and> (\<forall>w r k. f w r k ksz = Some (key_of w r = k))"
    and hash: "(case hop_key_hash ops of Some f \<Rightarrow> f k ksz | None \<Rightarrow> d_hash_string_u32 (key_bytes ops k) ksz)
                 = Some (hashf k)"
    and addref: "\<exists>f. hop_rec_addref ops = Some f \<and> (\<forall>w r. \<exists>w'. f w r = Some w' \<and> key_of w' = key_of w
                 \<and> ref_of w' = (ref_of w)(r := ref_of w r + 1) \<and> freeable w' = freeable w)"
    and decref: "\<exists>f. hop_rec_decref ops = Some f \<and> (\<forall>w r. ref_of w r \<noteq> 0 \<longrightarrow>
                 (\<exists>w'. f w r = Some (ref_of w r = 1, w') \<and> key_of w' = key_of w
                   \<and> ref_of w' = (ref_of w)(r := ref_of w r - 1) \<and> (\<forall>q. freeable w q \<longrightarrow> freeable w' q)))"
    and free: "\<exists>f. hop_rec_free ops = Some f \<and> (\<forall>w r. ref_of w r = 0 \<and> freeable w r \<longrightarrow>
                 (\<exists>w'. f w r = Some w' \<and> (\<forall>q. q \<noteq> r \<longrightarrow> key_of w' q = key_of w q \<and> ref_of w' q = ref_of w q
                   \<and> (freeable w q \<longrightarrow> freeable w' q))))"
begin

definition links :: "('w, 'r, 'k, 'a) d_hash_table \<Rightarrow> 'r set" where
  "links t = (case ht_buckets t of None \<Rightarrow> {} | Some bs \<Rightarrow> set (concat bs))"

text \<open>
  The invariant of a table that only holds references it took: every record sits in the bucket of
  its key, keys are unique, and a linked record is referenced.
\<close>

definition table_ok :: "('w, 'r, 'k, 'a) d_hash_table \<Rightarrow> 'w \<Rightarrow> bool" where
  "table_ok t w \<longleftrightarrow>
     ht_ops t = Some ops \<and> ht_bits t < 32 \<and> \<not> ephemeral t
     \<and> (\<exists>bs. ht_buckets t = Some bs \<and> length bs = 2 ^ ht_bits t
          \<and> (\<forall>i < length bs. \<forall>r \<in> set (bs ! i). slot_of (ht_bits t) (hashf (key_of w r)) = i))
     \<and> inj_on (key_of w) (links t) \<and> (\<forall>r \<in> links t. ref_of w r \<noteq> 0)"

lemma table_okI:
  assumes "ht_ops t = Some ops" "ht_bits t < 32" "\<not> ephemeral t" "ht_buckets t = Some bs" "length bs = 2 ^ ht_bits t"
    and "\<And>i r. i < length bs \<Longrightarrow> r \<in> set (bs ! i) \<Longrightarrow> slot_of (ht_bits t) (hashf (key_of w r)) = i"
    and "inj_on (key_of w) (links t)" "\<And>r. r \<in> links t \<Longrightarrow> ref_of w r \<noteq> 0"
  shows "table_ok t w"
  using assms unfolding table_ok_def by blast

text \<open>The map the table represents.\<close>

definition table_map :: "('w, 'r, 'k, 'a) d_hash_table \<Rightarrow> 'w \<Rightarrow> 'k \<Rightarrow> 'r option" where
  "table_map t w k = (if \<exists>r \<in> links t. key_of w r = k then Some (the_inv_into (links t) (key_of w) k) else None)"

lemma table_map_Some: "inj_on (key_of w) (links t) \<Longrightarrow> table_map t w k = Some r \<longleftrightarrow> r \<in> links t \<and> key_of w r = k"
  unfolding table_map_def by (auto simp: the_inv_into_f_f) (metis the_inv_into_f_f)

lemma table_map_None: "table_map t w k = None \<longleftrightarrow> (\<forall>r \<in> links t. key_of w r \<noteq> k)"
  by (auto simp: table_map_def)

lemma links_empty: "rlink_empty t r \<longleftrightarrow> r \<notin> links t"
  by (auto simp: rlink_empty_def links_def list_all_iff split: option.splits)

lemma links_delete: "links (ch_rec_delete t r) = links t - {r}"
  by (auto simp: links_def ch_rec_delete_def split: option.splits)

lemma key_hash: "ht_ops t = Some ops \<Longrightarrow> ch_key_hash t k ksz = Some (slot_of (ht_bits t) (hashf k))"
  using hash [of k] by (simp add: ch_key_hash_def slot_of_def)

lemma find_loop_exact:
  assumes "ht_ops t = Some ops"
  shows "find_loop t w k ksz rs = Some (List.find (\<lambda>r. key_of w r = k) rs)"
proof -
  obtain f where "hop_key_cmp ops = Some f" "\<And>w r k. f w r k ksz = Some (key_of w r = k)"
    using cmp by blast
  then have c: "ch_key_cmp t w r k ksz = Some (key_of w r = k)" for r
    using assms by (simp add: ch_key_cmp_def)
  show ?thesis by (induction rs) (simp_all add: c)
qed

lemma rec_find_exact:
  assumes "table_ok t w"
  shows "ch_rec_find t w (slot_of (ht_bits t) (hashf k)) k ksz = Some (table_map t w k)"
proof -
  obtain bs where bs: "ht_buckets t = Some bs" "length bs = 2 ^ ht_bits t"
    and pl: "\<And>i r. i < length bs \<Longrightarrow> r \<in> set (bs ! i) \<Longrightarrow> slot_of (ht_bits t) (hashf (key_of w r)) = i"
    using assms unfolding table_ok_def by blast
  let ?i = "slot_of (ht_bits t) (hashf k)"
  have o: "ht_ops t = Some ops" and inj: "inj_on (key_of w) (links t)" and b: "ht_bits t < 32"
    using assms unfolding table_ok_def by blast+
  have i: "?i < length bs" using bs slot_of_less [OF b] by simp
  have l: "r \<in> links t \<longleftrightarrow> (\<exists>i < length bs. r \<in> set (bs ! i))" for r
    by (auto simp: links_def bs(1)) (metis in_set_conv_nth)
  have "List.find (\<lambda>r. key_of w r = k) (bs ! ?i) = table_map t w k"
  proof (cases "List.find (\<lambda>r. key_of w r = k) (bs ! ?i)")
    case None
    then have "key_of w r \<noteq> k" if "r \<in> links t" for r
      using that pl by (auto simp: find_None_iff l)
    then have "table_map t w k = None" by (simp add: table_map_None)
    then show ?thesis using None by simp
  next
    case (Some r)
    then have "r \<in> set (bs ! ?i)" "key_of w r = k"
      by (auto simp: find_Some_iff)
    then have "table_map t w k = Some r" using i by (intro table_map_Some [THEN iffD2, OF inj]) (auto simp: l)
    then show ?thesis using Some by simp
  qed
  then show ?thesis
    using i by (simp add: ch_rec_find_def bs(1) find_loop_exact [OF o])
qed

lemma addref_exact:
  assumes "ht_ops t = Some ops"
  obtains w' where "ch_rec_addref t w r = Some w'" "key_of w' = key_of w"
    "ref_of w' = (ref_of w)(r := ref_of w r + 1)" "freeable w' = freeable w"
proof -
  obtain f where "hop_rec_addref ops = Some f" "\<exists>w'. f w r = Some w' \<and> key_of w' = key_of w
      \<and> ref_of w' = (ref_of w)(r := ref_of w r + 1) \<and> freeable w' = freeable w"
    using addref by blast
  then show thesis using that assms by (auto simp: ch_rec_addref_def)
qed

lemma decref_exact:
  assumes "ht_ops t = Some ops" "ref_of w r \<noteq> 0"
  obtains w' where "ch_rec_decref t w r = Some (ref_of w r = 1, w')" "key_of w' = key_of w"
    "ref_of w' = (ref_of w)(r := ref_of w r - 1)" "\<And>q. freeable w q \<Longrightarrow> freeable w' q"
proof -
  obtain f where "hop_rec_decref ops = Some f" "\<exists>w'. f w r = Some (ref_of w r = 1, w') \<and> key_of w' = key_of w
      \<and> ref_of w' = (ref_of w)(r := ref_of w r - 1) \<and> (\<forall>q. freeable w q \<longrightarrow> freeable w' q)"
    using decref assms(2) by blast
  then show thesis using that assms(1) by (auto simp: ch_rec_decref_def)
qed

lemma table_ok_cong:
  assumes "table_ok t w" "\<And>r. r \<in> links t \<Longrightarrow> key_of w' r = key_of w r" "\<And>r. r \<in> links t \<Longrightarrow> ref_of w' r \<noteq> 0"
  shows "table_ok t w'" "table_map t w' = table_map t w"
proof -
  obtain bs where bs: "ht_buckets t = Some bs" "length bs = 2 ^ ht_bits t"
    and pl: "\<And>i q. i < length bs \<Longrightarrow> q \<in> set (bs ! i) \<Longrightarrow> slot_of (ht_bits t) (hashf (key_of w q)) = i"
    using assms(1) unfolding table_ok_def by blast
  have t: "ht_ops t = Some ops" "ht_bits t < 32" "\<not> ephemeral t" "inj_on (key_of w) (links t)"
    using assms(1) unfolding table_ok_def by blast+
  have "q \<in> links t" if "i < length bs" "q \<in> set (bs ! i)" for i q
    using that bs(1) by (auto simp: links_def)
  then have pl': "slot_of (ht_bits t) (hashf (key_of w' q)) = i" if "i < length bs" "q \<in> set (bs ! i)" for i q
    using that pl assms(2) by simp
  have inj: "inj_on (key_of w') (links t)" using t(4) assms(2) by (simp cong: inj_on_cong)
  show "table_ok t w'" by (rule table_okI [OF t(1,2,3) bs pl' inj assms(3)])
  have "table_map t w' k = table_map t w k" for k
  proof (cases "table_map t w k")
    case None
    then have "table_map t w' k = None" unfolding table_map_None using assms(2) by simp
    then show ?thesis using None by simp
  next
    case (Some r)
    then have "r \<in> links t" "key_of w r = k" using table_map_Some [OF t(4)] by simp_all
    then have "table_map t w' k = Some r" using table_map_Some [OF inj] assms(2) by simp
    then show ?thesis using Some by simp
  qed
  then show "table_map t w' = table_map t w" by (rule ext)
qed

section \<open>Lookup\<close>

lemma find_exact:
  assumes "table_ok t w" "\<And>r. r \<in> links t \<Longrightarrow> ref_of w r \<noteq> - 1"
  shows "\<exists>w'. d_hash_rec_find t w k ksz = Some (table_map t w k, w')
    \<and> table_ok t w' \<and> table_map t w' = table_map t w \<and> key_of w' = key_of w
    \<and> ref_of w' = (case table_map t w k of None \<Rightarrow> ref_of w | Some r \<Rightarrow> (ref_of w)(r := ref_of w r + 1))"
proof -
  have o: "ht_ops t = Some ops" and inj: "inj_on (key_of w) (links t)"
    using assms(1) by (simp_all add: table_ok_def)
  have f: "d_hash_rec_find t w k ksz =
      (case table_map t w k of None \<Rightarrow> Some (None, w) | Some r \<Rightarrow> map_option (\<lambda>w'. (Some r, w')) (ch_rec_addref t w r))"
    by (simp add: d_hash_rec_find_def key_hash [OF o] rec_find_exact [OF assms(1)])
  show ?thesis
  proof (cases "table_map t w k")
    case None
    then show ?thesis using assms(1) f by simp
  next
    case (Some r)
    obtain w' where w': "ch_rec_addref t w r = Some w'" "key_of w' = key_of w"
      "ref_of w' = (ref_of w)(r := ref_of w r + 1)" by (rule addref_exact [OF o])
    have "r \<in> links t" using Some table_map_Some [OF inj] by simp
    then have "ref_of w' q \<noteq> 0" if "q \<in> links t" for q
      using w'(3) assms that by (auto simp: table_ok_def eq_neg_iff_add_eq_0)
    then show ?thesis using Some w' f table_ok_cong [OF assms(1) fun_cong [OF w'(2)]] by simp
  qed
qed

section \<open>Insertion\<close>

lemma table_map_insert:
  assumes "inj_on (key_of w) (links t)" "table_map t w (key_of w r) = None" "links t' = insert r (links t)"
  shows "inj_on (key_of w) (links t')" "table_map t' w = (table_map t w)(key_of w r \<mapsto> r)"
proof -
  have n: "\<And>q. q \<in> links t \<Longrightarrow> key_of w q \<noteq> key_of w r" using assms(2) by (simp add: table_map_None)
  show inj: "inj_on (key_of w) (links t')"
    unfolding assms(3) using assms(1) n by (force simp: inj_on_insert)
  have "table_map t' w k = ((table_map t w)(key_of w r \<mapsto> r)) k" for k
  proof (cases "table_map t w k")
    case None
    then have "key_of w r \<noteq> k \<Longrightarrow> table_map t' w k = None"
      using assms(3) unfolding table_map_None by simp
    then show ?thesis using None assms(3) table_map_Some [OF inj, of k r] by auto
  next
    case (Some q)
    then have "q \<in> links t" "key_of w q = k" using table_map_Some [OF assms(1)] by simp_all
    then show ?thesis using Some n assms(3) table_map_Some [OF inj, of k q] by auto
  qed
  then show "table_map t' w = (table_map t w)(key_of w r \<mapsto> r)" by (rule ext)
qed

lemma insert_addref_exact:
  assumes ok: "table_ok t w" and r: "r \<notin> links t" "ref_of w r \<noteq> - 1" "table_map t w (key_of w r) = None"
  obtains t' w' where
    "ch_rec_insert_addref t w (slot_of (ht_bits t) (hashf (key_of w r))) r = Some (t', w')"
    "table_ok t' w'" "links t' = insert r (links t)" "key_of w' = key_of w"
    "table_map t' w' = (table_map t w)(key_of w r \<mapsto> r)" "ref_of w' = (ref_of w)(r := ref_of w r + 1)"
proof -
  let ?i = "slot_of (ht_bits t) (hashf (key_of w r))"
  obtain bs where bs: "ht_buckets t = Some bs" "length bs = 2 ^ ht_bits t"
    and pl: "\<And>i q. i < length bs \<Longrightarrow> q \<in> set (bs ! i) \<Longrightarrow> slot_of (ht_bits t) (hashf (key_of w q)) = i"
    using ok unfolding table_ok_def by blast
  have t: "ht_ops t = Some ops" "\<not> ephemeral t" "inj_on (key_of w) (links t)" "ht_bits t < 32"
    and ref: "\<And>q. q \<in> links t \<Longrightarrow> ref_of w q \<noteq> 0"
    using ok unfolding table_ok_def by blast+
  have i: "?i < length bs" using bs(2) slot_of_less [OF t(4)] by simp
  obtain w' where w': "ch_rec_addref t w r = Some w'" "key_of w' = key_of w"
    "ref_of w' = (ref_of w)(r := ref_of w r + 1)" by (rule addref_exact [OF t(1)])
  let ?t = "t\<lparr>ht_buckets := Some (bs[?i := r # bs ! ?i])\<rparr>"
  have links: "links ?t = insert r (links t)"
    using i bs(1) by (simp add: links_def set_concat_cons)
  note m = table_map_insert [OF t(3) r(3) links]
  have refs: "ref_of w' q \<noteq> 0" if "q \<in> links ?t" for q
    using that ref r(2) w'(3) by (auto simp: links eq_neg_iff_add_eq_0)
  have eph: "\<not> ephemeral ?t" using t(2) by (simp add: ephemeral_def)
  have pl': "slot_of (ht_bits ?t) (hashf (key_of w' q)) = j"
    if j: "j < length (bs[?i := r # bs ! ?i])" and q: "q \<in> set (bs[?i := r # bs ! ?i] ! j)" for j q
  proof (cases "j = ?i")
    case True
    then have "q = r \<or> q \<in> set (bs ! j)" using q j by simp
    then show ?thesis using pl [of j q] True j w'(2) by auto
  qed (use pl [of j q] q j w'(2) in simp)
  have ok': "table_ok ?t w'"
    by (rule table_okI [OF _ _ eph _ _ pl' _ refs]) (use t bs(2) m(1) w'(2) in simp_all)
  have ins: "ch_rec_insert_addref t w ?i r = Some (?t, w')"
    using t(2) w'(1) i bs(1) by (simp add: ch_rec_insert_addref_def ch_rec_insert_def)
  have "table_map ?t w' = (table_map t w)(key_of w r \<mapsto> r)"
    using m(2) unfolding table_map_def w'(2) .
  then show thesis using that [OF ins ok' links w'(2) _ w'(3)] by blast
qed

lemma insert_exact:
  assumes "table_ok t w" "r \<notin> links t" "ref_of w r \<noteq> - 1" "table_map t w (key_of w r) = None"
  shows "\<exists>t' w'. d_hash_rec_insert t w (key_of w r) ksz r exclusive = Some (DER_SUCCESS, t', w')
    \<and> table_ok t' w' \<and> links t' = insert r (links t) \<and> key_of w' = key_of w
    \<and> table_map t' w' = (table_map t w)(key_of w r \<mapsto> r) \<and> ref_of w' = (ref_of w)(r := ref_of w r + 1)"
proof -
  have o: "ht_ops t = Some ops" using assms(1) by (simp add: table_ok_def)
  obtain t' w' where
    "ch_rec_insert_addref t w (slot_of (ht_bits t) (hashf (key_of w r))) r = Some (t', w')"
    "table_ok t' w'" "links t' = insert r (links t)" "key_of w' = key_of w"
    "table_map t' w' = (table_map t w)(key_of w r \<mapsto> r)" "ref_of w' = (ref_of w)(r := ref_of w r + 1)"
    by (rule insert_addref_exact [OF assms])
  then show ?thesis
    using ksz assms(4) by (simp add: d_hash_rec_insert_def key_hash [OF o] rec_find_exact [OF assms(1)])
qed

lemma insert_exists:
  assumes "table_ok t w" "table_map t w k \<noteq> None"
  shows "d_hash_rec_insert t w k ksz r True = Some (DER_EXIST, t, w)"
proof -
  have o: "ht_ops t = Some ops" using assms(1) by (simp add: table_ok_def)
  show ?thesis using ksz assms(2) by (simp add: d_hash_rec_insert_def key_hash [OF o] rec_find_exact [OF assms(1)])
qed

lemma find_insert_exact:
  assumes "table_ok t w" "\<And>q. q \<in> insert r (links t) \<Longrightarrow> ref_of w q \<noteq> - 1" "r \<notin> links t"
  shows "\<exists>q t' w'. d_hash_rec_find_insert t w (key_of w r) ksz r = Some (q, t', w') \<and> table_ok t' w'
    \<and> key_of w' = key_of w \<and> ref_of w' = (ref_of w)(q := ref_of w q + 1)
    \<and> (case table_map t w (key_of w r) of
         None \<Rightarrow> q = r \<and> links t' = insert r (links t) \<and> table_map t' w' = (table_map t w)(key_of w r \<mapsto> r)
       | Some q' \<Rightarrow> q = q' \<and> t' = t \<and> table_map t' w' = table_map t w)"
proof -
  have o: "ht_ops t = Some ops" and inj: "inj_on (key_of w) (links t)" using assms(1) by (simp_all add: table_ok_def)
  note f = d_hash_rec_find_insert_def key_hash [OF o] rec_find_exact [OF assms(1)] ksz
  show ?thesis
  proof (cases "table_map t w (key_of w r)")
    case None
    have nr: "ref_of w r \<noteq> - 1" using assms(2) by simp
    obtain t' w' where
      "ch_rec_insert_addref t w (slot_of (ht_bits t) (hashf (key_of w r))) r = Some (t', w')"
      "table_ok t' w'" "links t' = insert r (links t)" "key_of w' = key_of w"
      "table_map t' w' = (table_map t w)(key_of w r \<mapsto> r)" "ref_of w' = (ref_of w)(r := ref_of w r + 1)"
      by (rule insert_addref_exact [OF assms(1,3) nr None])
    then show ?thesis using None by (simp add: f)
  next
    case (Some q)
    obtain w' where w': "ch_rec_addref t w q = Some w'" "key_of w' = key_of w"
      "ref_of w' = (ref_of w)(q := ref_of w q + 1)" by (rule addref_exact [OF o])
    have "q \<in> links t" using Some table_map_Some [OF inj] by simp
    then have "ref_of w' x \<noteq> 0" if "x \<in> links t" for x
      using w'(3) assms that by (auto simp: table_ok_def eq_neg_iff_add_eq_0)
    then show ?thesis using Some w' table_ok_cong [OF assms(1) fun_cong [OF w'(2)]] by (simp add: f)
  qed
qed

section \<open>Deletion\<close>

text \<open>
  What dropping the table's reference on \<open>r\<close> leaves: everything else untouched, and \<open>r\<close> itself
  with one reference less unless that was the last one, on which the record is freed.
\<close>

definition dropped :: "'r set \<Rightarrow> 'w \<Rightarrow> 'w \<Rightarrow> bool" where
  "dropped R w w' \<longleftrightarrow>
     (\<forall>q. q \<notin> R \<longrightarrow> key_of w' q = key_of w q \<and> ref_of w' q = ref_of w q \<and> (freeable w q \<longrightarrow> freeable w' q))
     \<and> (\<forall>q \<in> R. ref_of w q \<noteq> 1 \<longrightarrow> key_of w' q = key_of w q \<and> ref_of w' q = ref_of w q - 1)"

lemma dropped_trans: "dropped R w w' \<Longrightarrow> dropped S w' w'' \<Longrightarrow> R \<inter> S = {} \<Longrightarrow> dropped (R \<union> S) w w''"
  unfolding dropped_def by (metis IntI Un_iff empty_iff)

lemma table_ok_delete:
  assumes ok: "table_ok t w" and w': "dropped {r} w w'" and r: "r \<in> links t"
  shows "table_ok (ch_rec_delete t r) w'" "table_map (ch_rec_delete t r) w' = (table_map t w)(key_of w r := None)"
proof -
  let ?t = "ch_rec_delete t r"
  obtain bs where bs: "ht_buckets t = Some bs" "length bs = 2 ^ ht_bits t"
    and pl: "\<And>i q. i < length bs \<Longrightarrow> q \<in> set (bs ! i) \<Longrightarrow> slot_of (ht_bits t) (hashf (key_of w q)) = i"
    using ok unfolding table_ok_def by blast
  have t: "ht_ops t = Some ops" "\<not> ephemeral t" "inj_on (key_of w) (links t)" "ht_bits t < 32"
    and ref: "\<And>q. q \<in> links t \<Longrightarrow> ref_of w q \<noteq> 0"
    using ok unfolding table_ok_def by blast+
  have keep: "key_of w' q = key_of w q" "ref_of w' q = ref_of w q" if "q \<noteq> r" for q
    using w' that by (simp_all add: dropped_def)
  have b': "ht_buckets ?t = Some (map (removeAll r) bs)" using bs(1) by (simp add: ch_rec_delete_def)
  have f: "ht_ops ?t = Some ops" "ht_bits ?t = ht_bits t" "\<not> ephemeral ?t"
    using t(1,2) by (simp_all add: ch_rec_delete_def ephemeral_def)
  have inj: "inj_on (key_of w') (links ?t)"
    using t(3) keep(1) unfolding links_delete inj_on_def by simp
  have pl': "slot_of (ht_bits ?t) (hashf (key_of w' q)) = i"
    if "i < length (map (removeAll r) bs)" "q \<in> set (map (removeAll r) bs ! i)" for i q
    using that pl [of i q] keep(1) [of q] f(2) by simp
  have ref': "ref_of w' q \<noteq> 0" if "q \<in> links ?t" for q
    using that ref keep(2) [of q] by (simp add: links_delete)
  show "table_ok ?t w'"
    by (rule table_okI [OF f(1) _ f(3) b' _ pl' inj ref']) (use t(4) f(2) bs(2) in simp_all)
  have "table_map ?t w' k = ((table_map t w)(key_of w r := None)) k" for k
  proof (cases "table_map t w k")
    case None
    then have "table_map ?t w' k = None" unfolding table_map_None by (simp add: links_delete keep(1))
    then show ?thesis using None by simp
  next
    case (Some q)
    then have q: "q \<in> links t" "key_of w q = k" using table_map_Some [OF t(3)] by simp_all
    show ?thesis
    proof (cases "q = r")
      case True
      have "key_of w x \<noteq> key_of w r" if "x \<in> links t" "x \<noteq> r" for x
        using that r t(3) by (auto dest: inj_onD)
      then have "table_map ?t w' k = None"
        unfolding table_map_None using q True by (simp add: links_delete keep(1))
      then show ?thesis using q True by simp
    next
      case False
      then have "table_map ?t w' k = Some q"
        using q keep(1) by (intro table_map_Some [THEN iffD2, OF inj]) (simp add: links_delete)
      moreover have "key_of w r \<noteq> k" using q False r t(3) by (auto dest: inj_onD)
      ultimately show ?thesis using Some by simp
    qed
  qed
  then show "table_map ?t w' = (table_map t w)(key_of w r := None)" by (rule ext)
qed

lemma del_decref_exact:
  assumes "ht_ops t = Some ops" "\<not> ephemeral t" "ref_of w r \<noteq> 0" "ref_of w r = 1 \<longrightarrow> freeable w r"
  obtains z w1 w2 where "ch_rec_del_decref t w r = Some (z, ch_rec_delete t r, w1)"
    "free_if_zombie z (ch_rec_delete t r) w1 r = Some w2" "dropped {r} w w2"
proof -
  let ?t = "ch_rec_delete t r"
  have o: "ht_ops ?t = Some ops" using assms(1) by (simp add: ch_rec_delete_def)
  obtain w1 where w1: "ch_rec_decref ?t w r = Some (ref_of w r = 1, w1)" "key_of w1 = key_of w"
    "ref_of w1 = (ref_of w)(r := ref_of w r - 1)" "\<And>q. freeable w q \<Longrightarrow> freeable w1 q"
    by (rule decref_exact [OF o assms(3)]) blast
  have d: "ch_rec_del_decref t w r = Some (ref_of w r = 1, ?t, w1)"
    using assms(2) w1(1) by (simp add: ch_rec_del_decref_def)
  show thesis
  proof (cases "ref_of w r = 1")
    case False
    then have "free_if_zombie (ref_of w r = 1) ?t w1 r = Some w1" by (simp add: free_if_zombie_def)
    moreover have "dropped {r} w w1" using w1 False by (auto simp: dropped_def)
    ultimately show thesis using that [OF d] by blast
  next
    case True
    obtain f where f: "hop_rec_free ops = Some f" and law: "\<And>w r. ref_of w r = 0 \<and> freeable w r \<Longrightarrow>
        \<exists>w'. f w r = Some w' \<and> (\<forall>q. q \<noteq> r \<longrightarrow> key_of w' q = key_of w q \<and> ref_of w' q = ref_of w q
                   \<and> (freeable w q \<longrightarrow> freeable w' q))"
      using free by blast
    have "ref_of w1 r = 0" "freeable w1 r" using True w1(3,4) assms(4) by simp_all
    then obtain w2 where w2: "f w1 r = Some w2"
      "\<And>q. q \<noteq> r \<Longrightarrow> key_of w2 q = key_of w1 q \<and> ref_of w2 q = ref_of w1 q \<and> (freeable w1 q \<longrightarrow> freeable w2 q)"
      using law [of w1 r] by blast
    have "free_if_zombie (ref_of w r = 1) ?t w1 r = Some w2"
      using True o f w2(1) by (simp add: free_if_zombie_def ch_rec_free_def)
    moreover have "dropped {r} w w2" using w1 w2(2) True by (auto simp: dropped_def)
    ultimately show thesis using that [OF d] by blast
  qed
qed

lemma delete_at_exact:
  assumes ok: "table_ok t w" and r: "r \<in> links t" and fr: "ref_of w r = 1 \<longrightarrow> freeable w r"
  obtains w' where "d_hash_rec_delete_at t w r = Some (True, ch_rec_delete t r, w')" "dropped {r} w w'"
    "table_ok (ch_rec_delete t r) w'" "table_map (ch_rec_delete t r) w' = (table_map t w)(key_of w r := None)"
proof -
  have t: "ht_ops t = Some ops" "\<not> ephemeral t" and ref: "ref_of w r \<noteq> 0"
    using ok r unfolding table_ok_def by blast+
  obtain z w1 w2 where d: "ch_rec_del_decref t w r = Some (z, ch_rec_delete t r, w1)"
    "free_if_zombie z (ch_rec_delete t r) w1 r = Some w2" "dropped {r} w w2"
    by (rule del_decref_exact [OF t ref fr])
  have "d_hash_rec_delete_at t w r = Some (True, ch_rec_delete t r, w2)"
    using d(1,2) r by (simp add: d_hash_rec_delete_at_def links_empty)
  then show thesis using that [OF _ d(3)] table_ok_delete [OF ok d(3) r] by blast
qed

lemma delete_exact:
  assumes ok: "table_ok t w" and fr: "\<And>r. table_map t w k = Some r \<Longrightarrow> ref_of w r = 1 \<longrightarrow> freeable w r"
  shows "\<exists>t' w'. d_hash_rec_delete t w k ksz = Some (table_map t w k \<noteq> None, t', w') \<and> table_ok t' w'
    \<and> table_map t' w' = (table_map t w)(k := None) \<and> dropped (set_option (table_map t w k)) w w'"
proof -
  have t: "ht_ops t = Some ops" "\<not> ephemeral t" and inj: "inj_on (key_of w) (links t)"
    using ok unfolding table_ok_def by blast+
  note f = d_hash_rec_delete_def key_hash [OF t(1)] rec_find_exact [OF ok]
  show ?thesis
  proof (cases "table_map t w k")
    case None
    then have "(table_map t w)(k := None) = table_map t w" by (simp add: fun_upd_idem)
    then show ?thesis using None ok by (simp add: f dropped_def)
  next
    case (Some r)
    then have r: "r \<in> links t" "key_of w r = k" using table_map_Some [OF inj] by simp_all
    have ref: "ref_of w r \<noteq> 0" using ok r(1) unfolding table_ok_def by blast
    obtain z w1 w2 where d: "ch_rec_del_decref t w r = Some (z, ch_rec_delete t r, w1)"
      "free_if_zombie z (ch_rec_delete t r) w1 r = Some w2" "dropped {r} w w2"
      by (rule del_decref_exact [OF t ref fr [OF Some]])
    show ?thesis using Some d table_ok_delete [OF ok d(3) r(1)] r(2) by (simp add: f)
  qed
qed

section \<open>Reference counting on linked records\<close>

lemma rec_decref_linked:
  assumes "table_ok t w" "r \<in> links t" "ref_of w r \<noteq> 1"
  shows "\<exists>w'. d_hash_rec_decref t w r = Some (t, w') \<and> table_ok t w' \<and> table_map t w' = table_map t w
    \<and> key_of w' = key_of w \<and> ref_of w' = (ref_of w)(r := ref_of w r - 1)"
proof -
  have o: "ht_ops t = Some ops" and ref: "\<And>q. q \<in> links t \<Longrightarrow> ref_of w q \<noteq> 0"
    using assms(1) unfolding table_ok_def by blast+
  obtain w' where w': "ch_rec_decref t w r = Some (ref_of w r = 1, w')" "key_of w' = key_of w"
    "ref_of w' = (ref_of w)(r := ref_of w r - 1)"
    by (rule decref_exact [OF o ref [OF assms(2)]])
  have "ref_of w' q \<noteq> 0" if "q \<in> links t" for q
    using that ref [OF that] w'(3) assms(3) by auto
  note k = table_ok_cong [OF assms(1) fun_cong [OF w'(2)] this]
  have "d_hash_rec_decref t w r = Some (t, w')"
    using w'(1) assms(3) by (simp add: d_hash_rec_decref_def drop_zombie_def free_if_zombie_def)
  then show ?thesis using k w'(2,3) by blast
qed

text \<open>Dropping the last reference of a record the table still links is the failed assertion.\<close>

lemma rec_decref_last_linked:
  assumes "table_ok t w" "r \<in> links t" "ref_of w r = 1"
  shows "d_hash_rec_decref t w r = None"
proof -
  have o: "ht_ops t = Some ops" "\<not> ephemeral t" using assms(1) unfolding table_ok_def by blast+
  have z: "ref_of w r \<noteq> 0" using assms(3) by simp
  obtain w' where "ch_rec_decref t w r = Some (ref_of w r = 1, w')"
    by (rule decref_exact [OF o(1) z])
  then show ?thesis using assms o(2) by (simp add: d_hash_rec_decref_def drop_zombie_def links_empty)
qed

section \<open>Destruction\<close>

lemma bucket_links: "set (bucket_at t i) \<subseteq> links t"
  by (auto simp: bucket_at_def links_def split: option.splits if_splits) (meson nth_mem)

lemma destroy_bucket_exact:
  "\<lbrakk>table_ok t w; \<forall>r \<in> links t. ref_of w r = 1 \<longrightarrow> freeable w r\<rbrakk> \<Longrightarrow>
     \<exists>t' w'. destroy_bucket True i t w = Some (DER_SUCCESS, t', w') \<and> table_ok t' w'
       \<and> links t' = links t - set (bucket_at t i) \<and> bucket_at t' i = [] \<and> ht_bits t' = ht_bits t
       \<and> (\<forall>j. bucket_at t j = [] \<longrightarrow> bucket_at t' j = []) \<and> dropped (set (bucket_at t i)) w w'"
proof (induction "length (bucket_at t i)" arbitrary: t w rule: less_induct)
  case less
  show ?case
  proof (cases "bucket_at t i")
    case Nil
    then show ?thesis using less.prems by (subst destroy_bucket.simps) (simp add: dropped_def)
  next
    case (Cons r rs)
    then have r: "r \<in> links t" using bucket_links [of t i] by auto
    let ?t = "ch_rec_delete t r"
    obtain w1 where w1: "d_hash_rec_delete_at t w r = Some (True, ?t, w1)" "dropped {r} w w1" "table_ok ?t w1"
      using delete_at_exact [OF less.prems(1) r] less.prems(2) r by metis
    have b: "bucket_at ?t i = removeAll r rs" "set (bucket_at t i) = insert r (set (bucket_at ?t i))"
      using Cons by auto
    have fr: "\<forall>q \<in> links ?t. ref_of w1 q = 1 \<longrightarrow> freeable w1 q"
      using less.prems(2) w1(2) by (auto simp: links_delete dropped_def)
    have "length (bucket_at ?t i) < length (bucket_at t i)"
      using Cons b(1) by (simp add: le_imp_less_Suc)
    from less.hyps [OF this w1(3) fr] obtain t' w' where t':
      "destroy_bucket True i ?t w1 = Some (DER_SUCCESS, t', w')" "table_ok t' w'"
      "links t' = links ?t - set (bucket_at ?t i)" "bucket_at t' i = []" "ht_bits t' = ht_bits ?t"
      "\<And>j. bucket_at ?t j = [] \<Longrightarrow> bucket_at t' j = []" "dropped (set (bucket_at ?t i)) w1 w'"
      by blast
    have "destroy_bucket True i t w = Some (DER_SUCCESS, t', w')"
      using Cons w1(1) t'(1) by (subst destroy_bucket.simps) simp
    moreover have "dropped (set (bucket_at t i)) w w'"
    proof -
      have "dropped ({r} \<union> set (bucket_at ?t i)) w w'"
        by (rule dropped_trans [OF w1(2) t'(7)]) simp
      also have "{r} \<union> set (bucket_at ?t i) = set (bucket_at t i)" unfolding b(2) by (rule Un_insert_left [THEN trans]) simp
      finally show ?thesis .
    qed
    moreover have "links t' = links t - set (bucket_at t i)"
      using Cons by (auto simp: t'(3) links_delete)
    moreover have "ht_bits t' = ht_bits t" using t'(5) by (simp add: ch_rec_delete_def)
    moreover have "bucket_at t' j = []" if "bucket_at t j = []" for j using that t'(6) [of j] by simp
    ultimately show ?thesis using t'(2,4) by blast
  qed
qed

lemma destroy_loop_exact:
  "\<lbrakk>table_ok t w; \<forall>r \<in> links t. ref_of w r = 1 \<longrightarrow> freeable w r; \<forall>j < i. bucket_at t j = []\<rbrakk> \<Longrightarrow>
     \<exists>t' w'. destroy_loop True n i t w = Some (DER_SUCCESS, t', w') \<and> table_ok t' w'
       \<and> ht_bits t' = ht_bits t \<and> links t' \<subseteq> links t \<and> dropped (links t - links t') w w'
       \<and> (\<forall>j < i + n. bucket_at t' j = [])"
proof (induction n arbitrary: i t w)
  case 0
  then show ?case by (simp add: dropped_def)
next
  case (Suc n)
  obtain t1 w1 where b: "destroy_bucket True i t w = Some (DER_SUCCESS, t1, w1)" "table_ok t1 w1"
    "links t1 = links t - set (bucket_at t i)" "bucket_at t1 i = []" "ht_bits t1 = ht_bits t"
    "\<And>j. bucket_at t j = [] \<Longrightarrow> bucket_at t1 j = []" "dropped (set (bucket_at t i)) w w1"
    using destroy_bucket_exact [OF Suc.prems(1,2), of i] by blast
  have e: "\<forall>j < Suc i. bucket_at t1 j = []" using b(4,6) Suc.prems(3) less_Suc_eq by blast
  have fr: "\<forall>r \<in> links t1. ref_of w1 r = 1 \<longrightarrow> freeable w1 r"
    using Suc.prems(2) b(3,7) by (auto simp: dropped_def)
  obtain t' w' where l: "destroy_loop True n (Suc i) t1 w1 = Some (DER_SUCCESS, t', w')" "table_ok t' w'"
    "ht_bits t' = ht_bits t1" "links t' \<subseteq> links t1" "dropped (links t1 - links t') w1 w'"
    "\<forall>j < Suc i + n. bucket_at t' j = []"
    using Suc.IH [OF b(2) fr e] by blast
  have "set (bucket_at t i) \<inter> (links t1 - links t') = {}"
    "set (bucket_at t i) \<union> (links t1 - links t') = links t - links t'"
    using b(3) l(4) bucket_links [of t i] by auto
  then have "dropped (links t - links t') w w'" using dropped_trans [OF b(7) l(5)] by simp
  then show ?case using b(1,3,5) l by auto
qed

lemma links_buckets:
  assumes "table_ok t w"
  shows "links t = (\<Union>i < 2 ^ ht_bits t. set (bucket_at t i))"
proof -
  obtain bs where bs: "ht_buckets t = Some bs" "length bs = 2 ^ ht_bits t"
    using assms unfolding table_ok_def by blast
  have "set (concat bs) = (\<Union>i < length bs. set (bs ! i))"
    by (auto simp: set_conv_nth [of bs])
  then show ?thesis using bs by (simp add: links_def bucket_at_def)
qed

lemma destroy_exact:
  assumes "table_ok t w" "\<forall>r \<in> links t. ref_of w r = 1 \<longrightarrow> freeable w r"
  shows "\<exists>w'. d_hash_table_destroy_inplace t w True = Some (DER_SUCCESS, zeroed_table, w') \<and> dropped (links t) w w'"
proof -
  obtain t' w' where l: "destroy_loop True (2 ^ ht_bits t) 0 t w = Some (DER_SUCCESS, t', w')" "table_ok t' w'"
    "ht_bits t' = ht_bits t" "dropped (links t - links t') w w'" "\<forall>j < 2 ^ ht_bits t. bucket_at t' j = []"
    using destroy_loop_exact [OF assms, of 0 "2 ^ ht_bits t"] by auto
  have "links t' = {}" using links_buckets [OF l(2)] l(3,5) by simp
  then have "dropped (links t) w w'" using l(4) by simp
  then show ?thesis using l(1) assms(1) by (auto simp: d_hash_table_destroy_inplace_def table_ok_def)
qed

lemma destroy_loop_busy:
  "\<lbrakk>bucket_at t k \<noteq> []; i \<le> k; k < i + n; \<forall>j. i \<le> j \<longrightarrow> j < k \<longrightarrow> bucket_at t j = []\<rbrakk> \<Longrightarrow>
     destroy_loop False n i t w = Some (DER_BUSY, t, w)"
proof (induction n arbitrary: i)
  case (Suc n)
  show ?case
  proof (cases "i = k")
    case True
    then have "destroy_bucket False i t w = Some (DER_BUSY, t, w)"
      using Suc.prems(1) by (subst destroy_bucket.simps) (simp split: list.splits)
    then show ?thesis by simp
  next
    case False
    then have "destroy_bucket False i t w = Some (DER_SUCCESS, t, w)"
      using Suc.prems by (subst destroy_bucket.simps) simp
    then show ?thesis using Suc.IH [of "Suc i"] Suc.prems False by simp
  qed
qed simp

lemma destroy_busy:
  assumes "table_ok t w" "links t \<noteq> {}"
  shows "d_hash_table_destroy_inplace t w False = Some (DER_BUSY, t, w)"
proof -
  have "\<exists>k. k < 2 ^ ht_bits t \<and> bucket_at t k \<noteq> []" using assms(2) links_buckets [OF assms(1)] by auto
  then obtain k where k: "k < 2 ^ ht_bits t" "bucket_at t k \<noteq> []" "\<And>j. j < k \<Longrightarrow> bucket_at t j = []"
    using exists_least_iff [of "\<lambda>k. k < 2 ^ ht_bits t \<and> bucket_at t k \<noteq> []"] by (metis order_less_trans)
  then have "destroy_loop False (2 ^ ht_bits t) 0 t w = Some (DER_BUSY, t, w)"
    by (intro destroy_loop_busy [of t k]) auto
  then show ?thesis using assms(1) by (auto simp: d_hash_table_destroy_inplace_def table_ok_def)
qed

lemma create_ok:
  assumes "bits < 32" "feats AND D_HASH_FT_EPHEMERAL = 0"
  shows "\<exists>t. d_hash_table_create_inplace True DER_SUCCESS feats bits (Some ops) t0 = Some (DER_SUCCESS, t)
    \<and> table_ok t w \<and> links t = {} \<and> table_map t w = Map.empty"
proof -
  let ?t = "t0\<lparr>ht_feats := feats, ht_bits := bits, ht_ops := Some ops, ht_buckets := Some (replicate (2 ^ bits) [])\<rparr>"
  have l: "links ?t = {}" by (simp add: links_def)
  have "table_ok ?t w"
    by (rule table_okI [where bs = "replicate (2 ^ bits) []"]) (use assms l in \<open>simp_all add: ephemeral_def\<close>)
  moreover have "table_map ?t w = Map.empty" using l by (auto simp: table_map_def)
  moreover have "hop_key_cmp ops \<noteq> None" using cmp by auto
  ultimately show ?thesis using l by (auto simp: d_hash_table_create_inplace_def Let_def)
qed

end

end
