(* ===== verification/Handle_Hash.thy ===== *)
theory Handle_Hash
  imports Hash_Map
begin

text \<open>
  The handle table of \<^verbatim>\<open>src/gurt/hash.c\<close> (\<^verbatim>\<open>d_hhash_*\<close>): records are reachable through 64-bit handles
  made of a counter and a four-bit type, or, in a pointer table, through their own address. An
  address is a 64-bit word; the memory of the records and the counter of the table are the state
  the member functions of \<^verbatim>\<open>hh_ops\<close> work on.
\<close>

section \<open>Data\<close>

record d_rlink =
  rl_ref :: u32
  rl_initialized :: bool

text \<open>\<open>hl_ops\<close>: no table, or a table with or without a free function.\<close>

record d_hlink =
  hl_link :: d_rlink
  hl_key :: u64
  hl_ops :: "bool option"

text \<open>\<open>hl_freed\<close> lists the calls of the free functions, the last one first.\<close>

record hh_world =
  ch_cookie :: u64
  hlink_at :: "u64 \<Rightarrow> d_hlink"
  hl_freed :: "u64 list"

definition D_HTYPE_BITS :: nat where "D_HTYPE_BITS = 4"
definition D_HTYPE_MASK :: u64 where "D_HTYPE_MASK = push_bit D_HTYPE_BITS 1 - 1"
definition D_HTYPE_PTR :: u64 where "D_HTYPE_PTR = 0"

section \<open>Links\<close>

definition rlink_op_addref :: "d_rlink \<Rightarrow> d_rlink" where
  "rlink_op_addref l = l\<lparr>rl_ref := rl_ref l + 1\<rparr>"

definition rlink_op_decref :: "d_rlink \<Rightarrow> (bool \<times> d_rlink) option" where
  "rlink_op_decref l =
     (if rl_ref l = 0 then None else let l' = l\<lparr>rl_ref := rl_ref l - 1\<rparr> in Some (rl_ref l' = 0, l'))"

definition rlink_op_init :: "d_rlink \<Rightarrow> d_rlink" where
  "rlink_op_init l = l\<lparr>rl_initialized := True, rl_ref := 1\<rparr>"

text \<open>\<open>unlinked\<close> is the result of \<open>d_hash_rec_unlinked\<close> on the link.\<close>

definition rlink_op_empty :: "d_rlink \<Rightarrow> bool \<Rightarrow> bool option" where
  "rlink_op_empty l unlinked =
     (if \<not> rl_initialized l then Some True
      else if rl_ref l = 0 \<and> \<not> unlinked then None
      else Some unlinked)"

section \<open>Member functions of the handle table\<close>

definition upd_hlink :: "u64 \<Rightarrow> (d_hlink \<Rightarrow> d_hlink) \<Rightarrow> hh_world \<Rightarrow> hh_world" where
  "upd_hlink r f w = w\<lparr>hlink_at := (hlink_at w)(r := f (hlink_at w r))\<rparr>"

definition hh_op_key_init :: "hh_world \<Rightarrow> u64 \<Rightarrow> u64 \<Rightarrow> hh_world" where
  "hh_op_key_init w r type =
     upd_hlink r (\<lambda>l. l\<lparr>hl_key := push_bit D_HTYPE_BITS (ch_cookie w) OR type\<rparr>) (w\<lparr>ch_cookie := ch_cookie w + 1\<rparr>)"

definition hh_op_key_get :: "hh_world \<Rightarrow> u64 \<Rightarrow> u64 \<times> nat" where
  "hh_op_key_get w r = (hl_key (hlink_at w r), 8)"

definition hh_op_key_hash :: "u64 \<Rightarrow> nat \<Rightarrow> u32 option" where
  "hh_op_key_hash key ksize = (if ksize \<noteq> 8 then None else Some (ucast (drop_bit D_HTYPE_BITS key)))"

definition hh_op_key_cmp :: "hh_world \<Rightarrow> u64 \<Rightarrow> u64 \<Rightarrow> nat \<Rightarrow> bool option" where
  "hh_op_key_cmp w r key ksize = (if ksize \<noteq> 8 then None else Some (hl_key (hlink_at w r) = key))"

definition hh_op_rec_addref :: "hh_world \<Rightarrow> u64 \<Rightarrow> hh_world option" where
  "hh_op_rec_addref w r = Some (upd_hlink r (\<lambda>l. l\<lparr>hl_link := rlink_op_addref (hl_link l)\<rparr>) w)"

definition hh_op_rec_decref :: "hh_world \<Rightarrow> u64 \<Rightarrow> (bool \<times> hh_world) option" where
  "hh_op_rec_decref w r =
     map_option (\<lambda>(z, l'). (z, upd_hlink r (\<lambda>l. l\<lparr>hl_link := l'\<rparr>) w)) (rlink_op_decref (hl_link (hlink_at w r)))"

definition hh_op_rec_free :: "hh_world \<Rightarrow> u64 \<Rightarrow> hh_world option" where
  "hh_op_rec_free w r =
     (case hl_ops (hlink_at w r) of
        Some True \<Rightarrow> Some (w\<lparr>hl_freed := r # hl_freed w\<rparr>)
      | _ \<Rightarrow> Some w)"

definition hh_ops :: "(hh_world, u64, u64, u64) d_hash_table_ops" where
  "hh_ops =
     \<lparr>hop_key_cmp = Some hh_op_key_cmp, hop_key_init = Some hh_op_key_init, hop_key_get = Some hh_op_key_get,
      hop_key_hash = Some hh_op_key_hash, hop_rec_addref = Some hh_op_rec_addref,
      hop_rec_decref = Some hh_op_rec_decref, hop_rec_free = Some hh_op_rec_free, key_bytes = (\<lambda>_. [])\<rparr>"

section \<open>The handle table\<close>

record d_hhash =
  ch_htable :: "(hh_world, u64, u64, u64) d_hash_table"
  ch_ptrtype :: bool

definition d_hhash_create ::
  "bool \<Rightarrow> bool \<Rightarrow> rc \<Rightarrow> nat \<Rightarrow> hh_world \<Rightarrow> (rc \<times> d_hhash option \<times> hh_world) option" where
  "d_hhash_create alloc_h alloc lock_rc bits w =
     (if \<not> alloc_h then Some (DER_NOMEM, None, w)
      else
        map_option (\<lambda>(rc, t).
            if rc \<noteq> DER_SUCCESS then (rc, None, w)
            else (DER_SUCCESS, Some \<lparr>ch_htable = t, ch_ptrtype = False\<rparr>, w\<lparr>ch_cookie := 1\<rparr>))
          (d_hash_table_create_inplace alloc lock_rc 0 bits (Some hh_ops) zeroed_table))"

definition d_hhash_destroy :: "d_hhash \<Rightarrow> hh_world \<Rightarrow> hh_world option" where
  "d_hhash_destroy hh w = map_option (\<lambda>(rc, t, w'). w') (d_hash_table_destroy_inplace (ch_htable hh) w True)"

definition d_hhash_set_ptrtype :: "d_hhash \<Rightarrow> (rc \<times> d_hhash) option" where
  "d_hhash_set_ptrtype hh =
     map_option (\<lambda>e. if \<not> e \<and> \<not> ch_ptrtype hh then (DER_ALREADY, hh) else (DER_SUCCESS, hh\<lparr>ch_ptrtype := True\<rparr>))
       (d_hash_table_is_empty (ch_htable hh))"

definition d_hhash_is_ptrtype :: "d_hhash \<Rightarrow> bool" where
  "d_hhash_is_ptrtype hh = ch_ptrtype hh"

definition d_hhash_hlink_init :: "u64 \<Rightarrow> bool option \<Rightarrow> hh_world \<Rightarrow> hh_world" where
  "d_hhash_hlink_init r ops w = upd_hlink r (\<lambda>l. l\<lparr>hl_ops := ops, hl_link := rlink_op_init (hl_link l)\<rparr>) w"

definition d_hhash_key_isptr :: "u64 \<Rightarrow> bool" where
  "d_hhash_key_isptr key \<longleftrightarrow> key AND 1 = 0"

definition d_hhash_link_insert :: "d_hhash \<Rightarrow> hh_world \<Rightarrow> u64 \<Rightarrow> u64 \<Rightarrow> (d_hhash \<times> hh_world) option" where
  "d_hhash_link_insert hh w r type =
     (if \<not> rl_initialized (hl_link (hlink_at w r)) then None
      else if \<not> type < push_bit D_HTYPE_BITS 1 then None
      else if d_hhash_is_ptrtype hh then
        if type \<noteq> D_HTYPE_PTR then None
        else if \<not> d_hhash_key_isptr r then None
        else map_option (\<lambda>w'. (hh, upd_hlink r (\<lambda>l. l\<lparr>hl_key := r\<rparr>) w')) (ch_rec_addref (ch_htable hh) w r)
      else if type = D_HTYPE_PTR then None
      else
        map_option (\<lambda>(rc, t, w'). (hh\<lparr>ch_htable := t\<rparr>, w')) (d_hash_rec_insert_anonym (ch_htable hh) w r type))"

text \<open>The result of the lookup is a link or the null pointer.\<close>

definition d_hlink_find ::
  "(hh_world, u64, u64, u64) d_hash_table \<Rightarrow> hh_world \<Rightarrow> u64 \<Rightarrow> nat \<Rightarrow> (u64 option \<times> hh_world) option" where
  "d_hlink_find t w key sz = d_hash_rec_find t w key sz"

definition d_hhash_link_lookup :: "d_hhash \<Rightarrow> hh_world \<Rightarrow> u64 \<Rightarrow> (u64 option \<times> hh_world) option" where
  "d_hhash_link_lookup hh w key =
     (if d_hhash_key_isptr key then
        if \<not> d_hhash_is_ptrtype hh then Some (None, w)
        else if hl_key (hlink_at w key) \<noteq> key then Some (None, w)
        else map_option (\<lambda>w'. (Some key, w')) (ch_rec_addref (ch_htable hh) w key)
      else d_hlink_find (ch_htable hh) w key 8)"

definition d_hhash_link_getref :: "d_hhash \<Rightarrow> hh_world \<Rightarrow> u64 \<Rightarrow> hh_world option" where
  "d_hhash_link_getref hh w r = d_hash_rec_addref (ch_htable hh) w r"

definition d_hhash_link_putref :: "d_hhash \<Rightarrow> hh_world \<Rightarrow> u64 \<Rightarrow> (d_hhash \<times> hh_world) option" where
  "d_hhash_link_putref hh w r =
     map_option (\<lambda>(t, w'). (hh\<lparr>ch_htable := t\<rparr>, w')) (d_hash_rec_decref (ch_htable hh) w r)"

definition d_hhash_link_delete :: "d_hhash \<Rightarrow> hh_world \<Rightarrow> u64 \<Rightarrow> (bool \<times> d_hhash \<times> hh_world) option" where
  "d_hhash_link_delete hh w r =
     (if d_hhash_key_isptr (hl_key (hlink_at w r)) then
        if \<not> d_hhash_is_ptrtype hh then Some (False, hh, w)
        else map_option (\<lambda>(hh', w'). (True, hh', w')) (d_hhash_link_putref hh w r)
      else
        map_option (\<lambda>(deleted, t, w'). (deleted, hh\<lparr>ch_htable := t\<rparr>, w')) (d_hash_rec_delete_at (ch_htable hh) w r))"

definition d_hhash_link_empty :: "d_hhash \<Rightarrow> hh_world \<Rightarrow> u64 \<Rightarrow> bool option" where
  "d_hhash_link_empty hh w r = rlink_op_empty (hl_link (hlink_at w r)) (d_hash_rec_unlinked (ch_htable hh) r)"

definition d_hhash_link_key :: "hh_world \<Rightarrow> u64 \<Rightarrow> u64" where
  "d_hhash_link_key w r = hl_key (hlink_at w r)"

definition d_hhash_key_type :: "u64 \<Rightarrow> u64" where
  "d_hhash_key_type key = (if d_hhash_key_isptr key then D_HTYPE_PTR else key AND D_HTYPE_MASK)"

section \<open>The contract holds\<close>

abbreviation "hkey w r \<equiv> hl_key (hlink_at w r)"
abbreviation "href w r \<equiv> rl_ref (hl_link (hlink_at w r))"

interpretation hht: hash_client hh_ops "\<lambda>w r. hkey w r" "\<lambda>w r. href w r" "\<lambda>_ _. True" 8
  "\<lambda>k. ucast (drop_bit D_HTYPE_BITS k)"
proof (unfold_locales, goal_cases)
  case 5
  have "hh_op_rec_decref w r = Some (href w r = 1, upd_hlink r (\<lambda>l. l\<lparr>hl_link := (hl_link l)\<lparr>rl_ref := rl_ref (hl_link l) - 1\<rparr>\<rparr>) w)"
    if "href w r \<noteq> 0" for w r
    using that by (simp add: hh_op_rec_decref_def rlink_op_decref_def upd_hlink_def)
  then show ?case by (auto simp: hh_ops_def upd_hlink_def fun_eq_iff intro!: exI)
next
  case 6
  then show ?case
    by (auto simp: hh_ops_def hh_op_rec_free_def split: option.splits bool.splits)
next
  case 4
  then show ?case
    by (auto simp: hh_ops_def hh_op_rec_addref_def rlink_op_addref_def upd_hlink_def fun_eq_iff)
qed (simp_all add: hh_ops_def hh_op_key_cmp_def hh_op_key_hash_def)

section \<open>Handles\<close>

text \<open>
  The invariant of a counter table: the table is well formed and every handle in use is odd and
  carries a counter value that has already been used.
\<close>

definition hhash_inv :: "d_hhash \<Rightarrow> hh_world \<Rightarrow> bool" where
  "hhash_inv hh w \<longleftrightarrow>
     \<not> ch_ptrtype hh \<and> hht.table_ok (ch_htable hh) w
     \<and> (\<forall>r \<in> hht.links (ch_htable hh). drop_bit 4 (hkey w r) < ch_cookie w \<and> odd (hkey w r))"

lemma bit_above:
  assumes "x < (2 ^ k :: u64)" "k \<le> m" "k < 64"
  shows "\<not> bit x m"
proof -
  have "(2 :: nat) ^ k < 2 ^ 64" using assms(3) by (simp only: power_strict_increasing_iff)
  then have "unat (of_nat (2 ^ k) :: u64) = 2 ^ k" by (simp add: unat_of_nat del: of_nat_power)
  then have "unat (2 ^ k :: u64) = 2 ^ k" by simp
  then have "unat x < 2 ^ k" using assms(1) by (simp add: word_less_nat_alt)
  also have "\<dots> \<le> 2 ^ m" using assms(2) by simp
  finally have "unat x div 2 ^ m = 0" by simp
  then have "\<not> bit (unat x) m" by (simp add: bit_iff_odd)
  then show ?thesis by (auto simp: bit_unsigned_iff dest: bit_imp_le_length)
qed

lemma handle_parts:
  assumes "c < 2 ^ 60" "type < (16 :: u64)"
  shows "drop_bit 4 (push_bit 4 c OR type) = c" "(push_bit 4 c OR type) AND 15 = type"
proof -
  have t: "\<not> bit type n" if "4 \<le> n" for n using bit_above [of type 4 n] assms(2) that by simp
  have c: "\<not> bit c n" if "60 \<le> n" for n using bit_above [of c 60 n] assms(1) that by simp
  have t': "bit type n \<Longrightarrow> n < 4" for n using t [of n] by (meson not_le)
  have c': "bit c n \<Longrightarrow> n < 60" for n using c [of n] by (meson not_le)
  show "drop_bit 4 (push_bit 4 c OR type) = c"
    using c' t by (intro bit_word_eqI) (auto simp: bit_simps not_less add.commute)
  have "(push_bit 4 c OR type) AND mask 4 = type"
    using t t' by (intro bit_word_eqI) (auto simp: bit_simps not_less)
  moreover have "15 = (mask 4 :: u64)" by (simp add: mask_eq_exp_minus_1)
  ultimately show "(push_bit 4 c OR type) AND 15 = type" by (simp only:)
qed

lemma insert_anonym_key:
  fixes hh w r type
  defines "w1 \<equiv> hh_op_key_init w r type"
  assumes "ht_ops t = Some hh_ops"
  shows "d_hash_rec_insert_anonym t w r type =
    map_option (\<lambda>(t', w'). (DER_SUCCESS, t', w'))
      (ch_rec_insert_addref t w1 (slot_of (ht_bits t) (ucast (drop_bit D_HTYPE_BITS (hkey w1 r)))) r)"
  using assms(2) hht.key_hash [OF assms(2), of "hkey w1 r"]
  by (simp add: d_hash_rec_insert_anonym_def ch_key_init_def ch_key_get_def hh_ops_def hh_op_key_get_def w1_def)

lemma key_init_simps:
  "hkey (hh_op_key_init w r type) q = (if q = r then push_bit 4 (ch_cookie w) OR type else hkey w q)"
  "href (hh_op_key_init w r type) q = href w q" "ch_cookie (hh_op_key_init w r type) = ch_cookie w + 1"
  by (simp_all add: hh_op_key_init_def upd_hlink_def D_HTYPE_BITS_def)

lemma insert_addref_cookie:
  "ch_rec_insert_addref t w i r = Some (t', w') \<Longrightarrow> ht_ops t = Some hh_ops \<Longrightarrow> ch_cookie w' = ch_cookie w"
  by (auto simp: ch_rec_insert_addref_def ch_rec_addref_def hh_ops_def hh_op_rec_addref_def upd_hlink_def
      split: if_splits bind_splits)

lemma odd_not_isptr: "d_hhash_key_isptr k \<longleftrightarrow> even k"
  by (simp add: d_hhash_key_isptr_def even_iff_mod_2_eq_zero and_one_eq)

lemma odd_handle: "odd (push_bit 4 c OR type) \<longleftrightarrow> odd (type :: u64)"
  by (simp add: push_bit_eq_mult even_or_iff)

lemma hhash_insert_step:
  assumes inv: "hhash_inv hh w" and r: "r \<notin> hht.links (ch_htable hh)" "rl_initialized (hl_link (hlink_at w r))" "href w r \<noteq> - 1"
    and type: "odd type" "type < 16" and c: "ch_cookie w < 2 ^ 60 - 1"
  obtains hh' w' where "d_hhash_link_insert hh w r type = Some (hh', w')" "hhash_inv hh' w'"
    "hkey w' = (hkey w)(r := push_bit 4 (ch_cookie w) OR type)" "href w' = (href w)(r := href w r + 1)"
    "hht.links (ch_htable hh') = insert r (hht.links (ch_htable hh))"
    "hht.table_map (ch_htable hh') w' = (hht.table_map (ch_htable hh) w)(push_bit 4 (ch_cookie w) OR type \<mapsto> r)"
proof -
  let ?t = "ch_htable hh" and ?w = "hh_op_key_init w r type" and ?k = "push_bit 4 (ch_cookie w) OR type"
  have ok: "hht.table_ok ?t w" and np: "\<not> ch_ptrtype hh"
    and lk: "\<And>q. q \<in> hht.links ?t \<Longrightarrow> drop_bit 4 (hkey w q) < ch_cookie w \<and> odd (hkey w q)"
    using inv by (auto simp: hhash_inv_def)
  have c60: "ch_cookie w < 2 ^ 60" using c by (simp add: word_less_nat_alt)
  note parts = handle_parts [OF c60 type(2)]
  have keep: "hkey ?w q = hkey w q" "href ?w q \<noteq> 0" if "q \<in> hht.links ?t" for q
    using that r(1) ok by (auto simp: key_init_simps hht.table_ok_def)
  note cong = hht.table_ok_cong [OF ok keep]
  have key: "hkey ?w r = ?k" by (simp add: key_init_simps)
  have "hkey w q \<noteq> ?k" if "q \<in> hht.links ?t" for q using lk [OF that] parts(1) by auto
  then have fresh: "hht.table_map ?t ?w (hkey ?w r) = None" unfolding hht.table_map_None by (simp add: keep key)
  have nw: "href ?w r \<noteq> - 1" using r(3) by (simp add: key_init_simps)
  obtain t' w' where ins:
    "ch_rec_insert_addref ?t ?w (slot_of (ht_bits ?t) (ucast (drop_bit D_HTYPE_BITS (hkey ?w r)))) r = Some (t', w')"
    "hht.table_ok t' w'" "hht.links t' = insert r (hht.links ?t)" "hkey w' = hkey ?w"
    "hht.table_map t' w' = (hht.table_map ?t ?w)(hkey ?w r \<mapsto> r)" "href w' = (href ?w)(r := href ?w r + 1)"
    by (rule hht.insert_addref_exact [OF cong(1) r(1) nw fresh])
  have k4: "hkey w' q = hkey ?w q" and k6: "href w' q = (if q = r then href w r + 1 else href w q)" for q
    using fun_cong [OF ins(4), of q] fun_cong [OF ins(6), of q] by (simp_all add: key_init_simps)
  have o: "ht_ops ?t = Some hh_ops" using ok by (simp add: hht.table_ok_def)
  have ck: "ch_cookie w' = ch_cookie w + 1" using insert_addref_cookie [OF ins(1) o] by (simp add: key_init_simps)
  have "unat (ch_cookie w) < 2 ^ 60" using c60 by (simp add: word_less_nat_alt)
  then have less: "ch_cookie w < ch_cookie w + 1" by (simp add: word_less_nat_alt unat_word_ariths)
  let ?hh = "hh\<lparr>ch_htable := t'\<rparr>"
  have "drop_bit 4 (hkey w' q) < ch_cookie w' \<and> odd (hkey w' q)" if "q \<in> hht.links t'" for q
  proof (cases "q = r")
    case True
    then show ?thesis using parts(1) less type(1) by (simp only: k4 ck key odd_handle simp_thms)
  next
    case False
    then have "q \<in> hht.links ?t" using that ins(3) by simp
    then show ?thesis using lk [of q] less keep(1) [of q] by (simp add: k4 ck order_less_trans [OF _ less])
  qed
  then have inv': "hhash_inv ?hh w'" using np ins(2) by (simp add: hhash_inv_def)
  have "type \<noteq> 0" using type(1) by auto
  then have call: "d_hhash_link_insert hh w r type = Some (?hh, w')"
    using np r(2) type(2) ins(1)
    by (simp add: d_hhash_link_insert_def d_hhash_is_ptrtype_def D_HTYPE_BITS_def D_HTYPE_PTR_def insert_anonym_key [OF o])
  have k': "hkey w' = (hkey w)(r := ?k)" "href w' = (href w)(r := href w r + 1)"
    by (auto simp: k4 k6 key_init_simps)
  show thesis
    by (rule that [OF call inv' k' _ _]) (simp_all add: ins(3,5) cong(2) key)
qed

lemma ref_room:
  assumes "x < (2 ^ 31 :: u32)"
  shows "x \<noteq> - 1" "x + 1 \<noteq> - 1"
proof -
  have m: "unat (- 1 :: u32) = 4294967295"
    by (simp add: unsigned_minus_1_eq_mask mask_eq_exp_minus_1)
  have "unat x < 2 ^ 31" using assms by (simp add: word_less_nat_alt)
  then have "unat x \<noteq> unat (- 1 :: u32)" "unat (x + 1) \<noteq> unat (- 1 :: u32)"
    unfolding m by (simp_all add: unat_word_ariths)
  then show "x \<noteq> - 1" "x + 1 \<noteq> - 1" by metis+
qed

lemma lookup_odd:
  assumes "hhash_inv hh w" "\<And>r. r \<in> hht.links (ch_htable hh) \<Longrightarrow> href w r \<noteq> - 1" "odd k"
  shows "\<exists>w'. d_hhash_link_lookup hh w k = Some (hht.table_map (ch_htable hh) w k, w')"
  using hht.find_exact [of "ch_htable hh" w k] assms
  by (auto simp: d_hhash_link_lookup_def odd_not_isptr d_hlink_find_def hhash_inv_def)

definition hh_drop :: "u64 \<Rightarrow> hh_world \<Rightarrow> hh_world" where
  "hh_drop r w =
     (let w' = upd_hlink r (\<lambda>l. l\<lparr>hl_link := (hl_link l)\<lparr>rl_ref := rl_ref (hl_link l) - 1\<rparr>\<rparr>) w in
      if href w r = 1 \<and> hl_ops (hlink_at w r) = Some True then w'\<lparr>hl_freed := r # hl_freed w'\<rparr> else w')"

lemma delete_at_world:
  assumes "hht.table_ok t w" "r \<in> hht.links t"
  shows "d_hash_rec_delete_at t w r = Some (True, ch_rec_delete t r, hh_drop r w)"
proof -
  have t: "ht_ops (ch_rec_delete t r) = Some hh_ops" "\<not> ephemeral t" "href w r \<noteq> 0"
    using assms by (auto simp: hht.table_ok_def ch_rec_delete_def)
  then show ?thesis
    using assms(2)
    by (auto simp: d_hash_rec_delete_at_def hht.links_empty ch_rec_del_decref_def ch_rec_decref_def ch_rec_free_def
        free_if_zombie_def hh_ops_def hh_op_rec_decref_def rlink_op_decref_def hh_op_rec_free_def hh_drop_def
        upd_hlink_def Let_def split: option.splits bool.splits)
qed

lemma hh_drop_simps:
  "hkey (hh_drop r w) q = hkey w q" "href (hh_drop r w) q = (if q = r then href w r - 1 else href w q)"
  "ch_cookie (hh_drop r w) = ch_cookie w"
  "hl_freed (hh_drop r w) = (if href w r = 1 \<and> hl_ops (hlink_at w r) = Some True then r # hl_freed w else hl_freed w)"
  by (simp_all add: hh_drop_def upd_hlink_def Let_def)

section \<open>Properties\<close>

text \<open>
  Property C29. A handle given out by \<open>d_hhash_link_insert\<close> finds its record and carries its type; the
  handles given out before keep finding theirs, and the invariant of the table is kept. The types
  are odd, as \<^verbatim>\<open>hash.h\<close> asks for, and the counter has not run through its sixty bits.
\<close>

theorem hhash_insert_lookup:
  assumes "hhash_inv hh w" "r \<notin> hht.links (ch_htable hh)" "rl_initialized (hl_link (hlink_at w r))"
    and "\<And>q. href w q < 2 ^ 31" "odd type" "type < 16" "ch_cookie w < 2 ^ 60 - 1"
  shows "\<exists>hh' w' w''. d_hhash_link_insert hh w r type = Some (hh', w') \<and> hhash_inv hh' w'
    \<and> d_hhash_link_lookup hh' w' (d_hhash_link_key w' r) = Some (Some r, w'')
    \<and> d_hhash_key_type (d_hhash_link_key w' r) = type
    \<and> (\<forall>k q w1. d_hhash_link_lookup hh w k = Some (Some q, w1) \<longrightarrow>
         (\<exists>w2. d_hhash_link_lookup hh' w' k = Some (Some q, w2)))"
proof -
  let ?k = "push_bit 4 (ch_cookie w) OR type"
  have lt: "href w q \<noteq> - 1" "href w q + 1 \<noteq> - 1" for q
    using ref_room [OF assms(4) [of q]] by simp_all
  obtain hh' w' where ins: "d_hhash_link_insert hh w r type = Some (hh', w')" "hhash_inv hh' w'"
    "hkey w' = (hkey w)(r := ?k)" "href w' = (href w)(r := href w r + 1)"
    "hht.links (ch_htable hh') = insert r (hht.links (ch_htable hh))"
    "hht.table_map (ch_htable hh') w' = (hht.table_map (ch_htable hh) w)(?k \<mapsto> r)"
    by (rule hhash_insert_step [OF assms(1-3) lt(1) assms(5-7)])
  have key: "d_hhash_link_key w' r = ?k" using fun_cong [OF ins(3), of r] by (simp add: d_hhash_link_key_def)
  have odd: "odd ?k" using assms(5) by (simp add: odd_handle)
  have refs: "href w' q \<noteq> - 1" for q using lt fun_cong [OF ins(4), of q] by (cases "q = r") simp_all
  have look: "\<exists>w2. d_hhash_link_lookup hh' w' k = Some (hht.table_map (ch_htable hh') w' k, w2)" if "odd k" for k
    using lookup_odd [OF ins(2) refs that] .
  have c: "ch_cookie w < 2 ^ 60" using assms(7) by (simp add: word_less_nat_alt)
  have "d_hhash_key_type ?k = type"
    using odd handle_parts(2) [OF c assms(6)] by (simp add: d_hhash_key_type_def odd_not_isptr D_HTYPE_MASK_def D_HTYPE_BITS_def)
  moreover have "\<exists>w2. d_hhash_link_lookup hh' w' ?k = Some (Some r, w2)" using look [OF odd] ins(6) by simp
  moreover have "\<exists>w2. d_hhash_link_lookup hh' w' k = Some (Some q, w2)"
    if l: "d_hhash_link_lookup hh w k = Some (Some q, w1)" for k q w1
  proof -
    have ok: "odd k" using l assms(1) by (auto simp: d_hhash_link_lookup_def odd_not_isptr d_hhash_is_ptrtype_def hhash_inv_def split: if_splits)
    then have m: "hht.table_map (ch_htable hh) w k = Some q" using lookup_odd [OF assms(1) lt(1) ok] l by auto
    then have q: "q \<in> hht.links (ch_htable hh)" "hkey w q = k"
      using hht.table_map_Some [of w "ch_htable hh" k q] assms(1) by (auto simp: hhash_inv_def hht.table_ok_def)
    have "drop_bit 4 k < ch_cookie w" using q assms(1) by (auto simp: hhash_inv_def)
    then have "k \<noteq> ?k" using handle_parts(1) [OF c assms(6)] by auto
    then show ?thesis using look [OF ok] m ins(6) by simp
  qed
  ultimately show ?thesis using ins(1,2) key by metis
qed

text \<open>
  Property C30. Deleting a linked handle succeeds, drops the reference of the table, frees the record
  when that was the last one, makes the handle unknown and keeps the invariant; deleting it again
  reports that nothing was deleted.
\<close>

theorem hhash_delete_lookup:
  assumes "hhash_inv hh w" "r \<in> hht.links (ch_htable hh)" "\<And>q. href w q \<noteq> - 1"
  shows "\<exists>hh' w' w''. d_hhash_link_delete hh w r = Some (True, hh', w') \<and> hhash_inv hh' w'
    \<and> href w' r = href w r - 1
    \<and> hl_freed w' = (if href w r = 1 \<and> hl_ops (hlink_at w r) = Some True then r # hl_freed w else hl_freed w)
    \<and> d_hhash_link_lookup hh' w' (d_hhash_link_key w r) = Some (None, w'')
    \<and> d_hhash_link_delete hh' w' r = Some (False, hh', w')"
proof -
  let ?t = "ch_htable hh"
  let ?t' = "ch_rec_delete ?t r" and ?w = "hh_drop r w"
  let ?hh = "hh\<lparr>ch_htable := ?t'\<rparr>"
  have ok: "hht.table_ok ?t w" and odd: "odd (hkey w r)" using assms by (auto simp: hhash_inv_def)
  have del: "d_hash_rec_delete_at ?t w r = Some (True, ?t', ?w)" by (rule delete_at_world [OF ok assms(2)])
  obtain w1 where w1: "d_hash_rec_delete_at ?t w r = Some (True, ?t', w1)" "hht.table_ok ?t' w1"
    "hht.table_map ?t' w1 = (hht.table_map ?t w)(hkey w r := None)"
    by (rule hht.delete_at_exact [OF ok assms(2)]) simp_all
  then have t': "hht.table_ok ?t' ?w" "hht.table_map ?t' ?w (hkey w r) = None" using del by simp_all
  have inv': "hhash_inv ?hh ?w"
    using assms(1) t'(1) by (auto simp: hhash_inv_def hht.links_delete hh_drop_simps)
  have "href ?w q \<noteq> - 1" if "q \<in> hht.links ?t'" for q
    using that assms(3) [of q] by (auto simp: hht.links_delete hh_drop_simps)
  then have "\<exists>w''. d_hhash_link_lookup ?hh ?w (hkey w r) = Some (None, w'')"
    using lookup_odd [OF inv' _ odd] t'(2) by simp
  moreover have "d_hhash_link_delete hh w r = Some (True, ?hh, ?w)"
    using del odd by (simp add: d_hhash_link_delete_def odd_not_isptr)
  moreover have "d_hhash_link_delete ?hh ?w r = Some (False, ?hh, ?w)"
    using odd by (simp add: d_hhash_link_delete_def odd_not_isptr hh_drop_simps d_hash_rec_delete_at_def hht.links_empty hht.links_delete)
  ultimately show ?thesis using inv' by (auto simp: hh_drop_simps d_hhash_link_key_def)
qed

text \<open>
  Property C28. A well formed table implements a finite map: lookup returns the record of the key
  and changes nothing but its reference count, exclusive insertion adds the record under its key or
  reports that the key is taken, deletion removes the key, a forced destruction always succeeds and
  an unforced one refuses a table that still holds records.
\<close>

theorem hash_table_refines_map:
  assumes "hht.table_ok t w" "\<And>q. href w q \<noteq> - 1"
  shows "(\<forall>k. \<exists>w'. d_hash_rec_find t w k 8 = Some (hht.table_map t w k, w')
           \<and> hht.table_ok t w' \<and> hht.table_map t w' = hht.table_map t w)
    \<and> (\<forall>r. r \<notin> hht.links t \<longrightarrow>
         (if hht.table_map t w (hkey w r) = None
          then \<exists>t' w'. d_hash_rec_insert t w (hkey w r) 8 r True = Some (DER_SUCCESS, t', w')
             \<and> hht.table_ok t' w' \<and> hht.table_map t' w' = (hht.table_map t w)(hkey w r \<mapsto> r)
          else d_hash_rec_insert t w (hkey w r) 8 r True = Some (DER_EXIST, t, w)))
    \<and> (\<forall>k. \<exists>t' w'. d_hash_rec_delete t w k 8 = Some (hht.table_map t w k \<noteq> None, t', w')
           \<and> hht.table_ok t' w' \<and> hht.table_map t' w' = (hht.table_map t w)(k := None))
    \<and> (\<exists>w'. d_hash_table_destroy_inplace t w True = Some (DER_SUCCESS, zeroed_table, w'))
    \<and> (hht.links t \<noteq> {} \<longrightarrow> d_hash_table_destroy_inplace t w False = Some (DER_BUSY, t, w))"
proof (intro conjI allI impI)
  show "\<exists>w'. d_hash_rec_find t w k 8 = Some (hht.table_map t w k, w')
           \<and> hht.table_ok t w' \<and> hht.table_map t w' = hht.table_map t w" for k
    using hht.find_exact [OF assms, of k] by blast
  show "if hht.table_map t w (hkey w r) = None
        then \<exists>t' w'. d_hash_rec_insert t w (hkey w r) 8 r True = Some (DER_SUCCESS, t', w')
             \<and> hht.table_ok t' w' \<and> hht.table_map t' w' = (hht.table_map t w)(hkey w r \<mapsto> r)
        else d_hash_rec_insert t w (hkey w r) 8 r True = Some (DER_EXIST, t, w)" if "r \<notin> hht.links t" for r
    using hht.insert_exact [OF assms(1) that assms(2), of True] hht.insert_exists [OF assms(1), of "hkey w r" r]
    by (cases "hht.table_map t w (hkey w r) = None") auto
  show "\<exists>t' w'. d_hash_rec_delete t w k 8 = Some (hht.table_map t w k \<noteq> None, t', w')
           \<and> hht.table_ok t' w' \<and> hht.table_map t' w' = (hht.table_map t w)(k := None)" for k
    using hht.delete_exact [OF assms(1), of k] by auto
  show "\<exists>w'. d_hash_table_destroy_inplace t w True = Some (DER_SUCCESS, zeroed_table, w')"
    using hht.destroy_exact [OF assms(1)] by blast
  show "d_hash_table_destroy_inplace t w False = Some (DER_BUSY, t, w)" if "hht.links t \<noteq> {}"
    by (rule hht.destroy_busy [OF assms(1) that])
qed

section \<open>A table with one handle\<close>

definition hh_one :: d_hhash where
  "hh_one = \<lparr>ch_htable = \<lparr>ht_bits = 1, ht_feats = 0, ht_ops = Some hh_ops, ht_buckets = Some [[], [16]]\<rparr>, ch_ptrtype = False\<rparr>"

definition w_one :: hh_world where
  "w_one = \<lparr>ch_cookie = 2, hlink_at = (\<lambda>r. \<lparr>hl_link = \<lparr>rl_ref = 1, rl_initialized = True\<rparr>, hl_key = 17, hl_ops = Some True\<rparr>),
     hl_freed = []\<rparr>"

lemma hh_one_inv: "hhash_inv hh_one w_one" "hht.links (ch_htable hh_one) = {16}" "\<And>q. href w_one q = 1"
proof -
  show l: "hht.links (ch_htable hh_one) = {16}" by (simp add: hht.links_def hh_one_def)
  have "hht.table_ok (ch_htable hh_one) w_one"
    by (rule hht.table_okI [where bs = "[[], [16]]"])
      (auto simp: l, auto simp: hh_one_def w_one_def ephemeral_def slot_of_def D_HTYPE_BITS_def less_Suc_eq)
  then show "hhash_inv hh_one w_one" using l by (simp add: hhash_inv_def hh_one_def w_one_def)
  show "\<And>q. href w_one q = 1" by (simp add: w_one_def)
qed

theorem hhash_insert_lookup_witness: "\<exists>hh' w'. d_hhash_link_insert hh_one w_one 32 3 = Some (hh', w')"
proof -
  have "32 \<notin> hht.links (ch_htable hh_one)" "rl_initialized (hl_link (hlink_at w_one 32))" "ch_cookie w_one < 2 ^ 60 - 1"
    by (simp_all add: hh_one_inv w_one_def)
  then show ?thesis using hhash_insert_lookup [OF hh_one_inv(1), of 32 3] by (auto simp: hh_one_inv(3))
qed

theorem hhash_delete_lookup_witness:
  "\<exists>hh' w'. d_hhash_link_delete hh_one w_one 16 = Some (True, hh', w') \<and> hl_freed w' = [16]"
  using hhash_delete_lookup [OF hh_one_inv(1), of 16] by (auto simp: hh_one_inv w_one_def)

theorem hash_table_refines_map_witness:
  "\<exists>w'. d_hash_table_destroy_inplace (ch_htable hh_one) w_one True = Some (DER_SUCCESS, zeroed_table, w')"
proof -
  have "hht.table_ok (ch_htable hh_one) w_one" using hh_one_inv(1) by (simp add: hhash_inv_def)
  then show ?thesis using hash_table_refines_map [of "ch_htable hh_one" w_one] by (simp add: hh_one_inv(3))
qed

end
