(* ===== verification/Epi.thy ===== *)
theory Epi
  imports Crt_Prelude Hash_Map
begin

text \<open>
  The per-endpoint record of \<^verbatim>\<open>src/cart/crt_internal_types.h\<close> (\<^verbatim>\<open>struct crt_ep_inflight\<close>) that a context
  keeps for every rank it talks to, and the member functions with which \<^verbatim>\<open>src/cart/crt_context.c\<close>
  stores the records in a hash table keyed by rank. A record is named by its address.
\<close>

section \<open>Data\<close>

record crt_ep_inflight =
  epi_rank :: d_rank_t
  epi_ctx :: nat
  epi_req_q :: "nat list"
  epi_req_num :: int
  epi_reply_num :: int
  epi_req_waitq :: "nat list"
  epi_req_wait_num :: int
  epi_ref :: u32
  epi_initialized :: bool

text \<open>The memory of the records; \<open>epi_freed\<close> lists the released ones, the last one first.\<close>

record epi_mem =
  epi_at :: "nat \<Rightarrow> crt_ep_inflight"
  epi_freed :: "nat list"

definition CRT_EPI_TABLE_BITS :: nat where "CRT_EPI_TABLE_BITS = 3"

section \<open>Member functions\<close>

definition upd_epi :: "nat \<Rightarrow> (crt_ep_inflight \<Rightarrow> crt_ep_inflight) \<Rightarrow> epi_mem \<Rightarrow> epi_mem" where
  "upd_epi e f m = m\<lparr>epi_at := (epi_at m)(e := f (epi_at m e))\<rparr>"

definition epi_op_key_get :: "epi_mem \<Rightarrow> nat \<Rightarrow> d_rank_t \<times> nat" where
  "epi_op_key_get m e = (epi_rank (epi_at m e), 4)"

definition epi_slot :: "d_rank_t \<Rightarrow> u32" where
  "epi_slot key = key mod push_bit CRT_EPI_TABLE_BITS 1"

definition epi_op_key_hash :: "d_rank_t \<Rightarrow> nat \<Rightarrow> u32 option" where
  "epi_op_key_hash key ksize = (if ksize \<noteq> 4 then None else Some (epi_slot key))"

definition epi_op_key_cmp :: "epi_mem \<Rightarrow> nat \<Rightarrow> d_rank_t \<Rightarrow> nat \<Rightarrow> bool option" where
  "epi_op_key_cmp m e key ksize = (if ksize \<noteq> 4 then None else Some (epi_rank (epi_at m e) = key))"

definition epi_op_rec_addref :: "epi_mem \<Rightarrow> nat \<Rightarrow> epi_mem option" where
  "epi_op_rec_addref m e = Some (upd_epi e (\<lambda>p. p\<lparr>epi_ref := epi_ref p + 1\<rparr>) m)"

definition epi_op_rec_decref :: "epi_mem \<Rightarrow> nat \<Rightarrow> (bool \<times> epi_mem) option" where
  "epi_op_rec_decref m e =
     (let m' = upd_epi e (\<lambda>p. p\<lparr>epi_ref := epi_ref p - 1\<rparr>) m in Some (epi_ref (epi_at m' e) = 0, m'))"

definition crt_epi_destroy :: "epi_mem \<Rightarrow> nat \<Rightarrow> epi_mem option" where
  "crt_epi_destroy m e =
     (let p = epi_at m e in
      if epi_ref p \<noteq> 0 then None
      else if \<not> epi_initialized p then None
      else if epi_req_waitq p \<noteq> [] then None
      else if epi_req_wait_num p \<noteq> 0 then None
      else if epi_req_q p \<noteq> [] then None
      else if epi_req_num p < epi_reply_num p then None
      else Some (m\<lparr>epi_freed := e # epi_freed m\<rparr>))"

definition epi_op_rec_free :: "epi_mem \<Rightarrow> nat \<Rightarrow> epi_mem option" where
  "epi_op_rec_free m e = crt_epi_destroy m e"

definition epi_table_ops :: "(epi_mem, nat, d_rank_t, unit) d_hash_table_ops" where
  "epi_table_ops =
     \<lparr>hop_key_cmp = Some epi_op_key_cmp, hop_key_init = None, hop_key_get = Some epi_op_key_get,
      hop_key_hash = Some epi_op_key_hash, hop_rec_addref = Some epi_op_rec_addref,
      hop_rec_decref = Some epi_op_rec_decref, hop_rec_free = Some epi_op_rec_free, key_bytes = (\<lambda>_. [])\<rparr>"

text \<open>The condition of \<open>crt_ep_empty\<close>: nothing waits and nothing is in flight.\<close>

definition epi_idle :: "crt_ep_inflight \<Rightarrow> bool" where
  "epi_idle p \<longleftrightarrow>
     epi_req_waitq p = [] \<and> epi_req_wait_num p = 0 \<and> epi_req_q p = [] \<and> epi_reply_num p \<le> epi_req_num p"

definition crt_ep_empty :: "epi_mem \<Rightarrow> nat \<Rightarrow> rc" where
  "crt_ep_empty m e = (if epi_idle (epi_at m e) then DER_SUCCESS else RC_OTHER 1)"

section \<open>The contract of the hash table holds\<close>

abbreviation "erank m e \<equiv> epi_rank (epi_at m e)"
abbreviation "eref m e \<equiv> epi_ref (epi_at m e)"
abbreviation "efreeable m e \<equiv> epi_initialized (epi_at m e) \<and> epi_idle (epi_at m e)"

interpretation epit: hash_client epi_table_ops "\<lambda>m e. erank m e" "\<lambda>m e. eref m e" "\<lambda>m e. efreeable m e" 4
  epi_slot
proof (unfold_locales, goal_cases)
  case 4
  then show ?case
    by (auto simp: epi_table_ops_def epi_op_rec_addref_def upd_epi_def epi_idle_def fun_eq_iff)
next
  case 5
  then show ?case
    by (auto simp: epi_table_ops_def epi_op_rec_decref_def upd_epi_def epi_idle_def fun_eq_iff Let_def)
next
  case 6
  then show ?case
    by (auto simp: epi_table_ops_def epi_op_rec_free_def crt_epi_destroy_def epi_idle_def Let_def)
qed (simp_all add: epi_table_ops_def epi_op_key_cmp_def epi_op_key_hash_def)

end
