(* ===== verification/Ctx_State.thy ===== *)
theory Ctx_State
  imports Rpc_Priv Epi
begin

text \<open>
  The state the contexts of \<^verbatim>\<open>src/cart/crt_context.c\<close> work on, the reference counts of descriptors, the
  completion of an RPC and the tracking of timeouts. \<open>None\<close> is a failed assertion (or, for the one
  loop without a bound, that it does not end). The mutexes of the context and of the endpoint
  record only delimit the critical sections, and are left out; the operations of this theory are
  such sections.
\<close>

section \<open>State\<close>

record crt_context =
  cc_idx :: int
  cc_rpc_cb :: "nat option"
  cc_rpc_cb_arg :: nat
  cc_epi_table :: "(epi_mem, nat, d_rank_t, unit) d_hash_table"
  cc_bh_timeout :: "nat d_binheap"
  cc_timeout_sec :: u32

text \<open>
  \<open>rpcs\<close>, \<open>epis\<close> and \<open>ctxs\<close> are the memory of the descriptors, the endpoint records and the contexts;
  the \<open>cg_\<close> and \<open>cpg_\<close> fields are those of \<^verbatim>\<open>crt_gdata\<close> and \<^verbatim>\<open>crt_plugin_gdata\<close>, a callback being named by
  a pair of numbers, its function and its argument. \<open>clk k\<close> is the \<open>k\<close>-th reading of the clock, in
  microseconds, and \<open>ok k\<close> says whether the \<open>k\<close>-th allocation succeeds; \<open>tick\<close> and \<open>nalloc\<close> count the
  readings and allocations so far. \<open>new_epi\<close> and \<open>new_ctx\<close> are the addresses the next allocation of
  a record or context returns. \<open>destroyed\<close> lists the descriptors released by
  \<^verbatim>\<open>crt_req_destroy\<close>, the last one first.
\<close>

record crt_world =
  rpcs :: rpc_mem
  epis :: epi_mem
  ctxs :: "nat \<Rightarrow> crt_context"
  cg_share_na :: bool
  cg_timeout :: u32
  cg_credit_ep_ctx :: u32
  cg_ctx_list :: "nat list"
  cg_ctx_num :: int
  cg_ctx_max_num :: u32
  cg_inited :: bool
  cpg_inited :: bool
  cpg_timeout_cbs :: "(nat \<times> nat) list"
  cpg_prog_cbs :: "nat \<Rightarrow> (nat \<times> nat) list"
  clk :: "nat \<Rightarrow> u64"
  tick :: nat
  ok :: "nat \<Rightarrow> bool"
  nalloc :: nat
  new_epi :: nat
  new_ctx :: nat
  destroyed :: "nat list"

text \<open>
  Code outside this component: the completion callback of a descriptor and the plugin callbacks
  (user code), \<^verbatim>\<open>crt_req_send_internal\<close> of \<^verbatim>\<open>crt_rpc.c\<close>, the group lookups \<^verbatim>\<open>crt_grp_priv_get_primary_rank\<close> and
  \<^verbatim>\<open>crt_rank_present\<close> of the target of a descriptor, \<^verbatim>\<open>crt_grp_ctx_invalid\<close>, the results of Mercury
  (\<^verbatim>\<open>HG_Cancel\<close>, \<^verbatim>\<open>crt_hg_ctx_init\<close>, \<^verbatim>\<open>crt_hg_ctx_fini\<close>, one step of \<^verbatim>\<open>crt_hg_progress\<close>) and the result of
  initialising a mutex.
\<close>

record crt_env =
  complete_cb :: "nat \<Rightarrow> rc \<Rightarrow> crt_world \<Rightarrow> crt_world option"
  timeout_cb :: "nat \<times> nat \<Rightarrow> nat \<Rightarrow> crt_world \<Rightarrow> crt_world option"
  prog_cb :: "nat \<times> nat \<Rightarrow> nat \<Rightarrow> crt_world \<Rightarrow> crt_world option"
  send_internal :: "nat \<Rightarrow> crt_world \<Rightarrow> (rc \<times> crt_world) option"
  primary_rank :: "crt_rpc_priv \<Rightarrow> d_rank_t"
  rank_present :: "crt_rpc_priv \<Rightarrow> bool"
  grp_ctx_invalid :: "nat \<Rightarrow> crt_world \<Rightarrow> rc"
  hg_cancel_ok :: "nat \<Rightarrow> crt_world \<Rightarrow> bool"
  hg_ctx_init :: "int \<Rightarrow> crt_world \<Rightarrow> rc"
  hg_ctx_fini :: "nat \<Rightarrow> crt_world \<Rightarrow> rc"
  hg_progress :: "nat \<Rightarrow> int \<Rightarrow> crt_world \<Rightarrow> (rc \<times> crt_world) option"
  mutex_rc :: rc

definition CRT_OPC_URI_LOOKUP :: u32 where "CRT_OPC_URI_LOOKUP = 0xFF000000"

section \<open>Access\<close>

definition upd_rpc :: "nat \<Rightarrow> (crt_rpc_priv \<Rightarrow> crt_rpc_priv) \<Rightarrow> crt_world \<Rightarrow> crt_world" where
  "upd_rpc r f w = w\<lparr>rpcs := (rpcs w)(r := f (rpcs w r))\<rparr>"

definition upd_ctx :: "nat \<Rightarrow> (crt_context \<Rightarrow> crt_context) \<Rightarrow> crt_world \<Rightarrow> crt_world" where
  "upd_ctx c f w = w\<lparr>ctxs := (ctxs w)(c := f (ctxs w c))\<rparr>"

definition upd_ep :: "nat \<Rightarrow> (crt_ep_inflight \<Rightarrow> crt_ep_inflight) \<Rightarrow> crt_world \<Rightarrow> crt_world" where
  "upd_ep e f w = w\<lparr>epis := upd_epi e f (epis w)\<rparr>"

abbreviation "rpc w r \<equiv> rpcs w r"
abbreviation "ctx w c \<equiv> ctxs w c"
abbreviation "ep w e \<equiv> epi_at (epis w) e"
abbreviation "theap w c \<equiv> cc_bh_timeout (ctxs w c)"

definition alloc1 :: "crt_world \<Rightarrow> bool \<times> crt_world" where
  "alloc1 w = (ok w (nalloc w), w\<lparr>nalloc := nalloc w + 1\<rparr>)"

definition alloc3 :: "crt_world \<Rightarrow> (bool \<times> bool \<times> bool) \<times> crt_world" where
  "alloc3 w =
     ((ok w (nalloc w), ok w (nalloc w + 1), ok w (nalloc w + 2)), w\<lparr>nalloc := nalloc w + 3\<rparr>)"

section \<open>Reference counts of descriptors\<close>

definition crt_req_destroy :: "nat \<Rightarrow> crt_world \<Rightarrow> crt_world" where
  "crt_req_destroy r w = w\<lparr>destroyed := r # destroyed w\<rparr>"

definition RPC_ADDREF :: "nat \<Rightarrow> crt_world \<Rightarrow> crt_world option" where
  "RPC_ADDREF r w =
     (if crp_refcount (rpc w r) = 0 then None
      else Some (upd_rpc r (\<lambda>p. p\<lparr>crp_refcount := crp_refcount p + 1\<rparr>) w))"

definition RPC_DECREF :: "nat \<Rightarrow> crt_world \<Rightarrow> crt_world option" where
  "RPC_DECREF r w =
     (if crp_refcount (rpc w r) = 0 then None
      else
        let w' = upd_rpc r (\<lambda>p. p\<lparr>crp_refcount := crp_refcount p - 1\<rparr>) w in
        Some (if crp_refcount (rpc w' r) = 0 then crt_req_destroy r w' else w'))"

section \<open>Time stamps\<close>

definition d_timeus_secdiff :: "u32 \<Rightarrow> crt_world \<Rightarrow> u64 \<times> crt_world" where
  "d_timeus_secdiff sec_diff w = (clk w (tick w) + ucast sec_diff * 1000000, w\<lparr>tick := tick w + 1\<rparr>)"

definition crt_set_timeout :: "nat \<Rightarrow> crt_world \<Rightarrow> crt_world" where
  "crt_set_timeout r w =
     (let timeout_sec = (if crp_timeout_sec (rpc w r) > 0 then crp_timeout_sec (rpc w r) else cg_timeout w);
          (sec_diff, w') = d_timeus_secdiff timeout_sec w
      in upd_rpc r (\<lambda>p. p\<lparr>crp_timeout_ts := sec_diff\<rparr>) w')"

definition crt_req_timedout :: "crt_rpc_priv \<Rightarrow> bool" where
  "crt_req_timedout p \<longleftrightarrow>
     (crp_state p = RPC_STATE_REQ_SENT \<or> crp_state p = RPC_STATE_URI_LOOKUP
       \<or> crp_state p = RPC_STATE_ADDR_LOOKUP \<or> crp_state p = RPC_STATE_TIMEOUT
       \<or> crp_state p = RPC_STATE_FWD_UNREACH) \<and> \<not> crp_in_binheap p"

section \<open>Completion\<close>

definition state_of_rc :: "rc \<Rightarrow> crt_rpc_state" where
  "state_of_rc rc =
     (if rc = DER_CANCELED then RPC_STATE_CANCELED
      else if rc = DER_TIMEDOUT then RPC_STATE_TIMEOUT
      else if rc = DER_UNREACH then RPC_STATE_FWD_UNREACH
      else RPC_STATE_COMPLETED)"

definition crt_rpc_complete :: "crt_env \<Rightarrow> nat \<Rightarrow> rc \<Rightarrow> crt_world \<Rightarrow> crt_world option" where
  "crt_rpc_complete env r rc w =
     (let w' = upd_rpc r (\<lambda>p. p\<lparr>crp_state := state_of_rc rc\<rparr>) w in
      if crp_complete_cb (rpc w' r) then
        complete_cb env r (if rc = DER_SUCCESS then crp_reply_rc (rpc w' r) else rc) w'
      else Some w')"

definition crt_hg_req_cancel :: "crt_env \<Rightarrow> nat \<Rightarrow> crt_world \<Rightarrow> rc" where
  "crt_hg_req_cancel env r w =
     (if \<not> crp_hg_hdl (rpc w r) then DER_INVAL
      else if \<not> hg_cancel_ok env r w then DER_HG
      else DER_SUCCESS)"

definition crt_req_abort :: "crt_env \<Rightarrow> nat option \<Rightarrow> crt_world \<Rightarrow> (rc \<times> crt_world) option" where
  "crt_req_abort env req w =
     (case req of
        None \<Rightarrow> Some (DER_INVAL, w)
      | Some r \<Rightarrow>
          if crp_state (rpc w r) = RPC_STATE_CANCELED \<or> crp_state (rpc w r) = RPC_STATE_COMPLETED
          then Some (DER_ALREADY, w)
          else if crp_state (rpc w r) \<noteq> RPC_STATE_REQ_SENT \<or> \<not> crp_on_wire (rpc w r)
          then map_option (\<lambda>w'. (DER_SUCCESS, w')) (crt_rpc_complete env r DER_CANCELED w)
          else
            let rc = crt_hg_req_cancel env r w in
            if rc \<noteq> DER_SUCCESS then map_option (\<lambda>w'. (rc, w')) (crt_rpc_complete env r rc w)
            else Some (DER_SUCCESS, w))"

section \<open>The timeout heap of a context\<close>

definition crt_req_timeout_track :: "nat \<Rightarrow> crt_world \<Rightarrow> (rc \<times> crt_world) option" where
  "crt_req_timeout_track r w =
     Option.bind (cr_ctx (rpc w r)) (\<lambda>c.
       if crp_in_binheap (rpc w r) then Some (DER_SUCCESS, w)
       else
         Option.bind (RPC_ADDREF r w) (\<lambda>w.
           let (al, w) = alloc3 w in
           Option.bind (d_binheap_insert al (crt_timeout_bh_ops (rpcs w)) (Some (theap w c)) (Some r)) (\<lambda>(rc, hp).
             let w = (case hp of None \<Rightarrow> w | Some h \<Rightarrow> upd_ctx c (\<lambda>x. x\<lparr>cc_bh_timeout := h\<rparr>) w) in
             if rc = DER_SUCCESS then Some (DER_SUCCESS, upd_rpc r (\<lambda>p. p\<lparr>crp_in_binheap := True\<rparr>) w)
             else map_option (\<lambda>w. (rc, w)) (RPC_DECREF r w))))"

definition crt_req_timeout_untrack :: "nat \<Rightarrow> crt_world \<Rightarrow> crt_world option" where
  "crt_req_timeout_untrack r w =
     Option.bind (cr_ctx (rpc w r)) (\<lambda>c.
       if crp_in_binheap (rpc w r) then
         let w = upd_rpc r (\<lambda>p. p\<lparr>crp_in_binheap := False\<rparr>) w in
         Option.bind (d_binheap_remove (crt_timeout_bh_ops (rpcs w)) (Some (theap w c)) (Some r)) (\<lambda>hp.
           RPC_DECREF r (case hp of None \<Rightarrow> w | Some h \<Rightarrow> upd_ctx c (\<lambda>x. x\<lparr>cc_bh_timeout := h\<rparr>) w))
       else Some w)"

definition crt_req_force_timeout :: "nat option \<Rightarrow> crt_world \<Rightarrow> crt_world option" where
  "crt_req_force_timeout req w =
     (case req of
        None \<Rightarrow> Some w
      | Some r \<Rightarrow>
          if cr_opc (rpc w r) = CRT_OPC_URI_LOOKUP then Some w
          else
            Option.bind (crt_req_timeout_untrack r w) (\<lambda>w.
            Option.bind (crt_req_timeout_track r (upd_rpc r (\<lambda>p. p\<lparr>crp_timeout_ts := 0\<rparr>) w)) (\<lambda>(rc, w). Some w)))"

text \<open>
  The first loop of \<open>crt_context_timeout_check\<close>: descriptors whose time stamp has passed leave the heap,
  the earliest first. The result is the list they are queued on.
\<close>

partial_function (option) timeout_loop :: "nat \<Rightarrow> u64 \<Rightarrow> nat list \<Rightarrow> crt_world \<Rightarrow> (nat list \<times> crt_world) option" where
  "timeout_loop c ts_now timeout_list w =
     Option.bind (d_binheap_root (Some (theap w c))) (\<lambda>bh_node.
       case bh_node of
         None \<Rightarrow> Some (timeout_list, w)
       | Some r \<Rightarrow>
           if crp_timeout_ts (rpc w r) > ts_now then Some (timeout_list, w)
           else
             Option.bind (RPC_ADDREF r w) (\<lambda>w.
             Option.bind (crt_req_timeout_untrack r w) (\<lambda>w.
               timeout_loop c ts_now (timeout_list @ [r]) w)))"

end
