(* ===== verification/Ctx_Timeout.thy ===== *)
theory Ctx_Timeout
  imports Ctx_State
begin

text \<open>
  The timeouts of a context: the invariant of its heap, what tracking and untracking a descriptor
  do to it, and that the first loop of \<open>crt_context_timeout_check\<close> (\<^verbatim>\<open>src/cart/crt_context.c\<close>) ends and
  collects exactly the expired descriptors.
\<close>

section \<open>Room in the heap\<close>

text \<open>Removing a node never shrinks the tables, so that an insertion right after it needs no memory.\<close>

lemma settle_hwm: "settle e p i d h = Some (d', h') \<Longrightarrow> d_bh_hwm h' = d_bh_hwm h"
  by (auto simp: settle_def set_idx_def dest: write_slot_fields)

lemma bubble_hwm: "bubble_loop cmp e p i d h = Some (d', h') \<Longrightarrow> d_bh_hwm h' = d_bh_hwm h"
proof (induction cmp e p i d h rule: bubble_loop.induct)
  case (1 cmp e p i d h)
  let ?k = "drop_bit 1 (i - 1)"
  show ?case
  proof (cases "settle e p i d h = Some (d', h')")
    case True
    then show ?thesis by (rule settle_hwm)
  next
    case False
    then obtain q h1 where q: "0 < i" "read_slot h (d_binheap_pointer ?k) = Some (Some q)" "chn_idx h q = ?k"
      "\<not> cmp q e" "write_slot (set_idx q i h) p (Some q) = Some h1"
      "bubble_loop cmp e (d_binheap_pointer ?k) ?k True h1 = Some (d', h')"
      using "1.prems" by (subst (asm) bubble_loop.simps) (auto simp: Let_def split: if_splits option.splits)
    have "d_bh_hwm h' = d_bh_hwm h1"
      by (rule "1.IH" [OF q(1) refl refl q(2) refl _ q(4,5,6)]) (simp add: q(3))
    then show ?thesis using write_slot_fields(2) [OF q(5)] by (simp add: set_idx_def)
  qed
qed

lemma sink_hwm: "sink_loop cmp n e p i d h = Some (d', h') \<Longrightarrow> d_bh_hwm h' = d_bh_hwm h"
proof (induction cmp n e p i d h rule: sink_loop.induct)
  case (1 cmp n e p i d h)
  show ?case
  proof (cases "i < n \<and> \<not> push_bit 1 i + 1 \<ge> n")
    case False
    then have "settle e p i d h = Some (d', h')"
      using "1.prems" by (subst (asm) sink_loop.simps) (auto split: if_splits)
    then show ?thesis by (rule settle_hwm)
  next
    case True
    then obtain c k where s: "sink_child cmp n (push_bit 1 i + 1) h = Some (c, k)" "chn_idx h c = k"
      using "1.prems" by (subst (asm) sink_loop.simps) (auto split: if_splits option.splits)
    show ?thesis
    proof (cases "cmp e c")
      case True
      have "settle e p i d h = Some (d', h')"
        using "1.prems" True s \<open>i < n \<and> _\<close> by (subst (asm) sink_loop.simps) (auto split: if_splits)
      then show ?thesis by (rule settle_hwm)
    next
      case False
      obtain h1 where w: "write_slot (set_idx c i h) p (Some c) = Some h1"
        "sink_loop cmp n e (d_binheap_pointer k) k True h1 = Some (d', h')"
        using "1.prems" False s \<open>i < n \<and> _\<close>
        by (subst (asm) sink_loop.simps) (auto split: if_splits option.splits)
      have "d_bh_hwm h' = d_bh_hwm h1"
        by (rule "1.IH" [OF _ _ s(1) refl _ False w]) (use True s in auto)
      then show ?thesis using write_slot_fields(2) [OF w(1)] by (simp add: set_idx_def)
    qed
  qed
qed

lemma remove_hwm:
  assumes "d_binheap_remove ops (Some h) (Some e) = Some (Some h')"
  shows "d_bh_hwm h' = d_bh_hwm h"
  using assms
  by (auto simp: d_binheap_remove_def d_binheap_remove_locked_def d_binheap_bubble_def d_binheap_sink_def
      set_idx_def Let_def dest!: write_slot_fields(2) bubble_hwm sink_hwm
      split: option.splits if_splits bool.splits)

lemma insert_room:
  assumes "d_binheap_insert al ops (Some h) (Some e) = Some (rc, hp)" "d_bh_nodes_cnt h < d_bh_hwm h"
    and "hop_enter ops = Some f" "f e = DER_SUCCESS"
  shows "rc = DER_SUCCESS"
  using assms by (auto simp: d_binheap_insert_def Let_def split: option.splits)

lemma insert_rc:
  assumes "d_binheap_insert al ops (Some h) (Some e) = Some (rc, hp)" "full h xs"
    and "hop_enter ops = Some f" "f e = DER_SUCCESS"
  shows "rc = DER_SUCCESS \<or> rc = DER_NOMEM"
  using assms full_grow(4) [OF assms(2)]
  by (cases al) (auto simp: d_binheap_insert_def Let_def split: option.splits if_splits)

section \<open>The invariant\<close>

abbreviation "ts w r \<equiv> crp_timeout_ts (rpc w r)"
abbreviation "tracked w c \<equiv> set (heap_nodes (theap w c))"

text \<open>
  The heap of a context holds exactly the descriptors of the context that are marked as tracked,
  ordered by time stamp, and each of them is referenced.
\<close>

definition timeouts_ok :: "nat \<Rightarrow> crt_world \<Rightarrow> bool" where
  "timeouts_ok c w \<longleftrightarrow>
     binheap_inv (\<lambda>r. ts w r) (theap w c)
     \<and> tracked w c = {r. crp_in_binheap (rpc w r) \<and> cr_ctx (rpc w r) = Some c}
     \<and> (\<forall>r \<in> tracked w c. crp_refcount (rpc w r) \<noteq> 0)"

lemma timeouts_okD:
  assumes "timeouts_ok c w"
  shows "binheap_inv (\<lambda>r. ts w r) (theap w c)" "distinct (heap_nodes (theap w c))"
    "r \<in> tracked w c \<longleftrightarrow> crp_in_binheap (rpc w r) \<and> cr_ctx (rpc w r) = Some c"
    "r \<in> tracked w c \<Longrightarrow> crp_refcount (rpc w r) \<noteq> 0"
  using assms full_distinct by (auto simp: timeouts_ok_def binheap_inv_def)

text \<open>A state that agrees on the heap and on what the invariant reads of the descriptors.\<close>

lemma binheap_inv_cong:
  "(\<And>x. x \<in> set (heap_nodes h) \<Longrightarrow> key x = key' x) \<Longrightarrow> binheap_inv key h \<Longrightarrow> binheap_inv key' h"
  by (auto simp: binheap_inv_def heap_def)

lemma timeouts_ok_cong:
  assumes "timeouts_ok c w" "theap w' c = theap w c"
    and "\<And>r. r \<in> tracked w c \<Longrightarrow> ts w' r = ts w r"
      "\<And>r. crp_in_binheap (rpc w' r) \<and> cr_ctx (rpc w' r) = Some c \<longleftrightarrow>
            crp_in_binheap (rpc w r) \<and> cr_ctx (rpc w r) = Some c"
    and "\<And>r. r \<in> tracked w c \<Longrightarrow> crp_refcount (rpc w' r) \<noteq> 0"
  shows "timeouts_ok c w'"
  using assms binheap_inv_cong [of "theap w c" "\<lambda>r. ts w r" "\<lambda>r. ts w' r"]
  by (simp add: timeouts_ok_def)

section \<open>Untracking and tracking\<close>

definition with_heap :: "nat \<Rightarrow> nat d_binheap \<Rightarrow> crt_world \<Rightarrow> crt_world" where
  "with_heap c h w = upd_ctx c (\<lambda>x. x\<lparr>cc_bh_timeout := h\<rparr>) w"

lemma untrack_exact:
  assumes ok: "timeouts_ok c w" and r: "r \<in> tracked w c"
  obtains h' where
    "crt_req_timeout_untrack r w =
       RPC_DECREF r (with_heap c h' (upd_rpc r (\<lambda>p. p\<lparr>crp_in_binheap := False\<rparr>) w))"
    "binheap_inv (\<lambda>r. ts w r) h'" "mset (heap_nodes h') = mset (heap_nodes (theap w c)) - {#r#}"
    "d_bh_nodes_cnt h' < d_bh_hwm h'"
proof -
  let ?w = "upd_rpc r (\<lambda>p. p\<lparr>crp_in_binheap := False\<rparr>) w"
  have key: "(\<lambda>q. ts ?w q) = (\<lambda>q. ts w q)" by (auto simp: upd_rpc_def)
  have inv: "binheap_inv (\<lambda>q. ts ?w q) (theap w c)" unfolding key by (rule timeouts_okD [OF ok])
  have ops: "hop_compare (crt_timeout_bh_ops (rpcs ?w)) = Some (timeout_bp_node_cmp (rpcs ?w))"
    by (simp add: crt_timeout_bh_ops_def)
  obtain h' where h: "d_binheap_remove (crt_timeout_bh_ops (rpcs ?w)) (Some (theap w c)) (Some r) = Some (Some h')"
    "binheap_inv (\<lambda>q. ts ?w q) h'" "mset (heap_nodes h') = mset (heap_nodes (theap w c)) - {#r#}"
    by (rule timeout_order.remove_inv [OF inv r ops]) rule
  have th: "theap ?w c = theap w c" by (simp add: upd_rpc_def)
  have c: "cr_ctx (rpc w r) = Some c" "crp_in_binheap (rpc w r)" using timeouts_okD(3) [OF ok] r by auto
  have len: "length (heap_nodes h') < length (heap_nodes (theap w c))"
    using h(3) r by (metis size_Diff1_less set_mset_mset size_mset)
  have room: "d_bh_nodes_cnt h' < d_bh_hwm h'"
    using len h(2) timeouts_okD(1) [OF ok] remove_hwm [OF h(1)] by (simp add: binheap_inv_def full_def)
  show thesis
    by (rule that [of h', OF _ h(2) [unfolded key] h(3) room])
      (simp add: crt_req_timeout_untrack_def c Let_def th h(1) with_heap_def)
qed

section \<open>The loop that collects expired descriptors\<close>

text \<open>The descriptors \<open>xs\<close> are no longer marked as tracked; nothing else changes.\<close>

definition unmark :: "nat list \<Rightarrow> crt_world \<Rightarrow> crt_world" where
  "unmark xs w = w\<lparr>rpcs := (\<lambda>r. if r \<in> set xs then (rpc w r)\<lparr>crp_in_binheap := False\<rparr> else rpc w r)\<rparr>"

lemma world_access [simp]:
  "rpcs (with_heap c h w) = rpcs w" "theap (with_heap c h w) c = h"
  "rpcs (upd_rpc r f w) = (rpcs w)(r := f (rpcs w r))" "ctxs (upd_rpc r f w) = ctxs w"
  "ctxs (unmark xs w) = ctxs w"
  "ts (unmark xs w) q = ts w q" "cr_ctx (rpc (unmark xs w) q) = cr_ctx (rpc w q)"
  "crp_refcount (rpc (unmark xs w) q) = crp_refcount (rpc w q)"
  "crp_in_binheap (rpc (unmark xs w) q) \<longleftrightarrow> crp_in_binheap (rpc w q) \<and> q \<notin> set xs"
  by (auto simp: with_heap_def upd_ctx_def upd_rpc_def unmark_def)

lemma unmark_one: "unmark [r] w = upd_rpc r (\<lambda>p. p\<lparr>crp_in_binheap := False\<rparr>) w"
  by (auto simp: unmark_def upd_rpc_def fun_eq_iff)

lemma unmark_Nil [simp]: "unmark [] w = w"
  by (simp add: unmark_def)

lemma unmark_step: "with_heap c h2 (unmark ys (with_heap c h1 (unmark [r] w))) = with_heap c h2 (unmark (r # ys) w)"
  by (auto simp: unmark_def with_heap_def upd_ctx_def fun_eq_iff)

lemma with_heap_same [simp]: "with_heap c (theap w c) w = w"
  by (simp add: with_heap_def upd_ctx_def)

lemma timeouts_ok_remove:
  assumes ok: "timeouts_ok c w" and h: "binheap_inv (\<lambda>r. ts w r) h'"
    "mset (heap_nodes h') = mset (heap_nodes (theap w c)) - {#r#}"
  shows "timeouts_ok c (with_heap c h' (unmark [r] w))" "set (heap_nodes h') = tracked w c - {r}"
proof -
  have "mset (heap_nodes h') = mset (remove1 r (heap_nodes (theap w c)))" using h(2) by simp
  then have "set (heap_nodes h') = set (remove1 r (heap_nodes (theap w c)))" by (rule mset_eq_setD)
  then show s: "set (heap_nodes h') = tracked w c - {r}"
    using set_remove1_eq [OF timeouts_okD(2) [OF ok]] by simp
  show "timeouts_ok c (with_heap c h' (unmark [r] w))"
    using h(1) s timeouts_okD [OF ok] by (auto simp: timeouts_ok_def)
qed

lemma timeout_step:
  assumes ok: "timeouts_ok c w" and r: "r \<in> tracked w c" and m: "crp_refcount (rpc w r) \<noteq> - 1"
  obtains h' where "Option.bind (RPC_ADDREF r w) (crt_req_timeout_untrack r) = Some (with_heap c h' (unmark [r] w))"
    "timeouts_ok c (with_heap c h' (unmark [r] w))"
    "mset (heap_nodes h') = mset (heap_nodes (theap w c)) - {#r#}" "set (heap_nodes h') = tracked w c - {r}"
proof -
  let ?w = "upd_rpc r (\<lambda>p. p\<lparr>crp_refcount := crp_refcount p + 1\<rparr>) w"
  have nz: "crp_refcount (rpc w r) \<noteq> 0" and nm: "crp_refcount (rpc w r) + 1 \<noteq> 0"
    using timeouts_okD(4) [OF ok r] m by (auto simp: eq_neg_iff_add_eq_0)
  have ok1: "timeouts_ok c ?w"
    by (rule timeouts_ok_cong [OF ok]) (use nm timeouts_okD(4) [OF ok] in auto)
  have r1: "r \<in> tracked ?w c" using r by simp
  obtain h' where h: "crt_req_timeout_untrack r ?w =
       RPC_DECREF r (with_heap c h' (upd_rpc r (\<lambda>p. p\<lparr>crp_in_binheap := False\<rparr>) ?w))"
    "binheap_inv (\<lambda>r. ts ?w r) h'" "mset (heap_nodes h') = mset (heap_nodes (theap ?w c)) - {#r#}"
    by (rule untrack_exact [OF ok1 r1]) rule
  have key: "(\<lambda>q. ts ?w q) = (\<lambda>q. ts w q)" by auto
  have inv: "binheap_inv (\<lambda>r. ts w r) h'"
    using h(2) unfolding key .
  have m': "mset (heap_nodes h') = mset (heap_nodes (theap w c)) - {#r#}" using h(3) by simp
  have e: "Option.bind (RPC_ADDREF r w) (crt_req_timeout_untrack r) = Some (with_heap c h' (unmark [r] w))"
    unfolding RPC_ADDREF_def using nz nm
    by (simp add: h(1)) (simp add: RPC_DECREF_def unmark_one upd_rpc_def with_heap_def upd_ctx_def)
  show thesis by (rule that [OF e timeouts_ok_remove(1) [OF ok inv m'] m' timeouts_ok_remove(2) [OF ok inv m']])
qed

lemma timeout_loop_exact:
  assumes "timeouts_ok c w" "\<And>r. r \<in> tracked w c \<Longrightarrow> crp_refcount (rpc w r) \<noteq> - 1"
  shows "\<exists>xs h'. timeout_loop c now acc w = Some (acc @ xs, with_heap c h' (unmark xs w))
    \<and> timeouts_ok c (with_heap c h' (unmark xs w))
    \<and> mset xs = filter_mset (\<lambda>r. ts w r \<le> now) (mset (heap_nodes (theap w c)))
    \<and> mset (heap_nodes h') = filter_mset (\<lambda>r. ts w r > now) (mset (heap_nodes (theap w c)))
    \<and> sorted (map (\<lambda>r. ts w r) xs)"
  using assms
proof (induction "length (heap_nodes (theap w c))" arbitrary: w acc rule: less_induct)
  case less
  note ok = less.prems(1)
  let ?H = "mset (heap_nodes (theap w c))"
  let ?r = "hd (heap_nodes (theap w c))"
  have root: "d_binheap_root (Some (theap w c)) =
      Some (if heap_nodes (theap w c) = [] then None else Some ?r)"
    by (rule timeout_order.root_inv(1) [OF timeouts_okD(1) [OF ok]])
  have least: "ts w ?r \<le> ts w x" if "x \<in> tracked w c" for x
    by (rule timeout_order.root_inv(2) [OF timeouts_okD(1) [OF ok] that])
  show ?case
  proof (cases "heap_nodes (theap w c) = [] \<or> ts w ?r > now")
    case True
    have stop: "timeout_loop c now acc w = Some (acc, w)"
      by (subst timeout_loop.simps) (use True in \<open>auto simp: root\<close>)
    have late: "\<forall>x \<in># ?H. ts w x > now"
      using True least by fastforce
    have "filter_mset (\<lambda>r. ts w r \<le> now) ?H = {#}" "filter_mset (\<lambda>r. ts w r > now) ?H = ?H"
      using late by (auto intro!: multiset_eqI simp: not_le count_eq_zero_iff)
    then show ?thesis using stop ok by (intro exI [of _ "[]"] exI [of _ "theap w c"]) simp
  next
    case False
    then have ne: "heap_nodes (theap w c) \<noteq> []" and exp: "ts w ?r \<le> now" by auto
    then have r: "?r \<in> tracked w c" by simp
    obtain h1 where h1: "Option.bind (RPC_ADDREF ?r w) (crt_req_timeout_untrack ?r) =
        Some (with_heap c h1 (unmark [?r] w))" "timeouts_ok c (with_heap c h1 (unmark [?r] w))"
      "mset (heap_nodes h1) = ?H - {#?r#}" "set (heap_nodes h1) = tracked w c - {?r}"
      by (rule timeout_step [OF ok r less.prems(2) [OF r]]) rule
    let ?w = "with_heap c h1 (unmark [?r] w)"
    have "length (heap_nodes (theap ?w c)) < length (heap_nodes (theap w c))"
      using h1(3) r by (metis world_access(2) size_Diff1_less set_mset_mset size_mset)
    from less.hyps [OF this h1(2), of "acc @ [?r]"] obtain ys h2 where
      y: "timeout_loop c now (acc @ [?r]) ?w = Some ((acc @ [?r]) @ ys, with_heap c h2 (unmark ys ?w))"
        "timeouts_ok c (with_heap c h2 (unmark ys ?w))"
        "mset ys = filter_mset (\<lambda>r. ts w r \<le> now) (mset (heap_nodes h1))"
        "mset (heap_nodes h2) = filter_mset (\<lambda>r. ts w r > now) (mset (heap_nodes h1))"
        "sorted (map (\<lambda>r. ts w r) ys)"
      using less.prems(2) h1(4) by auto
    have H: "?H = add_mset ?r (mset (heap_nodes h1))" using h1(3) r by simp
    have "set ys \<subseteq> tracked w c" using y(3) h1(4) by (metis Diff_subset filter_is_subset mset_filter set_mset_mset subset_trans)
    then have srt: "sorted (map (\<lambda>r. ts w r) (?r # ys))" using y(5) least by auto
    have "timeout_loop c now acc w = timeout_loop c now (acc @ [?r]) ?w"
      using h1(1) ne exp
      by (subst timeout_loop.simps) (auto simp: root bind_eq_Some_conv)
    then have "timeout_loop c now acc w = Some (acc @ (?r # ys), with_heap c h2 (unmark (?r # ys) w))"
      using y(1) by (simp add: unmark_step)
    moreover have "timeouts_ok c (with_heap c h2 (unmark (?r # ys) w))" using y(2) by (simp add: unmark_step)
    moreover have "mset (?r # ys) = filter_mset (\<lambda>r. ts w r \<le> now) ?H"
      "mset (heap_nodes h2) = filter_mset (\<lambda>r. ts w r > now) ?H"
      using y(3,4) exp by (simp_all add: H)
    ultimately show ?thesis using srt by blast
  qed
qed

section \<open>Tracking a descriptor\<close>

definition mark :: "nat \<Rightarrow> crt_world \<Rightarrow> crt_world" where
  "mark r w = upd_rpc r (\<lambda>p. p\<lparr>crp_refcount := crp_refcount p + 1, crp_in_binheap := True\<rparr>) w"

text \<open>The outcome of tracking: the insertion allocates and succeeds or leaves the descriptor alone.\<close>

definition track_outcome :: "nat \<Rightarrow> nat \<Rightarrow> rc \<Rightarrow> nat d_binheap \<Rightarrow> crt_world \<Rightarrow> crt_world" where
  "track_outcome c r rc h w =
     with_heap c h (if rc = DER_SUCCESS then mark r w else w)\<lparr>nalloc := nalloc w + 3\<rparr>"

lemma track_outcome_access [simp]:
  "theap (track_outcome c r rc h w) c = h"
  "rpcs (track_outcome c r rc h w) =
     (if rc = DER_SUCCESS
      then (rpcs w)(r := (rpcs w r)\<lparr>crp_refcount := crp_refcount (rpcs w r) + 1, crp_in_binheap := True\<rparr>)
      else rpcs w)"
  by (auto simp: track_outcome_def with_heap_def upd_ctx_def mark_def upd_rpc_def)

lemma track_exact:
  assumes ok: "timeouts_ok c w" and r: "cr_ctx (rpc w r) = Some c" "\<not> crp_in_binheap (rpc w r)"
    and ref: "crp_refcount (rpc w r) \<noteq> 0" "crp_refcount (rpc w r) \<noteq> - 1"
  obtains rc h' where
    "crt_req_timeout_track r w = Some (rc, track_outcome c r rc h' w)"
    "timeouts_ok c (track_outcome c r rc h' w)"
    "set (heap_nodes h') = (if rc = DER_SUCCESS then insert r (tracked w c) else tracked w c)"
    "rc = DER_SUCCESS \<or> rc = DER_NOMEM"
    "d_bh_nodes_cnt (theap w c) < d_bh_hwm (theap w c) \<Longrightarrow> rc = DER_SUCCESS"
    "(\<forall>k. ok w k) \<and> length (heap_nodes (theap w c)) < DBH_MAX \<longrightarrow> rc = DER_SUCCESS"
proof -
  let ?w = "upd_rpc r (\<lambda>p. p\<lparr>crp_refcount := crp_refcount p + 1\<rparr>) w"
  let ?al = "(ok w (nalloc w), ok w (nalloc w + 1), ok w (nalloc w + 2))"
  let ?ops = "crt_timeout_bh_ops (rpcs ?w)"
  have key: "(\<lambda>q. ts ?w q) = (\<lambda>q. ts w q)" by auto
  have inv: "binheap_inv (\<lambda>q. ts ?w q) (theap w c)" unfolding key by (rule timeouts_okD [OF ok])
  have new: "r \<notin> tracked w c" using timeouts_okD(3) [OF ok] r by simp
  have ops: "hop_compare ?ops = Some (timeout_bp_node_cmp (rpcs ?w))" and enter: "hop_enter ?ops = Some timeout_bp_node_enter"
    by (simp_all add: crt_timeout_bh_ops_def)
  obtain rc h' where h: "d_binheap_insert ?al ?ops (Some (theap w c)) (Some r) = Some (rc, Some h')"
    "binheap_inv (\<lambda>q. ts ?w q) h'"
    "mset (heap_nodes h') = (if rc = DER_SUCCESS then add_mset r (mset (heap_nodes (theap w c))) else mset (heap_nodes (theap w c)))"
    "?al = (True, True, True) \<Longrightarrow> hop_enter ?ops = None \<or> (\<exists>f. hop_enter ?ops = Some f \<and> f r = DER_SUCCESS) \<Longrightarrow>
      d_bh_nodes_cnt (theap w c) < DBH_MAX \<Longrightarrow> rc = DER_SUCCESS"
    by (rule timeout_order.insert_inv [OF inv new ops]) rule
  have nm: "crp_refcount (rpc w r) + 1 \<noteq> 0" using ref by (auto simp: eq_neg_iff_add_eq_0)
  have e: "crt_req_timeout_track r w = Some (rc, track_outcome c r rc h' w)"
    using h(1) r ref nm
    by (auto simp: crt_req_timeout_track_def RPC_ADDREF_def RPC_DECREF_def alloc3_def Let_def track_outcome_def
        mark_def upd_rpc_def with_heap_def upd_ctx_def)
  have set: "set (heap_nodes h') = (if rc = DER_SUCCESS then insert r (tracked w c) else tracked w c)"
    using arg_cong [OF h(3), of set_mset] by (auto split: if_splits)
  have key': "(\<lambda>q. ts (track_outcome c r rc h' w) q) = (\<lambda>q. ts w q)" by auto
  have ok': "timeouts_ok c (track_outcome c r rc h' w)"
    unfolding timeouts_ok_def key' using h(2) [unfolded key] set timeouts_okD(3,4) [OF ok] r nm
    by (auto split: if_splits)
  have full: "full (theap w c) (heap_nodes (theap w c))" using inv by (simp add: binheap_inv_def)
  have rc: "rc = DER_SUCCESS \<or> rc = DER_NOMEM"
    by (rule insert_rc [OF h(1) full enter]) (simp add: timeout_bp_node_enter_def)
  have "length (heap_nodes (theap w c)) = d_bh_nodes_cnt (theap w c)" by (simp add: heap_nodes_def)
  then show thesis
    by (intro that [OF e ok' set rc])
      (use insert_room [OF h(1) _ enter] h(4) enter in \<open>auto simp: timeout_bp_node_enter_def\<close>)
qed

section \<open>Forced timeouts\<close>

text \<open>
  \<open>crt_req_force_timeout\<close> takes the descriptor out, sets its time stamp to 0 and puts it back; the room
  left by the removal makes the second step independent of memory.
\<close>

lemma force_exact:
  assumes ok: "timeouts_ok c w" and r: "r \<in> tracked w c" "cr_opc (rpc w r) \<noteq> CRT_OPC_URI_LOOKUP"
    and ref: "crp_refcount (rpc w r) \<noteq> 1"
  obtains w' where "crt_req_force_timeout (Some r) w = Some w'" "timeouts_ok c w'" "tracked w' c = tracked w c"
    "rpcs w' = (rpcs w)(r := (rpc w r)\<lparr>crp_timeout_ts := 0\<rparr>)" "destroyed w' = destroyed w"
proof -
  obtain h where h: "crt_req_timeout_untrack r w =
       RPC_DECREF r (with_heap c h (upd_rpc r (\<lambda>p. p\<lparr>crp_in_binheap := False\<rparr>) w))"
    "binheap_inv (\<lambda>r. ts w r) h" "mset (heap_nodes h) = mset (heap_nodes (theap w c)) - {#r#}"
    "d_bh_nodes_cnt h < d_bh_hwm h"
    by (rule untrack_exact [OF ok r(1)]) rule
  define w1 where "w1 = with_heap c h (upd_rpc r (\<lambda>p. p\<lparr>crp_in_binheap := False, crp_refcount := crp_refcount p - 1,
      crp_timeout_ts := 0\<rparr>) w)"
  have nz: "crp_refcount (rpc w r) \<noteq> 0" using timeouts_okD(4) [OF ok r(1)] .
  have ref1: "crp_refcount (rpc w r) - 1 \<noteq> 0" "crp_refcount (rpc w r) - 1 \<noteq> - 1" using ref nz by auto
  have s: "set (heap_nodes h) = tracked w c - {r}" by (rule timeouts_ok_remove(2) [OF ok h(2,3)])
  have rw: "rpcs w1 = (rpcs w)(r := (rpc w r)\<lparr>crp_in_binheap := False, crp_refcount := crp_refcount (rpc w r) - 1,
      crp_timeout_ts := 0\<rparr>)" and hw: "theap w1 c = h" and dw: "destroyed w1 = destroyed w"
    by (auto simp: w1_def) (simp add: with_heap_def upd_ctx_def upd_rpc_def)
  have inv: "binheap_inv (\<lambda>q. ts w1 q) h"
    using h(2) s by (auto simp: binheap_inv_def heap_def rw full_def)
  have ok1: "timeouts_ok c w1"
    using inv s timeouts_okD(3,4) [OF ok] ref1 by (auto simp: timeouts_ok_def hw rw)
  have c: "cr_ctx (rpc w1 r) = Some c" "\<not> crp_in_binheap (rpc w1 r)"
    using timeouts_okD(3) [OF ok] r(1) by (auto simp: rw)
  have rf: "crp_refcount (rpc w1 r) \<noteq> 0" "crp_refcount (rpc w1 r) \<noteq> - 1" using ref1 by (auto simp: rw)
  obtain rc h' where t: "crt_req_timeout_track r w1 = Some (rc, track_outcome c r rc h' w1)"
    "timeouts_ok c (track_outcome c r rc h' w1)"
    "set (heap_nodes h') = (if rc = DER_SUCCESS then insert r (tracked w1 c) else tracked w1 c)"
    "d_bh_nodes_cnt (theap w1 c) < d_bh_hwm (theap w1 c) \<Longrightarrow> rc = DER_SUCCESS"
    by (rule track_exact [OF ok1 c rf]) rule
  have rc: "rc = DER_SUCCESS" using t(4) h(4) by (simp add: hw)
  have u: "map_option (upd_rpc r (\<lambda>p. p\<lparr>crp_timeout_ts := 0\<rparr>)) (crt_req_timeout_untrack r w) = Some w1"
    using nz ref by (simp add: h(1) RPC_DECREF_def) (simp add: w1_def upd_rpc_def with_heap_def upd_ctx_def)
  have "crt_req_force_timeout (Some r) w = Some (track_outcome c r rc h' w1)"
    using u r(2) t(1) by (auto simp: crt_req_force_timeout_def)
  then show thesis
  proof (rule that [OF _ t(2)])
    show "tracked (track_outcome c r rc h' w1) c = tracked w c" using t(3) r(1) by (auto simp: rc hw s)
    show "rpcs (track_outcome c r rc h' w1) = (rpcs w)(r := (rpc w r)\<lparr>crp_timeout_ts := 0\<rparr>)"
      using timeouts_okD(3) [OF ok] r(1) by (auto simp: rc rw fun_eq_iff intro!: crt_rpc_priv.equality)
    show "destroyed (track_outcome c r rc h' w1) = destroyed w"
      by (simp add: track_outcome_def rc mark_def with_heap_def upd_ctx_def upd_rpc_def dw)
  qed
qed

section \<open>Properties\<close>

text \<open>
  Property C23. The loop of \<open>crt_context_timeout_check\<close> ends. It returns the descriptors of the heap whose
  time stamp is not after \<open>ts_now\<close>, each once and in the order of their time stamps, and leaves exactly
  the others in the heap. The invariant of the heap holds again, every reference count is what it
  was, and of the descriptors only the marks of the returned ones change. (The hypothesis on the
  counts is that one more reference does not overflow.)
\<close>

theorem timeout_loop_expires:
  assumes "timeouts_ok c w" "\<forall>r \<in> tracked w c. crp_refcount (rpc w r) \<noteq> - 1"
  shows "\<exists>xs w'. timeout_loop c ts_now [] w = Some (xs, w') \<and> timeouts_ok c w'
    \<and> distinct xs \<and> set xs = {r \<in> tracked w c. ts w r \<le> ts_now} \<and> sorted (map (\<lambda>r. ts w r) xs)
    \<and> tracked w' c = {r \<in> tracked w c. ts_now < ts w r}
    \<and> rpcs w' = (\<lambda>r. if r \<in> set xs then (rpc w r)\<lparr>crp_in_binheap := False\<rparr> else rpc w r)"
proof -
  obtain xs h' where x: "timeout_loop c ts_now [] w = Some ([] @ xs, with_heap c h' (unmark xs w))"
    "timeouts_ok c (with_heap c h' (unmark xs w))"
    "mset xs = filter_mset (\<lambda>r. ts w r \<le> ts_now) (mset (heap_nodes (theap w c)))"
    "mset (heap_nodes h') = filter_mset (\<lambda>r. ts w r > ts_now) (mset (heap_nodes (theap w c)))"
    "sorted (map (\<lambda>r. ts w r) xs)"
    using timeout_loop_exact [OF assms(1), of ts_now "[]"] assms(2) by blast
  have "distinct xs"
    using x(3) timeouts_okD(2) [OF assms(1)] by (metis distinct_filter mset_eq_imp_distinct_iff mset_filter)
  moreover have "set xs = {r \<in> tracked w c. ts w r \<le> ts_now}" "set (heap_nodes h') = {r \<in> tracked w c. ts_now < ts w r}"
    using arg_cong [OF x(3), of set_mset] arg_cong [OF x(4), of set_mset] by auto
  ultimately show ?thesis
    using x(1,2,5) by (intro exI [of _ xs] exI [of _ "with_heap c h' (unmark xs w)"]) (auto simp: unmark_def)
qed

text \<open>A context whose heap holds two descriptors, the first of which expires at time 10.\<close>

definition demo_rpc :: "u64 \<Rightarrow> crt_rpc_priv" where
  "demo_rpc t =
     \<lparr>cr_opc = 1, cr_ctx = Some 0, ep_rank = 3, crp_timeout_sec = 0, crp_timeout_ts = t, crp_complete_cb = False,
      crp_epi = None, crp_state = RPC_STATE_REQ_SENT, crp_hg_hdl = True, crp_ul_req = None,
      crp_in_binheap = False, crp_ctx_tracked = False, crp_on_wire = True, crp_refcount = 2,
      crp_reply_rc = DER_SUCCESS, crp_opc_info = zeroed_info\<rparr>"

definition empty_epi_table :: "(epi_mem, nat, d_rank_t, unit) d_hash_table" where
  "empty_epi_table =
     \<lparr>ht_bits = CRT_EPI_TABLE_BITS, ht_feats = D_HASH_FT_NOLOCK, ht_ops = Some epi_table_ops,
      ht_buckets = Some (replicate 8 [])\<rparr>"

definition demo_world :: crt_world where
  "demo_world =
     \<lparr>rpcs = (\<lambda>_. demo_rpc 0)(5 := (demo_rpc 10)\<lparr>crp_in_binheap := True\<rparr>, 7 := (demo_rpc 20)\<lparr>crp_in_binheap := True\<rparr>),
      epis = \<lparr>epi_at = (\<lambda>_. \<lparr>epi_rank = 0, epi_ctx = 0, epi_req_q = [], epi_req_num = 0, epi_reply_num = 0,
                epi_req_waitq = [], epi_req_wait_num = 0, epi_ref = 0, epi_initialized = False\<rparr>), epi_freed = []\<rparr>,
      ctxs = (\<lambda>_. \<lparr>cc_idx = 0, cc_rpc_cb = None, cc_rpc_cb_arg = 0, cc_epi_table = empty_epi_table,
                cc_bh_timeout = heap57, cc_timeout_sec = 0\<rparr>),
      cg_share_na = False, cg_timeout = 60, cg_credit_ep_ctx = 1, cg_ctx_list = [0], cg_ctx_num = 1,
      cg_ctx_max_num = 16, cg_inited = True, cpg_inited = False, cpg_timeout_cbs = [], cpg_prog_cbs = (\<lambda>_. []),
      clk = (\<lambda>k. of_nat k), tick = 0, ok = (\<lambda>_. True), nalloc = 0, new_epi = 0, new_ctx = 1, destroyed = []\<rparr>"

lemma demo_timeouts_ok: "timeouts_ok 0 demo_world" "tracked demo_world 0 = {5, 7}"
proof -
  show "tracked demo_world 0 = {5, 7}" by (auto simp: demo_world_def heap57_nodes)
  have "heap (\<lambda>r. ts demo_world r) [5, 7]"
    by (auto simp: heap_def demo_world_def demo_rpc_def less_Suc_eq)
  then show "timeouts_ok 0 demo_world"
    using heap57_nodes(2)
    by (auto simp: timeouts_ok_def binheap_inv_def demo_world_def heap57_nodes(1) demo_rpc_def)
qed

theorem timeout_loop_expires_witness:
  "\<exists>w'. timeout_loop 0 15 [] demo_world = Some ([5], w') \<and> tracked w' 0 = {7} \<and> timeouts_ok 0 w'"
proof -
  have e: "{r \<in> tracked demo_world 0. ts demo_world r \<le> 15} = {5}"
    "{r \<in> tracked demo_world 0. 15 < ts demo_world r} = {7}"
    by (auto simp: demo_timeouts_ok(2)) (auto simp: demo_world_def demo_rpc_def)
  have "\<forall>r \<in> tracked demo_world 0. crp_refcount (rpc demo_world r) \<noteq> - 1"
    by (auto simp: demo_world_def demo_rpc_def)
  then obtain xs w' where x: "timeout_loop 0 15 [] demo_world = Some (xs, w')" "timeouts_ok 0 w'"
    "distinct xs" "set xs = {5}" "tracked w' 0 = {7}"
    using timeout_loop_expires [OF demo_timeouts_ok(1), of 15] unfolding e by blast
  have "length xs = 1" using x(3,4) distinct_card by fastforce
  then have "xs = [5]" using x(4) by (cases xs) auto
  then show ?thesis using x by blast
qed

text \<open>
  Property C24. Forcing a timeout of a tracked descriptor that is referenced more than once: no
  assertion fails and no memory is needed, the descriptor stays in the heap with time stamp 0 and is
  otherwise unchanged, and the next check collects it, whatever the clock says.
\<close>

theorem force_timeout_expires:
  assumes "timeouts_ok c w" "r \<in> tracked w c" "cr_opc (rpc w r) \<noteq> CRT_OPC_URI_LOOKUP"
    and "crp_refcount (rpc w r) \<noteq> 1" "\<forall>r \<in> tracked w c. crp_refcount (rpc w r) \<noteq> - 1"
  shows "\<exists>w' xs w''. crt_req_force_timeout (Some r) w = Some w' \<and> timeouts_ok c w' \<and> tracked w' c = tracked w c
    \<and> rpcs w' = (rpcs w)(r := (rpc w r)\<lparr>crp_timeout_ts := 0\<rparr>) \<and> destroyed w' = destroyed w
    \<and> timeout_loop c ts_now [] w' = Some (xs, w'') \<and> r \<in> set xs"
proof -
  obtain w' where f: "crt_req_force_timeout (Some r) w = Some w'" "timeouts_ok c w'" "tracked w' c = tracked w c"
    "rpcs w' = (rpcs w)(r := (rpc w r)\<lparr>crp_timeout_ts := 0\<rparr>)" "destroyed w' = destroyed w"
    by (rule force_exact [OF assms(1-4)])
  have "crp_refcount (rpc w' q) \<noteq> - 1" if "q \<in> tracked w' c" for q using that assms(2,5) f(3,4) by auto
  then obtain xs h' where x: "timeout_loop c ts_now [] w' = Some ([] @ xs, with_heap c h' (unmark xs w'))"
    "mset xs = filter_mset (\<lambda>r. ts w' r \<le> ts_now) (mset (heap_nodes (theap w' c)))"
    using timeout_loop_exact [OF f(2), of ts_now "[]"] by blast
  have "r \<in> set xs" using arg_cong [OF x(2), of set_mset] assms(2) f(3,4) by auto
  then show ?thesis using f x(1) by auto
qed

theorem force_timeout_expires_witness:
  "\<exists>w' xs w''. crt_req_force_timeout (Some 7) demo_world = Some w' \<and> ts w' 7 = 0
    \<and> timeout_loop 0 0 [] w' = Some (xs, w'') \<and> 7 \<in> set xs"
proof -
  have "7 \<in> tracked demo_world 0" "cr_opc (rpc demo_world 7) \<noteq> CRT_OPC_URI_LOOKUP"
    "crp_refcount (rpc demo_world 7) \<noteq> 1" "\<forall>r \<in> tracked demo_world 0. crp_refcount (rpc demo_world r) \<noteq> - 1"
    by (auto simp: demo_timeouts_ok(2)) (auto simp: demo_world_def demo_rpc_def CRT_OPC_URI_LOOKUP_def)
  from force_timeout_expires [OF demo_timeouts_ok(1) this, of 0] show ?thesis by auto
qed

end
