(* ===== verification/Ctx_Track.thy ===== *)
theory Ctx_Track
  imports Ctx_Timeout
begin

text \<open>
  Flow control of \<^verbatim>\<open>src/cart/crt_context.c\<close>: \<open>crt_context_req_track\<close> puts a request in flight or, when the
  credits of its endpoint are used up, into the wait queue; \<open>crt_context_req_untrack\<close> takes it out and
  submits waiting requests for the credits that became free. The operations are shown to implement a
  pair of queues per target rank.
\<close>

section \<open>Tracking a request\<close>

definition CRT_REQ_TRACK_IN_INFLIGHQ :: rc where "CRT_REQ_TRACK_IN_INFLIGHQ = DER_SUCCESS"
definition CRT_REQ_TRACK_IN_WAITQ :: rc where "CRT_REQ_TRACK_IN_WAITQ = RC_OTHER 1"

abbreviation "etable w c \<equiv> cc_epi_table (ctxs w c)"

definition free_ep :: "nat \<Rightarrow> crt_world \<Rightarrow> crt_world" where
  "free_ep e w = w\<lparr>epis := (epis w)\<lparr>epi_freed := e # epi_freed (epis w)\<rparr>\<rparr>"

definition new_ep :: "d_rank_t \<Rightarrow> nat \<Rightarrow> crt_ep_inflight" where
  "new_ep rank c =
     \<lparr>epi_rank = rank, epi_ctx = c, epi_req_q = [], epi_req_num = 0, epi_reply_num = 0, epi_req_waitq = [],
      epi_req_wait_num = 0, epi_ref = 1, epi_initialized = True\<rparr>"

text \<open>The branch that creates the record of an endpoint; \<open>Inl\<close> is an early return.\<close>

definition track_new_epi ::
  "crt_env \<Rightarrow> nat \<Rightarrow> d_rank_t \<Rightarrow> crt_world \<Rightarrow> ((rc + nat) \<times> crt_world) option" where
  "track_new_epi env c rank w =
     (let (a, w) = alloc1 w in
      if \<not> a then Some (Inl DER_NOMEM, w)
      else
        let e = new_epi w; w = upd_ep e (\<lambda>_. new_ep rank c) (w\<lparr>new_epi := e + 1\<rparr>) in
        if mutex_rc env \<noteq> DER_SUCCESS then Some (Inl (mutex_rc env), free_ep e w)
        else
          map_option
            (\<lambda>(rc, t, m).
               let w = upd_ctx c (\<lambda>x. x\<lparr>cc_epi_table := t\<rparr>) (w\<lparr>epis := m\<rparr>) in
               if rc \<noteq> DER_SUCCESS then (Inl rc, free_ep e w) else (Inr e, w))
            (d_hash_rec_insert (etable w c) (epis w) rank 4 e True))"

text \<open>The section under the mutex of the endpoint record.\<close>

definition track_enqueue :: "nat \<Rightarrow> nat \<Rightarrow> crt_world \<Rightarrow> (rc \<times> crt_world) option" where
  "track_enqueue r e w =
     (if epi_req_num (ep w e) < epi_reply_num (ep w e) then None
      else
        let w = upd_rpc r (\<lambda>p. p\<lparr>crp_epi := Some e\<rparr>) (crt_set_timeout r w) in
        Option.bind (RPC_ADDREF r w) (\<lambda>w.
        Option.bind
          (if cg_credit_ep_ctx w \<noteq> 0 \<and> epi_req_num (ep w e) - epi_reply_num (ep w e) \<ge> uint (cg_credit_ep_ctx w)
           then
             let front = coi_queue_front (crp_opc_info (rpc w r));
                 w = upd_ep e (\<lambda>p. p\<lparr>epi_req_waitq := (if front then r # epi_req_waitq p else epi_req_waitq p @ [r]),
                        epi_req_wait_num := epi_req_wait_num p + 1\<rparr>) w
             in Some (CRT_REQ_TRACK_IN_WAITQ, upd_rpc r (\<lambda>p. p\<lparr>crp_state := RPC_STATE_QUEUED\<rparr>) w)
           else
             Option.bind (crt_req_timeout_track r w) (\<lambda>(rc, w).
               if rc = DER_SUCCESS then
                 Some (CRT_REQ_TRACK_IN_INFLIGHQ,
                   upd_ep e (\<lambda>p. p\<lparr>epi_req_q := epi_req_q p @ [r], epi_req_num := epi_req_num p + 1\<rparr>) w)
               else map_option (Pair rc) (RPC_DECREF r w)))
          (\<lambda>(rc, w). Some (rc, upd_rpc r (\<lambda>p. p\<lparr>crp_ctx_tracked := True\<rparr>) w))))"

text \<open>The section under the mutex of the context: the record of the endpoint, created if there is none.\<close>

definition track_get_epi ::
  "crt_env \<Rightarrow> nat \<Rightarrow> d_rank_t \<Rightarrow> crt_world \<Rightarrow> ((rc + nat) \<times> crt_world) option" where
  "track_get_epi env c rank w =
     Option.bind (d_hash_rec_find (etable w c) (epis w) rank 4) (\<lambda>(rlink, m).
       let w = w\<lparr>epis := m\<rparr> in
       case rlink of
         None \<Rightarrow> track_new_epi env c rank w
       | Some e \<Rightarrow> if epi_ctx (ep w e) \<noteq> c then None else Some (Inr e, w))"

definition crt_context_req_track :: "crt_env \<Rightarrow> nat \<Rightarrow> crt_world \<Rightarrow> (rc \<times> crt_world) option" where
  "crt_context_req_track env r w =
     Option.bind (cr_ctx (rpc w r)) (\<lambda>c.
       if cr_opc (rpc w r) = CRT_OPC_URI_LOOKUP then Some (CRT_REQ_TRACK_IN_INFLIGHQ, w)
       else
         Option.bind (track_get_epi env c (primary_rank env (rpc w r)) w) (\<lambda>(res, w).
           case res of
             Inl rc \<Rightarrow> Some (rc, w)
           | Inr e \<Rightarrow>
               Option.bind (track_enqueue r e w) (\<lambda>(rc, w).
                 map_option (\<lambda>(t, m). (rc, upd_ctx c (\<lambda>x. x\<lparr>cc_epi_table := t\<rparr>) (w\<lparr>epis := m\<rparr>)))
                   (d_hash_rec_decref (etable w c) (epis w) e))))"

section \<open>Untracking a request\<close>

text \<open>
  The loop over the wait queue; its first argument is the number of credits left, which bounds it.
  The result lists the requests to submit.
\<close>

fun waitq_loop :: "nat \<Rightarrow> nat \<Rightarrow> nat list \<Rightarrow> crt_world \<Rightarrow> (nat list \<times> crt_world) option" where
  "waitq_loop 0 e submit_list w = Some (submit_list, w)"
| "waitq_loop (Suc credits) e submit_list w =
     (case epi_req_waitq (ep w e) of
        [] \<Rightarrow> Some (submit_list, w)
      | t # _ \<Rightarrow>
          if \<not> epi_req_wait_num (ep w e) > 0 then None
          else
            let w = crt_set_timeout t (upd_rpc t (\<lambda>p. p\<lparr>crp_state := RPC_STATE_INITED\<rparr>) w) in
            Option.bind (crt_req_timeout_track t w) (\<lambda>(rc, w).
              let w = upd_ep e (\<lambda>p. p\<lparr>epi_req_waitq := tl (epi_req_waitq p), epi_req_q := epi_req_q p @ [t],
                         epi_req_wait_num := epi_req_wait_num p - 1\<rparr>) w
              in
              if \<not> epi_req_wait_num (ep w e) \<ge> 0 then None
              else
                let w = upd_ep e (\<lambda>p. p\<lparr>epi_req_num := epi_req_num p + 1\<rparr>) w in
                if epi_req_num (ep w e) < epi_reply_num (ep w e) then None
                else waitq_loop credits e (submit_list @ [t]) w))"

text \<open>\<^verbatim>\<open>d_list_del_init\<close> takes the request out of the queue it is in.\<close>

definition dequeue :: "nat \<Rightarrow> crt_ep_inflight \<Rightarrow> crt_ep_inflight" where
  "dequeue r p = p\<lparr>epi_req_q := remove1 r (epi_req_q p), epi_req_waitq := remove1 r (epi_req_waitq p)\<rparr>"

definition untrack_state :: "crt_rpc_state \<Rightarrow> bool" where
  "untrack_state s \<longleftrightarrow>
     s = RPC_STATE_INITED \<or> s = RPC_STATE_COMPLETED \<or> s = RPC_STATE_TIMEOUT \<or> s = RPC_STATE_ADDR_LOOKUP
     \<or> s = RPC_STATE_URI_LOOKUP \<or> s = RPC_STATE_CANCELED \<or> s = RPC_STATE_FWD_UNREACH"

text \<open>The request leaves its queue and is counted as answered or as never sent.\<close>

definition untrack_dequeue :: "nat \<Rightarrow> nat \<Rightarrow> crt_world \<Rightarrow> crt_world" where
  "untrack_dequeue r e w =
     upd_ep e (\<lambda>p. if crp_state (rpc w r) = RPC_STATE_COMPLETED
       then (dequeue r p)\<lparr>epi_reply_num := epi_reply_num p + 1\<rparr>
       else (dequeue r p)\<lparr>epi_req_num := epi_req_num p - 1\<rparr>) w"

text \<open>It leaves the heap, and the reference taken by \<open>crt_context_req_track\<close> is dropped.\<close>

definition untrack_release :: "nat \<Rightarrow> crt_world \<Rightarrow> crt_world option" where
  "untrack_release r w =
     Option.bind (if \<not> crt_req_timedout (rpc w r) then crt_req_timeout_untrack r w else Some w) (\<lambda>w.
       RPC_DECREF r (upd_rpc r (\<lambda>p. p\<lparr>crp_ctx_tracked := False\<rparr>) w))"

text \<open>Free credits are given to waiting requests.\<close>

definition untrack_waitq :: "nat \<Rightarrow> crt_world \<Rightarrow> (nat list \<times> crt_world) option" where
  "untrack_waitq e w =
     (if cg_credit_ep_ctx w = 0 then Some ([], w)
      else
        let inflight = epi_req_num (ep w e) - epi_reply_num (ep w e) in
        if \<not> (inflight \<ge> 0 \<and> inflight \<le> uint (cg_credit_ep_ctx w)) then None
        else waitq_loop (nat (uint (cg_credit_ep_ctx w) - inflight)) e [] w)"

text \<open>\<open>crt_context_req_untrack\<close> up to the point where the mutex is released; an early return submits nothing.\<close>

definition untrack_locked :: "nat \<Rightarrow> crt_world \<Rightarrow> (nat list \<times> crt_world) option" where
  "untrack_locked r w =
     (if cr_ctx (rpc w r) = None then None
      else if cr_opc (rpc w r) = CRT_OPC_URI_LOOKUP then Some ([], w)
      else if \<not> untrack_state (crp_state (rpc w r)) then None
      else
        Option.bind (crp_epi (rpc w r)) (\<lambda>e.
          if \<not> crp_ctx_tracked (rpc w r) then Some ([], w)
          else
            let w = untrack_dequeue r e w in
            if epi_req_num (ep w e) < epi_reply_num (ep w e) then None
            else Option.bind (untrack_release r w) (untrack_waitq e)))"

text \<open>
  The loop that submits; untracking a request that could not be sent may give more requests to
  submit, which the inner call handles first.
\<close>

partial_function (option) resubmit :: "crt_env \<Rightarrow> nat list \<Rightarrow> crt_world \<Rightarrow> crt_world option" where
  "resubmit env submit_list w =
     (case submit_list of
        [] \<Rightarrow> Some w
      | t # rest \<Rightarrow>
          Option.bind (send_internal env t w) (\<lambda>(rc, w).
            if rc = DER_SUCCESS then resubmit env rest w
            else
              Option.bind (RPC_ADDREF t w) (\<lambda>w.
              Option.bind (untrack_locked t (upd_rpc t (\<lambda>p. p\<lparr>crp_state := RPC_STATE_INITED\<rparr>) w)) (\<lambda>(sub, w).
              Option.bind (resubmit env sub w) (\<lambda>w.
              Option.bind (crt_rpc_complete env t rc w) (\<lambda>w.
              Option.bind (RPC_DECREF t w) (\<lambda>w. resubmit env rest w)))))))"

definition crt_context_req_untrack :: "crt_env \<Rightarrow> nat \<Rightarrow> crt_world \<Rightarrow> crt_world option" where
  "crt_context_req_untrack env r w =
     Option.bind (untrack_locked r w) (\<lambda>(submit_list, w). resubmit env submit_list w)"

section \<open>Projections\<close>

lemma upd_epi_at: "epi_at (upd_epi e f m) x = (if x = e then f (epi_at m e) else epi_at m x)"
  by (simp add: upd_epi_def)

lemma track_world_access [simp]:
  "rpcs (upd_ep e f w) = rpcs w" "ctxs (upd_ep e f w) = ctxs w" "epis (upd_ep e f w) = upd_epi e f (epis w)"
  "cg_credit_ep_ctx (upd_ep e f w) = cg_credit_ep_ctx w" "new_epi (upd_ep e f w) = new_epi w"
  "epis (upd_rpc r g w) = epis w" "cg_credit_ep_ctx (upd_rpc r g w) = cg_credit_ep_ctx w"
  "new_epi (upd_rpc r g w) = new_epi w"
  "epis (with_heap c h w) = epis w" "etable (with_heap c h w) d = etable w d"
  "cg_credit_ep_ctx (with_heap c h w) = cg_credit_ep_ctx w" "new_epi (with_heap c h w) = new_epi w"
  "epis (track_outcome c r rc h w) = epis w" "etable (track_outcome c r rc h w) d = etable w d"
  "cg_credit_ep_ctx (track_outcome c r rc h w) = cg_credit_ep_ctx w"
  "new_epi (track_outcome c r rc h w) = new_epi w"
  by (auto simp: upd_ep_def upd_rpc_def with_heap_def upd_ctx_def track_outcome_def mark_def)

lemma set_timeout_eq:
  obtains v where "crt_set_timeout r w = upd_rpc r (\<lambda>p. p\<lparr>crp_timeout_ts := v\<rparr>) (w\<lparr>tick := tick w + 1\<rparr>)"
  by (auto simp: crt_set_timeout_def d_timeus_secdiff_def Let_def)

text \<open>Only the descriptor \<open>r\<close> changes, and it is not in the heap.\<close>

lemma timeouts_ok_frame:
  assumes "timeouts_ok c w" "theap w' c = theap w c" "\<And>q. q \<noteq> r \<Longrightarrow> rpc w' q = rpc w q"
    and "\<not> crp_in_binheap (rpc w r)" "\<not> crp_in_binheap (rpc w' r)"
  shows "timeouts_ok c w'"
proof (rule timeouts_ok_cong [OF assms(1,2)])
  show "ts w' q = ts w q" "crp_refcount (rpc w' q) \<noteq> 0" if "q \<in> tracked w c" for q
    using that assms timeouts_okD(3,4) [OF assms(1), of q] by (cases "q = r"; auto)+
  show "crp_in_binheap (rpc w' q) \<and> cr_ctx (rpc w' q) = Some c \<longleftrightarrow>
      crp_in_binheap (rpc w q) \<and> cr_ctx (rpc w q) = Some c" for q
    using assms by (cases "q = r") auto
qed

section \<open>Entering a queue\<close>

definition ep_full :: "crt_world \<Rightarrow> nat \<Rightarrow> bool" where
  "ep_full w e \<longleftrightarrow> cg_credit_ep_ctx w \<noteq> 0
     \<and> epi_req_num (ep w e) - epi_reply_num (ep w e) \<ge> uint (cg_credit_ep_ctx w)"

definition enqueued :: "rc \<Rightarrow> bool \<Rightarrow> nat \<Rightarrow> crt_ep_inflight \<Rightarrow> crt_ep_inflight" where
  "enqueued rc front r p =
     (if rc = CRT_REQ_TRACK_IN_WAITQ
      then p\<lparr>epi_req_waitq := (if front then r # epi_req_waitq p else epi_req_waitq p @ [r]),
             epi_req_wait_num := epi_req_wait_num p + 1\<rparr>
      else if rc = CRT_REQ_TRACK_IN_INFLIGHQ
      then p\<lparr>epi_req_q := epi_req_q p @ [r], epi_req_num := epi_req_num p + 1\<rparr>
      else p)"

text \<open>What a descriptor looks like after \<open>track_enqueue\<close> returned \<open>rc\<close>.\<close>

definition enqueued_rpc :: "rc \<Rightarrow> nat \<Rightarrow> crt_rpc_priv \<Rightarrow> crt_rpc_priv \<Rightarrow> bool" where
  "enqueued_rpc rc e p p' \<longleftrightarrow>
     cr_ctx p' = cr_ctx p \<and> cr_opc p' = cr_opc p \<and> ep_rank p' = ep_rank p
     \<and> crp_epi p' = Some e \<and> crp_ctx_tracked p'
     \<and> crp_state p' = (if rc = CRT_REQ_TRACK_IN_WAITQ then RPC_STATE_QUEUED else crp_state p)
     \<and> (crp_in_binheap p' \<longleftrightarrow> rc = CRT_REQ_TRACK_IN_INFLIGHQ)
     \<and> crp_refcount p' = crp_refcount p + (if rc = CRT_REQ_TRACK_IN_INFLIGHQ then 2
          else if rc = CRT_REQ_TRACK_IN_WAITQ then 1 else 0)"

lemmas track_rc_defs = CRT_REQ_TRACK_IN_INFLIGHQ_def CRT_REQ_TRACK_IN_WAITQ_def

lemma enqueue_exact:
  assumes ok: "timeouts_ok c w" and r: "cr_ctx (rpc w r) = Some c" "\<not> crp_in_binheap (rpc w r)"
    and ref: "crp_refcount (rpc w r) \<noteq> 0" "crp_refcount (rpc w r) + 1 \<noteq> 0" "crp_refcount (rpc w r) + 2 \<noteq> 0"
    and num: "epi_reply_num (ep w e) \<le> epi_req_num (ep w e)"
  obtains rc w' where "track_enqueue r e w = Some (rc, w')" "timeouts_ok c w'"
    "\<forall>q. q \<noteq> r \<longrightarrow> rpc w' q = rpc w q" "enqueued_rpc rc e (rpc w r) (rpc w' r)"
    "epis w' = upd_epi e (enqueued rc (coi_queue_front (crp_opc_info (rpc w r))) r) (epis w)"
    "etable w' c = etable w c" "cg_credit_ep_ctx w' = cg_credit_ep_ctx w" "new_epi w' = new_epi w"
    "rc = CRT_REQ_TRACK_IN_WAITQ \<longleftrightarrow> ep_full w e"
    "rc \<in> {CRT_REQ_TRACK_IN_WAITQ, CRT_REQ_TRACK_IN_INFLIGHQ, DER_NOMEM}"
    "(\<forall>k. ok w k) \<and> length (heap_nodes (theap w c)) < DBH_MAX \<longrightarrow> rc \<noteq> DER_NOMEM"
proof -
  obtain v where v: "crt_set_timeout r w = upd_rpc r (\<lambda>p. p\<lparr>crp_timeout_ts := v\<rparr>) (w\<lparr>tick := tick w + 1\<rparr>)"
    by (rule set_timeout_eq)
  define w1 where "w1 = upd_rpc r (\<lambda>p. p\<lparr>crp_timeout_ts := v, crp_epi := Some e, crp_refcount := crp_refcount p + 1\<rparr>)
      (w\<lparr>tick := tick w + 1\<rparr>)"
  have a: "RPC_ADDREF r (upd_rpc r (\<lambda>p. p\<lparr>crp_epi := Some e\<rparr>) (crt_set_timeout r w)) = Some w1"
    using ref by (simp add: RPC_ADDREF_def v w1_def) (simp add: upd_rpc_def)
  have w1: "rpcs w1 = (rpcs w)(r := (rpc w r)\<lparr>crp_timeout_ts := v, crp_epi := Some e, crp_refcount := crp_refcount (rpc w r) + 1\<rparr>)"
    "epis w1 = epis w" "ctxs w1 = ctxs w" "cg_credit_ep_ctx w1 = cg_credit_ep_ctx w" "new_epi w1 = new_epi w" "ok w1 = ok w"
    by (simp_all add: w1_def upd_rpc_def)
  have ok1: "timeouts_ok c w1" by (rule timeouts_ok_frame [OF ok, of _ r]) (use w1 r in auto)
  have full: "ep_full w1 e = ep_full w e" by (simp add: ep_full_def w1)
  show thesis
  proof (cases "ep_full w e")
    case True
    let ?f = "enqueued CRT_REQ_TRACK_IN_WAITQ (coi_queue_front (crp_opc_info (rpc w r))) r"
    let ?w = "upd_rpc r (\<lambda>p. p\<lparr>crp_state := RPC_STATE_QUEUED, crp_ctx_tracked := True\<rparr>) (upd_ep e ?f w1)"
    have e: "track_enqueue r e w = Some (CRT_REQ_TRACK_IN_WAITQ, ?w)"
      using num True by (simp add: track_enqueue_def Let_def a) (simp add: ep_full_def w1 upd_rpc_def upd_ep_def enqueued_def [abs_def])
    show thesis
      by (rule that [OF e]) (use True r timeouts_ok_frame [OF ok, of ?w r]
        in \<open>auto simp: w1 enqueued_rpc_def track_rc_defs\<close>)
  next
    case False
    have p: "cr_ctx (rpc w1 r) = Some c" "\<not> crp_in_binheap (rpc w1 r)" "crp_refcount (rpc w1 r) \<noteq> 0"
      "crp_refcount (rpc w1 r) \<noteq> - 1"
      using r ref by (auto simp: w1 eq_neg_iff_add_eq_0 add.assoc)
    obtain rc h where t: "crt_req_timeout_track r w1 = Some (rc, track_outcome c r rc h w1)"
      "timeouts_ok c (track_outcome c r rc h w1)"
      "rc = DER_SUCCESS \<or> rc = DER_NOMEM"
      "(\<forall>k. ok w1 k) \<and> length (heap_nodes (theap w1 c)) < DBH_MAX \<longrightarrow> rc = DER_SUCCESS"
      by (rule track_exact [OF ok1 p]) rule
    show thesis
    proof (cases "rc = DER_SUCCESS")
      case True
      let ?f = "enqueued CRT_REQ_TRACK_IN_INFLIGHQ (coi_queue_front (crp_opc_info (rpc w r))) r"
      let ?w = "upd_rpc r (\<lambda>p. p\<lparr>crp_ctx_tracked := True\<rparr>) (upd_ep e ?f (track_outcome c r rc h w1))"
      have e: "track_enqueue r e w = Some (CRT_REQ_TRACK_IN_INFLIGHQ, ?w)"
        using num False t(1) True
        by (simp add: track_enqueue_def Let_def a) (simp add: ep_full_def w1 enqueued_def [abs_def] track_rc_defs)
      have okw: "timeouts_ok c ?w"
        by (rule timeouts_ok_cong [OF t(2)])
          (use timeouts_okD(4) [OF t(2)] ref(2,3) in \<open>auto simp: w1 add.assoc\<close>)
      show thesis
        by (rule that [OF e okw]) (use False True r in \<open>auto simp: w1 enqueued_rpc_def track_rc_defs\<close>)
    next
      case nok: False
      then have rc: "rc = DER_NOMEM" using t(3) by simp
      let ?w = "upd_rpc r (\<lambda>p. p\<lparr>crp_refcount := crp_refcount p - 1, crp_ctx_tracked := True\<rparr>) (track_outcome c r rc h w1)"
      have d: "RPC_DECREF r (track_outcome c r rc h w1)
          = Some (upd_rpc r (\<lambda>p. p\<lparr>crp_refcount := crp_refcount p - 1\<rparr>) (track_outcome c r rc h w1))"
        using ref by (simp add: RPC_DECREF_def rc w1)
      have e: "track_enqueue r e w = Some (DER_NOMEM, ?w)"
        using num False t(1) rc d
        by (simp add: track_enqueue_def Let_def a) (auto simp: ep_full_def w1 upd_rpc_def)
      have okw: "timeouts_ok c ?w"
        by (rule timeouts_ok_frame [OF t(2), of _ r]) (use p rc in auto)
      show thesis
        by (rule that [OF e okw])
          (use False r rc t(4) in \<open>auto simp: w1 enqueued_rpc_def track_rc_defs upd_epi_def enqueued_def\<close>)
    qed
  qed
qed

section \<open>The invariant of a context\<close>

text \<open>
  The numbers of a record count its queues; at most \<open>k\<close> requests are in flight, and requests wait
  only while all credits are used. \<open>k = 0\<close> is no flow control.
\<close>

definition counts_ok :: "int \<Rightarrow> crt_ep_inflight \<Rightarrow> bool" where
  "counts_ok k p \<longleftrightarrow>
     epi_req_num p - epi_reply_num p = int (length (epi_req_q p))
     \<and> epi_req_wait_num p = int (length (epi_req_waitq p))
     \<and> distinct (epi_req_q p @ epi_req_waitq p)
     \<and> (k = 0 \<longrightarrow> epi_req_waitq p = [])
     \<and> (k \<noteq> 0 \<longrightarrow> int (length (epi_req_q p)) \<le> k
          \<and> (epi_req_waitq p \<noteq> [] \<longrightarrow> int (length (epi_req_q p)) = k))"

text \<open>A request in a queue of record \<open>e\<close> of context \<open>c\<close> is referenced by the queue, and by the heap if it is there.\<close>

definition queued_ok :: "nat \<Rightarrow> nat \<Rightarrow> crt_rpc_priv \<Rightarrow> bool" where
  "queued_ok c e p \<longleftrightarrow> cr_ctx p = Some c \<and> crp_epi p = Some e \<and> crp_ctx_tracked p
     \<and> cr_opc p \<noteq> CRT_OPC_URI_LOOKUP
     \<and> crp_refcount p \<noteq> 0 \<and> (crp_in_binheap p \<longrightarrow> crp_refcount p \<noteq> 1)"

definition flow_ok :: "nat \<Rightarrow> nat \<Rightarrow> crt_world \<Rightarrow> bool" where
  "flow_ok c e w \<longleftrightarrow> counts_ok (uint (cg_credit_ep_ctx w)) (ep w e)
     \<and> (\<forall>r \<in> set (epi_req_q (ep w e) @ epi_req_waitq (ep w e)). queued_ok c e (rpc w r))
     \<and> (\<forall>r \<in> set (epi_req_waitq (ep w e)). crp_state (rpc w r) = RPC_STATE_QUEUED \<and> \<not> crp_in_binheap (rpc w r))"

definition ctx_inv :: "nat \<Rightarrow> crt_world \<Rightarrow> bool" where
  "ctx_inv c w \<longleftrightarrow> timeouts_ok c w \<and> epit.table_ok (etable w c) (epis w)
     \<and> (\<forall>e \<in> epit.links (etable w c). e < new_epi w \<and> epi_ctx (ep w e) = c \<and> epi_initialized (ep w e) \<and> flow_ok c e w)"

text \<open>Between operations the only reference to a record is the one of the table.\<close>

definition ctx_ok :: "nat \<Rightarrow> crt_world \<Rightarrow> bool" where
  "ctx_ok c w \<longleftrightarrow> ctx_inv c w \<and> (\<forall>e \<in> epit.links (etable w c). epi_ref (ep w e) = 1)"

text \<open>The record of a rank, and the two queues of a rank, empty if the rank has no record.\<close>

abbreviation "epi_of c w k \<equiv> epit.table_map (etable w c) (epis w) k"

definition flows :: "nat \<Rightarrow> crt_world \<Rightarrow> d_rank_t \<Rightarrow> nat list \<times> nat list" where
  "flows c w k = (case epi_of c w k of None \<Rightarrow> ([], []) | Some e \<Rightarrow> (epi_req_q (ep w e), epi_req_waitq (ep w e)))"

lemma epi_of_iff:
  "ctx_inv c w \<Longrightarrow> epi_of c w k = Some e \<longleftrightarrow> e \<in> epit.links (etable w c) \<and> epi_rank (ep w e) = k"
  by (rule epit.table_map_Some) (simp add: ctx_inv_def epit.table_ok_def)

section \<open>The record of an endpoint\<close>

lemma epi_find:
  assumes "epit.table_ok t m"
  shows "d_hash_rec_find t m k 4 = Some (epit.table_map t m k,
    case epit.table_map t m k of None \<Rightarrow> m | Some e \<Rightarrow> upd_epi e (\<lambda>p. p\<lparr>epi_ref := epi_ref p + 1\<rparr>) m)"
proof -
  have o: "ht_ops t = Some epi_table_ops" using assms by (simp add: epit.table_ok_def)
  show ?thesis
    by (simp add: d_hash_rec_find_def epit.key_hash [OF o] epit.rec_find_exact [OF assms] ch_rec_addref_def o
        epi_table_ops_def epi_op_rec_addref_def split: option.split)
qed

lemma epi_decref:
  assumes "ht_ops t = Some epi_table_ops" "epi_ref (epi_at m e) \<noteq> 1"
  shows "d_hash_rec_decref t m e = Some (t, upd_epi e (\<lambda>p. p\<lparr>epi_ref := epi_ref p - 1\<rparr>) m)"
  using assms
  by (simp add: d_hash_rec_decref_def ch_rec_decref_def epi_table_ops_def epi_op_rec_decref_def Let_def upd_epi_def
      drop_zombie_def free_if_zombie_def)

lemma epi_insert_mem:
  assumes "d_hash_rec_insert t m k ks e ex = Some (DER_SUCCESS, t', m')" "ht_ops t = Some epi_table_ops"
    and "\<not> ephemeral t"
  shows "m' = upd_epi e (\<lambda>p. p\<lparr>epi_ref := epi_ref p + 1\<rparr>) m"
  using assms
  by (auto simp: d_hash_rec_insert_def ch_rec_insert_addref_def bind_eq_Some_conv ch_rec_addref_def
      epi_table_ops_def epi_op_rec_addref_def Let_def split: if_splits)

lemma timeouts_ok_same: "timeouts_ok c w \<Longrightarrow> theap w' c = theap w c \<Longrightarrow> rpcs w' = rpcs w \<Longrightarrow> timeouts_ok c w'"
  by (simp add: timeouts_ok_def)

lemma flow_ok_same:
  assumes "flow_ok c e w" "rpcs w' = rpcs w" "cg_credit_ep_ctx w' = cg_credit_ep_ctx w"
    and "ep w' e = (ep w e)\<lparr>epi_ref := n\<rparr>"
  shows "flow_ok c e w'"
  using assms by (simp add: flow_ok_def counts_ok_def)

lemma ctx_invD:
  assumes "ctx_inv c w"
  shows "timeouts_ok c w" "epit.table_ok (etable w c) (epis w)" "ht_ops (etable w c) = Some epi_table_ops"
    "\<not> ephemeral (etable w c)"
    "e \<in> epit.links (etable w c) \<Longrightarrow> e < new_epi w \<and> epi_ctx (ep w e) = c \<and> epi_initialized (ep w e) \<and> flow_ok c e w"
  using assms by (simp_all add: ctx_inv_def epit.table_ok_def)

text \<open>The record \<open>e\<close> exists and is referenced once more.\<close>

lemma get_epi_found:
  assumes ok: "ctx_ok c w" and e: "epi_of c w k = Some e"
  defines "w' \<equiv> upd_ep e (\<lambda>p. p\<lparr>epi_ref := epi_ref p + 1\<rparr>) w"
  shows "track_get_epi env c k w = Some (Inr e, w')" "ctx_inv c w'" "epi_of c w' = epi_of c w" "flows c w' = flows c w"
proof -
  have inv: "ctx_inv c w" and l: "e \<in> epit.links (etable w c)" using ok e epi_of_iff [of c w] by (auto simp: ctx_ok_def)
  note t = ctx_invD [OF inv]
  have r: "epi_ref (ep w e) = 1" using ok l by (auto simp: ctx_ok_def)
  have w': "w\<lparr>epis := upd_epi e (\<lambda>p. p\<lparr>epi_ref := epi_ref p + 1\<rparr>) (epis w)\<rparr> = w'" by (simp add: w'_def upd_ep_def)
  show "track_get_epi env c k w = Some (Inr e, w')"
    using t(5) [OF l] by (simp add: track_get_epi_def epi_find [OF t(2)] e w' Let_def) (simp add: w'_def upd_epi_def)
  have tab: "epit.table_ok (etable w' c) (epis w')" and m: "epi_of c w' = epi_of c w"
    using epit.table_ok_cong [OF t(2), of "epis w'"] t(2) r by (auto simp: w'_def upd_epi_def epit.table_ok_def)
  show "epi_of c w' = epi_of c w" by (fact m)
  have f: "flow_ok c x w'" if "x \<in> epit.links (etable w c)" for x
    by (rule flow_ok_same [of c x w w' "if x = e then 2 else epi_ref (ep w x)"])
      (use t(5) [OF that] r in \<open>auto simp: w'_def upd_epi_def\<close>)
  have "timeouts_ok c w'" by (rule timeouts_ok_same [OF t(1)]) (simp_all add: w'_def)
  then show "ctx_inv c w'"
    using tab f t(5) by (auto simp: ctx_inv_def) (auto simp: w'_def upd_epi_def)
  show "flows c w' = flows c w"
    by (rule ext, simp add: flows_def m) (auto simp: w'_def upd_epi_def split: option.split)
qed

text \<open>There is no record; \<open>w\<^sub>1\<close> is the state with a new one in memory, not yet in the table.\<close>

lemma ctx_ok_new_ep:
  fixes k :: d_rank_t and n :: nat
  assumes ok: "ctx_ok c w"
  defines "w1 \<equiv> upd_ep (new_epi w) (\<lambda>_. new_ep k c) (w\<lparr>nalloc := n, new_epi := new_epi w + 1\<rparr>)"
  shows "ctx_ok c w1" "epi_of c w1 = epi_of c w" "flows c w1 = flows c w" "new_epi w \<notin> epit.links (etable w1 c)"
proof -
  have inv: "ctx_inv c w" using ok by (simp add: ctx_ok_def)
  note t = ctx_invD [OF inv]
  have fresh: "x \<noteq> new_epi w" if "x \<in> epit.links (etable w c)" for x using t(5) [OF that] by auto
  show "new_epi w \<notin> epit.links (etable w1 c)" using fresh by (auto simp: w1_def)
  have e: "ep w1 x = ep w x" if "x \<in> epit.links (etable w c)" for x
    using fresh [OF that] by (simp add: w1_def upd_epi_def)
  have tab: "epit.table_ok (etable w1 c) (epis w1)" and m: "epi_of c w1 = epi_of c w"
    using epit.table_ok_cong [OF t(2), of "epis w1"] t(2) e by (auto simp: w1_def epit.table_ok_def)
  show "epi_of c w1 = epi_of c w" by (fact m)
  have f: "flow_ok c x w1" if "x \<in> epit.links (etable w c)" for x
    using t(5) [OF that] e [OF that] by (simp add: flow_ok_def) (simp add: w1_def)
  have th: "timeouts_ok c w1" by (rule timeouts_ok_same [OF t(1)]) (simp_all add: w1_def)
  have eq: "etable w1 c = etable w c" "new_epi w1 = new_epi w + 1" by (simp_all add: w1_def)
  have "x < new_epi w1 \<and> epi_ctx (ep w1 x) = c \<and> epi_initialized (ep w1 x) \<and> flow_ok c x w1 \<and> epi_ref (ep w1 x) = 1"
    if "x \<in> epit.links (etable w c)" for x
    using t(5) [OF that] f [OF that] e [OF that] ok that by (simp add: eq ctx_ok_def)
  then show "ctx_ok c w1" using th tab by (simp add: ctx_ok_def ctx_inv_def eq)
  show "flows c w1 = flows c w"
  proof
    fix q
    have "ep w1 x = ep w x" if "epi_of c w q = Some x" for x using e that epi_of_iff [OF inv] by auto
    then show "flows c w1 q = flows c w q" by (auto simp: flows_def m split: option.split)
  qed
qed

text \<open>A record in memory that is not in the table can be anything.\<close>

lemma ctx_ok_free_ep:
  assumes "ctx_ok c w"
  shows "ctx_ok c (free_ep e w)" "flows c (free_ep e w) = flows c w"
proof -
  have t: "epit.table_ok (etable w c) (epis w)" using assms by (simp add: ctx_ok_def ctx_inv_def)
  have m: "epit.table_ok (etable w c) ((epis w)\<lparr>epi_freed := e # epi_freed (epis w)\<rparr>)"
    "epit.table_map (etable w c) ((epis w)\<lparr>epi_freed := e # epi_freed (epis w)\<rparr>) = epi_of c w"
    using epit.table_ok_cong [OF t, of "(epis w)\<lparr>epi_freed := e # epi_freed (epis w)\<rparr>"] t by (auto simp: epit.table_ok_def)
  show "ctx_ok c (free_ep e w)"
    using assms m(1) by (simp add: ctx_ok_def ctx_inv_def free_ep_def timeouts_ok_def flow_ok_def)
  show "flows c (free_ep e w) = flows c w" 
    using m(2) by (intro ext) (auto simp: flows_def free_ep_def split: option.split)
qed

lemma get_epi_insert:
  assumes ok: "ctx_ok c w" and e: "epi_of c w k = None" and al: "ok w (nalloc w)" and mu: "mutex_rc env = DER_SUCCESS"
  obtains w' where "track_get_epi env c k w = Some (Inr (new_epi w), w')" "ctx_inv c w'"
    "epi_of c w' k = Some (new_epi w)" "flows c w' = flows c w" "rpcs w' = rpcs w" "theap w' c = theap w c"
    "cg_credit_ep_ctx w' = cg_credit_ep_ctx w" "ok w' = ok w"
    "\<forall>x \<in> epit.links (etable w' c). epi_ref (ep w' x) = (if x = new_epi w then 2 else 1)"
proof -
  let ?e = "new_epi w"
  define w1 where "w1 = upd_ep ?e (\<lambda>_. new_ep k c) (w\<lparr>nalloc := nalloc w + 1, new_epi := new_epi w + 1\<rparr>)"
  note n = ctx_ok_new_ep [OF ok, of k "nalloc w + 1", folded w1_def]
  have inv: "ctx_inv c w1" using n(1) by (simp add: ctx_ok_def)
  note t = ctx_invD [OF inv]
  have r: "epi_rank (ep w1 ?e) = k" "epi_ref (ep w1 ?e) = 1" "ep w1 ?e = new_ep k c" by (simp_all add: w1_def upd_epi_def new_ep_def)
  have none: "epi_of c w1 (epi_rank (ep w1 ?e)) = None" using n(2) e r(1) by simp
  have nm: "epi_ref (ep w1 ?e) \<noteq> - 1" using r(2) by simp
  obtain t' m' where i: "d_hash_rec_insert (etable w1 c) (epis w1) (epi_rank (ep w1 ?e)) 4 ?e True = Some (DER_SUCCESS, t', m')"
    "epit.table_ok t' m'" "epit.links t' = insert ?e (epit.links (etable w1 c))"
    "epit.table_map t' m' = (epi_of c w1)(epi_rank (ep w1 ?e) \<mapsto> ?e)"
    using epit.insert_exact [OF t(2) n(4) nm none, of True] by blast
  have m': "m' = upd_epi ?e (\<lambda>p. p\<lparr>epi_ref := epi_ref p + 1\<rparr>) (epis w1)" by (rule epi_insert_mem [OF i(1) t(3,4)])
  define w' where "w' = upd_ctx c (\<lambda>x. x\<lparr>cc_epi_table := t'\<rparr>) (w1\<lparr>epis := m'\<rparr>)"
  have old: "epi_of c w k = None" by (fact e)
  have g: "track_get_epi env c k w = Some (Inr ?e, w')"
    using i(1) r(1) al mu ctx_invD(2) [of c w] ok
    by (simp add: track_get_epi_def epi_find e track_new_epi_def alloc1_def Let_def ctx_ok_def)
      (simp add: w'_def w1_def upd_ep_def)
  have p: "rpcs w' = rpcs w" "theap w' c = theap w c" "cg_credit_ep_ctx w' = cg_credit_ep_ctx w" "ok w' = ok w"
    "etable w' c = t'" "epis w' = m'" "new_epi w' = new_epi w + 1"
    by (simp_all add: w'_def w1_def upd_ctx_def) (simp_all add: upd_ep_def)
  have epx: "ep w' x = (if x = ?e then (new_ep k c)\<lparr>epi_ref := 2\<rparr> else ep w1 x)" for x
    by (simp add: p m' upd_epi_def r(3) [symmetric] r(2))
  have q: "rpcs w1 = rpcs w" "cg_credit_ep_ctx w1 = cg_credit_ep_ctx w" "theap w1 c = theap w c" "new_epi w1 = new_epi w + 1"
    by (simp_all add: w1_def)
  have fe: "flow_ok c ?e w'" by (simp add: flow_ok_def epx counts_ok_def new_ep_def)
  have fx: "flow_ok c x w'" if "x \<in> epit.links (etable w1 c)" for x
    using t(5) [OF that] n(4) that by (auto simp: flow_ok_def epx p(1,3) q)
  have th: "timeouts_ok c w'" by (rule timeouts_ok_same [OF t(1)]) (simp_all add: p q)
  have inv': "ctx_inv c w'"
    using th i(2,3) fe fx t(5) n(4) by (auto simp: ctx_inv_def p(5-7) q(4)) (auto simp: p(6) [symmetric] epx new_ep_def less_Suc_eq)
  have of': "epi_of c w' = (epi_of c w)(k \<mapsto> ?e)" using i(4) n(2) r(1) by (auto simp: p fun_eq_iff)
  have fl: "flows c w' = flows c w"
  proof
    fix y
    show "flows c w' y = flows c w y"
    proof (cases "y = k")
      case True
      then show ?thesis by (simp add: flows_def of' e epx new_ep_def)
    next
      case False
      have "ep w' x = ep w1 x" if "epi_of c w1 y = Some x" for x
        using that n(4) epi_of_iff [OF inv] by (auto simp: epx)
      then show ?thesis using False fun_cong [OF n(3), of y] n(2) by (auto simp: flows_def of' split: option.splits)
    qed
  qed
  have rf: "\<forall>x \<in> epit.links (etable w' c). epi_ref (ep w' x) = (if x = ?e then 2 else 1)"
    using i(3) n(1) by (auto simp: epx p(5) ctx_ok_def)
  show thesis by (rule that [OF g inv' _ fl p(1-4) rf]) (simp add: of')
qed

section \<open>Tracking implements the queues\<close>

text \<open>
  The specification of flow control: the requests in flight and the waiting ones of one rank, with
  \<open>k\<close> credits (0 for no limit).
\<close>

definition no_credit :: "int \<Rightarrow> nat list \<times> nat list \<Rightarrow> bool" where
  "no_credit k f \<longleftrightarrow> k \<noteq> 0 \<and> k \<le> int (length (fst f))"

definition flow_track :: "int \<Rightarrow> bool \<Rightarrow> nat \<Rightarrow> nat list \<times> nat list \<Rightarrow> nat list \<times> nat list" where
  "flow_track k front r f =
     (if no_credit k f then (fst f, if front then r # snd f else snd f @ [r]) else (fst f @ [r], snd f))"

lemma flow_ok_queued: "flow_ok c e w \<Longrightarrow> r \<in> set (epi_req_q (ep w e) @ epi_req_waitq (ep w e)) \<Longrightarrow> queued_ok c e (rpc w r)"
  by (simp add: flow_ok_def)

text \<open>The queues of another record do not hold \<open>r\<close>, and only \<open>r\<close> changes.\<close>

lemma flow_ok_other:
  assumes "flow_ok c x w" "ep w' x = ep w x" "\<And>q. q \<noteq> r \<Longrightarrow> rpc w' q = rpc w q"
    and "\<not> queued_ok c x (rpc w r)" "cg_credit_ep_ctx w' = cg_credit_ep_ctx w"
  shows "flow_ok c x w'"
proof -
  have "rpc w' q = rpc w q" if "q \<in> set (epi_req_q (ep w x) @ epi_req_waitq (ep w x))" for q
    using that assms(3,4) flow_ok_queued [OF assms(1)] by metis
  then show ?thesis using assms(1) by (auto simp: flow_ok_def assms(2,5))
qed

lemma flow_ok_enqueue:
  assumes f: "flow_ok c e w" and n: "\<not> queued_ok c e (rpc w r)"
    and w': "\<And>q. q \<noteq> r \<Longrightarrow> rpc w' q = rpc w q" "enqueued_rpc rc e (rpc w r) (rpc w' r)"
      "ep w' e = (enqueued rc front r (ep w e))\<lparr>epi_ref := m\<rparr>" "cg_credit_ep_ctx w' = cg_credit_ep_ctx w"
    and rc: "rc = CRT_REQ_TRACK_IN_WAITQ \<longleftrightarrow> ep_full w e"
    and p: "cr_ctx (rpc w r) = Some c" "cr_opc (rpc w r) \<noteq> CRT_OPC_URI_LOOKUP" "crp_refcount (rpc w r) \<noteq> 0"
      "crp_refcount (rpc w r) + 1 \<noteq> 0" "crp_refcount (rpc w r) + 2 \<noteq> 0"
  shows "flow_ok c e w'"
proof -
  let ?q = "epi_req_q (ep w e)" and ?wq = "epi_req_waitq (ep w e)" and ?k = "uint (cg_credit_ep_ctx w)"
  have r: "r \<notin> set (?q @ ?wq)" using flow_ok_queued [OF f] n by blast
  have same: "rpc w' q = rpc w q" if "q \<in> set (?q @ ?wq)" for q using that r w'(1) by metis
  have c: "counts_ok ?k (ep w e)" using f by (simp add: flow_ok_def)
  have k0: "?k = 0 \<longleftrightarrow> cg_credit_ep_ctx w = 0" by (rule uint_0_iff)
  have full: "ep_full w e \<longleftrightarrow> ?k \<noteq> 0 \<and> ?k \<le> int (length ?q)" using c by (auto simp: ep_full_def counts_ok_def k0)
  have cnt: "counts_ok ?k (ep w' e)"
    using c r rc full by (auto simp: counts_ok_def w'(3) enqueued_def track_rc_defs)
  have q: "queued_ok c e (rpc w' r)" if "rc = CRT_REQ_TRACK_IN_WAITQ \<or> rc = CRT_REQ_TRACK_IN_INFLIGHQ"
    using w'(2) that p by (auto simp: queued_ok_def enqueued_rpc_def track_rc_defs add.commute)
  have st: "crp_state (rpc w' r) = RPC_STATE_QUEUED \<and> \<not> crp_in_binheap (rpc w' r)" if "rc = CRT_REQ_TRACK_IN_WAITQ"
    using w'(2) that by (simp add: enqueued_rpc_def track_rc_defs)
  show ?thesis
    using f cnt q st same by (auto simp: flow_ok_def w'(3,4) enqueued_def split: if_splits)
qed

text \<open>The second half of \<open>crt_context_req_track\<close>, from a record that is referenced twice.\<close>

lemma track_tail:
  assumes inv: "ctx_inv c w" and e: "epi_of c w k = Some e"
    and refs: "\<And>x. x \<in> epit.links (etable w c) \<Longrightarrow> epi_ref (ep w x) = (if x = e then 2 else 1)"
    and p: "cr_ctx (rpc w r) = Some c" "cr_opc (rpc w r) \<noteq> CRT_OPC_URI_LOOKUP" "\<not> crp_ctx_tracked (rpc w r)"
      "\<not> crp_in_binheap (rpc w r)"
    and ref: "crp_refcount (rpc w r) \<noteq> 0" "crp_refcount (rpc w r) + 1 \<noteq> 0" "crp_refcount (rpc w r) + 2 \<noteq> 0"
  obtains rc w2 w' where "track_enqueue r e w = Some (rc, w2)"
    "map_option (\<lambda>(t, m). (rc, upd_ctx c (\<lambda>x. x\<lparr>cc_epi_table := t\<rparr>) (w2\<lparr>epis := m\<rparr>)))
       (d_hash_rec_decref (etable w2 c) (epis w2) e) = Some (rc, w')"
    "ctx_ok c w'" "\<forall>q. q \<noteq> r \<longrightarrow> rpc w' q = rpc w q" "enqueued_rpc rc e (rpc w r) (rpc w' r)"
    "rc = CRT_REQ_TRACK_IN_WAITQ \<longleftrightarrow> no_credit (uint (cg_credit_ep_ctx w)) (flows c w k)"
    "rc \<in> {CRT_REQ_TRACK_IN_WAITQ, CRT_REQ_TRACK_IN_INFLIGHQ, DER_NOMEM}"
    "flows c w' = (if rc = DER_NOMEM then flows c w
       else (flows c w)(k := flow_track (uint (cg_credit_ep_ctx w)) (coi_queue_front (crp_opc_info (rpc w r))) r (flows c w k)))"
    "(\<forall>k. ok w k) \<and> length (heap_nodes (theap w c)) < DBH_MAX \<longrightarrow> rc \<noteq> DER_NOMEM"
proof -
  note t = ctx_invD [OF inv]
  have l: "e \<in> epit.links (etable w c)" and k: "epi_rank (ep w e) = k" using e epi_of_iff [OF inv] by auto
  have f: "flow_ok c e w" using t(5) [OF l] by simp
  have nq: "\<not> queued_ok c x (rpc w r)" for x using p(3) by (simp add: queued_ok_def)
  have num: "epi_reply_num (ep w e) \<le> epi_req_num (ep w e)" using f by (simp add: flow_ok_def counts_ok_def)
  obtain rc w2 where en: "track_enqueue r e w = Some (rc, w2)" "timeouts_ok c w2"
    "\<forall>q. q \<noteq> r \<longrightarrow> rpc w2 q = rpc w q" "enqueued_rpc rc e (rpc w r) (rpc w2 r)"
    "epis w2 = upd_epi e (enqueued rc (coi_queue_front (crp_opc_info (rpc w r))) r) (epis w)"
    "etable w2 c = etable w c" "cg_credit_ep_ctx w2 = cg_credit_ep_ctx w" "new_epi w2 = new_epi w"
    "rc = CRT_REQ_TRACK_IN_WAITQ \<longleftrightarrow> ep_full w e"
    "rc \<in> {CRT_REQ_TRACK_IN_WAITQ, CRT_REQ_TRACK_IN_INFLIGHQ, DER_NOMEM}"
    "(\<forall>k. ok w k) \<and> length (heap_nodes (theap w c)) < DBH_MAX \<longrightarrow> rc \<noteq> DER_NOMEM"
    by (rule enqueue_exact [OF t(1) p(1,4) ref num])
  let ?g = "enqueued rc (coi_queue_front (crp_opc_info (rpc w r))) r"
  have g: "epi_ref (?g y) = epi_ref y" "epi_rank (?g y) = epi_rank y" "epi_ctx (?g y) = epi_ctx y"
    "epi_initialized (?g y) = epi_initialized y" for y by (simp_all add: enqueued_def)
  have r2: "epi_ref (ep w2 e) = 2" using refs [OF l] by (simp add: en(5) upd_epi_def g)
  have d: "d_hash_rec_decref (etable w2 c) (epis w2) e = Some (etable w2 c, upd_epi e (\<lambda>p. p\<lparr>epi_ref := epi_ref p - 1\<rparr>) (epis w2))"
    by (rule epi_decref) (use t(3) r2 en(6) in simp_all)
  define w' where "w' = upd_ctx c (\<lambda>x. x\<lparr>cc_epi_table := etable w2 c\<rparr>) (w2\<lparr>epis := upd_epi e (\<lambda>p. p\<lparr>epi_ref := epi_ref p - 1\<rparr>) (epis w2)\<rparr>)"
  have w': "rpcs w' = rpcs w2" "theap w' c = theap w2 c" "etable w' c = etable w c" "cg_credit_ep_ctx w' = cg_credit_ep_ctx w"
    "new_epi w' = new_epi w"
    by (simp_all add: w'_def upd_ctx_def en(6-8))
  have epx: "ep w' x = (if x = e then (?g (ep w e))\<lparr>epi_ref := 1\<rparr> else ep w x)" for x
    using r2 by (simp add: w'_def upd_ctx_def upd_epi_def en(5))
  have refs1: "epi_ref (ep w' x) = 1" if "x \<in> epit.links (etable w c)" for x using refs [OF that] by (simp add: epx)
  have key: "epi_rank (ep w' x) = epi_rank (ep w x)" for x by (simp add: epx g)
  have tab: "epit.table_ok (etable w c) (epis w')" "epit.table_map (etable w c) (epis w') = epi_of c w"
    using epit.table_ok_cong [OF t(2), of "epis w'"] key refs1 by auto
  have fl: "flow_ok c x w'" if "x \<in> epit.links (etable w c)" for x
  proof (cases "x = e")
    case True
    have "flow_ok c e w'"
      by (rule flow_ok_enqueue [OF f nq, where rc = rc and front = "coi_queue_front (crp_opc_info (rpc w r))" and m = 1])
        (use en p(1,2) ref w' epx in auto)
    then show ?thesis using True by simp
  next
    case False
    show ?thesis
      by (rule flow_ok_other [OF _ _ _ nq]) (use t(5) [OF that] False en(3) w' epx in auto)
  qed
  have ok': "ctx_ok c w'"
  proof -
    have "x < new_epi w \<and> epi_ctx (ep w' x) = c \<and> epi_initialized (ep w' x)" if "x \<in> epit.links (etable w c)" for x
      using t(5) [OF that] by (auto simp: epx g)
    then show ?thesis
      using timeouts_ok_same [OF en(2), of w'] tab fl refs1 w' by (simp add: ctx_ok_def ctx_inv_def)
  qed
  have fq: "flows c w k = (epi_req_q (ep w e), epi_req_waitq (ep w e))" by (simp add: flows_def e)
  have nc: "rc = CRT_REQ_TRACK_IN_WAITQ \<longleftrightarrow> no_credit (uint (cg_credit_ep_ctx w)) (flows c w k)"
    using f en(9) by (auto simp: fq no_credit_def ep_full_def flow_ok_def counts_ok_def uint_0_iff)
  have "flows c w' = (flows c w)(k := (epi_req_q (?g (ep w e)), epi_req_waitq (?g (ep w e))))"
  proof
    fix y
    have "ep w' x = ep w x" if "epi_of c w y = Some x" "y \<noteq> k" for x
      using that epi_of_iff [OF inv] k by (auto simp: epx)
    then show "flows c w' y = ((flows c w)(k := (epi_req_q (?g (ep w e)), epi_req_waitq (?g (ep w e))))) y"
      by (auto simp: flows_def w'(3) tab(2) e epx split: option.split)
  qed
  then have fw: "flows c w' = (if rc = DER_NOMEM then flows c w
       else (flows c w)(k := flow_track (uint (cg_credit_ep_ctx w)) (coi_queue_front (crp_opc_info (rpc w r))) r (flows c w k)))"
    using nc en(10) fq by (auto simp: flow_track_def enqueued_def track_rc_defs fun_eq_iff)
  show thesis
    by (rule that [OF en(1) _ ok' _ _ nc en(10) fw en(11)]) (use d en(3,4) w' in \<open>auto simp: w'_def\<close>)
qed

lemma track_exact_flows:
  fixes env :: crt_env
  assumes ok: "ctx_ok c w"
    and p: "cr_ctx (rpc w r) = Some c" "cr_opc (rpc w r) \<noteq> CRT_OPC_URI_LOOKUP" "\<not> crp_ctx_tracked (rpc w r)"
      "\<not> crp_in_binheap (rpc w r)"
    and ref: "crp_refcount (rpc w r) \<noteq> 0" "crp_refcount (rpc w r) + 1 \<noteq> 0" "crp_refcount (rpc w r) + 2 \<noteq> 0"
    and mu: "mutex_rc env \<noteq> CRT_REQ_TRACK_IN_WAITQ"
  defines "k \<equiv> primary_rank env (rpc w r)" and "cr \<equiv> uint (cg_credit_ep_ctx w)"
  obtains rc w' where "crt_context_req_track env r w = Some (rc, w')" "ctx_ok c w'"
    "\<forall>q. q \<noteq> r \<longrightarrow> rpc w' q = rpc w q"
    "rc = CRT_REQ_TRACK_IN_WAITQ \<longrightarrow> no_credit cr (flows c w k)"
    "rc = CRT_REQ_TRACK_IN_INFLIGHQ \<longrightarrow> \<not> no_credit cr (flows c w k)"
    "rc \<in> {CRT_REQ_TRACK_IN_WAITQ, CRT_REQ_TRACK_IN_INFLIGHQ, DER_NOMEM, mutex_rc env}"
    "flows c w' = (if rc \<in> {CRT_REQ_TRACK_IN_WAITQ, CRT_REQ_TRACK_IN_INFLIGHQ}
       then (flows c w)(k := flow_track cr (coi_queue_front (crp_opc_info (rpc w r))) r (flows c w k)) else flows c w)"
    "crp_in_binheap (rpc w' r) \<longleftrightarrow> rc = CRT_REQ_TRACK_IN_INFLIGHQ"
    "rc = CRT_REQ_TRACK_IN_WAITQ \<longrightarrow> crp_state (rpc w' r) = RPC_STATE_QUEUED"
    "(\<forall>k. ok w k) \<and> length (heap_nodes (theap w c)) < DBH_MAX \<and> mutex_rc env = DER_SUCCESS
       \<longrightarrow> rc \<in> {CRT_REQ_TRACK_IN_WAITQ, CRT_REQ_TRACK_IN_INFLIGHQ}"
proof -
  note fin = that
  have inv: "ctx_inv c w" using ok by (simp add: ctx_ok_def)
  have go: thesis
    if g: "track_get_epi env c k w = Some (Inr e, w1)" "ctx_inv c w1" "epi_of c w1 k = Some e" "flows c w1 = flows c w"
      "rpcs w1 = rpcs w" "theap w1 c = theap w c" "cg_credit_ep_ctx w1 = cg_credit_ep_ctx w" "ok w1 = ok w"
      "\<forall>x \<in> epit.links (etable w1 c). epi_ref (ep w1 x) = (if x = e then 2 else 1)" for e w1
  proof -
    have rf: "epi_ref (ep w1 x) = (if x = e then 2 else 1)" if "x \<in> epit.links (etable w1 c)" for x using that g(9) by blast
    have pr: "cr_ctx (rpc w1 r) = Some c" "cr_opc (rpc w1 r) \<noteq> CRT_OPC_URI_LOOKUP" "\<not> crp_ctx_tracked (rpc w1 r)"
      "\<not> crp_in_binheap (rpc w1 r)" "crp_refcount (rpc w1 r) \<noteq> 0" "crp_refcount (rpc w1 r) + 1 \<noteq> 0"
      "crp_refcount (rpc w1 r) + 2 \<noteq> 0"
      using p ref by (simp_all add: g(5))
    obtain rc w2 w' where t: "track_enqueue r e w1 = Some (rc, w2)"
      "map_option (\<lambda>(t, m). (rc, upd_ctx c (\<lambda>x. x\<lparr>cc_epi_table := t\<rparr>) (w2\<lparr>epis := m\<rparr>)))
         (d_hash_rec_decref (etable w2 c) (epis w2) e) = Some (rc, w')"
      "ctx_ok c w'" "\<forall>q. q \<noteq> r \<longrightarrow> rpc w' q = rpc w1 q" "enqueued_rpc rc e (rpc w1 r) (rpc w' r)"
      "rc = CRT_REQ_TRACK_IN_WAITQ \<longleftrightarrow> no_credit (uint (cg_credit_ep_ctx w1)) (flows c w1 k)"
      "rc \<in> {CRT_REQ_TRACK_IN_WAITQ, CRT_REQ_TRACK_IN_INFLIGHQ, DER_NOMEM}"
      "flows c w' = (if rc = DER_NOMEM then flows c w1
         else (flows c w1)(k := flow_track (uint (cg_credit_ep_ctx w1)) (coi_queue_front (crp_opc_info (rpc w1 r))) r (flows c w1 k)))"
      "(\<forall>k. ok w1 k) \<and> length (heap_nodes (theap w1 c)) < DBH_MAX \<longrightarrow> rc \<noteq> DER_NOMEM"
      by (rule track_tail [OF g(2,3) rf pr])
    have eq: "crt_context_req_track env r w = Some (rc, w')"
      using g(1) p t(1,2) by (simp add: crt_context_req_track_def k_def)
    show thesis
      by (rule fin [OF eq t(3)]) (use t(4-9) g in \<open>auto simp: cr_def enqueued_rpc_def track_rc_defs\<close>)
  qed
  show thesis
  proof (cases "epi_of c w k")
    case (Some e)
    note f = get_epi_found [OF ok Some]
    have "e \<in> epit.links (etable w c)" using Some epi_of_iff [OF inv] by simp
    then show thesis
      by (intro go [OF f(1,2) _ f(4)]) (use Some f(3) ok in \<open>auto simp: upd_ep_def upd_epi_def ctx_ok_def\<close>)
  next
    case None
    note n = ctx_ok_new_ep [OF ok, of k "nalloc w + 1"] and find = epi_find [OF ctx_invD(2) [OF inv]]
    show thesis
    proof (cases "ok w (nalloc w)")
      case False
      let ?w = "w\<lparr>nalloc := nalloc w + 1\<rparr>"
      have e: "crt_context_req_track env r w = Some (DER_NOMEM, ?w)"
        using False None p by (simp add: crt_context_req_track_def track_get_epi_def find k_def track_new_epi_def alloc1_def)
      have "ctx_ok c ?w" "flows c ?w = flows c w"
        using ok by (simp_all add: ctx_ok_def ctx_inv_def timeouts_ok_def flow_ok_def flows_def [abs_def] cong: option.case_cong)
      then show thesis by (intro fin [OF e]) (use p False in \<open>auto simp: track_rc_defs\<close>)
    next
      case al: True
      show thesis
      proof (cases "mutex_rc env = DER_SUCCESS")
        case True
        obtain w1 where "track_get_epi env c k w = Some (Inr (new_epi w), w1)" "ctx_inv c w1"
          "epi_of c w1 k = Some (new_epi w)" "flows c w1 = flows c w" "rpcs w1 = rpcs w" "theap w1 c = theap w c"
          "cg_credit_ep_ctx w1 = cg_credit_ep_ctx w" "ok w1 = ok w"
          "\<forall>x \<in> epit.links (etable w1 c). epi_ref (ep w1 x) = (if x = new_epi w then 2 else 1)"
          by (rule get_epi_insert [OF ok None al True])
        then show thesis by (rule go)
      next
        case False
        let ?w = "free_ep (new_epi w) (upd_ep (new_epi w) (\<lambda>_. new_ep k c) (w\<lparr>nalloc := nalloc w + 1, new_epi := new_epi w + 1\<rparr>))"
        have e: "crt_context_req_track env r w = Some (mutex_rc env, ?w)"
          using False None p al
          by (simp add: crt_context_req_track_def track_get_epi_def find k_def track_new_epi_def alloc1_def Let_def)
        have "rpcs ?w = rpcs w" by (simp add: free_ep_def)
        then show thesis
          using ctx_ok_free_ep [OF n(1), of "new_epi w"] n(3) False mu p
          by (intro fin [OF e]) (auto simp: track_rc_defs)
      qed
    qed
  qed
qed

section \<open>Untracking implements the queues\<close>

definition flow_untrack :: "nat \<Rightarrow> nat list \<times> nat list \<Rightarrow> nat list \<times> nat list" where
  "flow_untrack r f = (remove1 r (fst f) @ take 1 (snd f), drop 1 (snd f))"

text \<open>Taking a request out of the heap, whether it is there or not, and dropping the reference of the heap.\<close>

lemma untrack_heap:
  assumes ok: "timeouts_ok c w" and c: "cr_ctx (rpc w r) = Some c"
    and ref: "crp_refcount (rpc w r) \<noteq> 0" "crp_in_binheap (rpc w r) \<longrightarrow> crp_refcount (rpc w r) \<noteq> 1"
  obtains h v where
    "(if \<not> crt_req_timedout (rpc w r) then crt_req_timeout_untrack r w else Some w) =
       Some (with_heap c h (upd_rpc r (\<lambda>p. p\<lparr>crp_in_binheap := False, crp_refcount := v\<rparr>) w))"
    "timeouts_ok c (with_heap c h (upd_rpc r (\<lambda>p. p\<lparr>crp_in_binheap := False, crp_refcount := v\<rparr>) w))"
    "v = crp_refcount (rpc w r) - (if crp_in_binheap (rpc w r) then 1 else 0)" "v \<noteq> 0"
proof (cases "crp_in_binheap (rpc w r)")
  case True
  have r: "r \<in> tracked w c" using timeouts_okD(3) [OF ok] True c by simp
  obtain h where h: "crt_req_timeout_untrack r w =
       RPC_DECREF r (with_heap c h (upd_rpc r (\<lambda>p. p\<lparr>crp_in_binheap := False\<rparr>) w))"
    "binheap_inv (\<lambda>r. ts w r) h" "mset (heap_nodes h) = mset (heap_nodes (theap w c)) - {#r#}"
    by (rule untrack_exact [OF ok r]) rule
  let ?w = "with_heap c h (upd_rpc r (\<lambda>p. p\<lparr>crp_in_binheap := False, crp_refcount := crp_refcount (rpc w r) - 1\<rparr>) w)"
  have "RPC_DECREF r (with_heap c h (upd_rpc r (\<lambda>p. p\<lparr>crp_in_binheap := False\<rparr>) w)) = Some ?w"
    using ref True by (simp add: RPC_DECREF_def) (simp add: upd_rpc_def with_heap_def upd_ctx_def)
  moreover have "timeouts_ok c ?w"
    by (rule timeouts_ok_frame [OF timeouts_ok_remove(1) [OF ok h(2,3)], where r = r]) (auto simp: unmark_one)
  ultimately show thesis
    using True ref by (intro that [of h "crp_refcount (rpc w r) - 1"]) (simp_all add: crt_req_timedout_def h(1))
next
  case False
  then have e: "with_heap c (theap w c) (upd_rpc r (\<lambda>p. p\<lparr>crp_in_binheap := False, crp_refcount := crp_refcount (rpc w r)\<rparr>) w) = w"
    by (simp add: upd_rpc_def with_heap_def upd_ctx_def fun_upd_idem)
  show thesis
    by (rule that [of "theap w c" "crp_refcount (rpc w r)"])
      (use False ref ok e c in \<open>auto simp: crt_req_timeout_untrack_def\<close>)
qed

text \<open>The first waiting request moves to the queue of requests in flight.\<close>

definition promoted :: "nat \<Rightarrow> crt_ep_inflight \<Rightarrow> crt_ep_inflight" where
  "promoted t p = p\<lparr>epi_req_waitq := tl (epi_req_waitq p), epi_req_q := epi_req_q p @ [t],
     epi_req_wait_num := epi_req_wait_num p - 1, epi_req_num := epi_req_num p + 1\<rparr>"

definition promoted_rpc :: "crt_rpc_priv \<Rightarrow> crt_rpc_priv \<Rightarrow> bool" where
  "promoted_rpc p p' \<longleftrightarrow>
     cr_ctx p' = cr_ctx p \<and> cr_opc p' = cr_opc p \<and> crp_epi p' = crp_epi p \<and> crp_ctx_tracked p' = crp_ctx_tracked p
     \<and> crp_state p' = RPC_STATE_INITED
     \<and> crp_refcount p' = crp_refcount p + (if crp_in_binheap p' then 1 else 0)"

lemma waitq_loop_one:
  assumes ok: "timeouts_ok c w" and q: "epi_req_waitq (ep w e) = t # rest" "0 < epi_req_wait_num (ep w e)"
      "epi_reply_num (ep w e) \<le> epi_req_num (ep w e)"
    and t: "cr_ctx (rpc w t) = Some c" "\<not> crp_in_binheap (rpc w t)" "crp_refcount (rpc w t) \<noteq> 0" "crp_refcount (rpc w t) + 1 \<noteq> 0"
  obtains w' where "waitq_loop 1 e [] w = Some ([t], w')" "timeouts_ok c w'" "\<forall>q. q \<noteq> t \<longrightarrow> rpc w' q = rpc w q"
    "promoted_rpc (rpc w t) (rpc w' t)" "epis w' = upd_epi e (promoted t) (epis w)" "etable w' c = etable w c"
    "cg_credit_ep_ctx w' = cg_credit_ep_ctx w" "new_epi w' = new_epi w" "destroyed w' = destroyed w"
proof -
  obtain v where v: "crt_set_timeout t (upd_rpc t (\<lambda>p. p\<lparr>crp_state := RPC_STATE_INITED\<rparr>) w) =
      upd_rpc t (\<lambda>p. p\<lparr>crp_timeout_ts := v\<rparr>)
        ((upd_rpc t (\<lambda>p. p\<lparr>crp_state := RPC_STATE_INITED\<rparr>) w)
          \<lparr>tick := tick (upd_rpc t (\<lambda>p. p\<lparr>crp_state := RPC_STATE_INITED\<rparr>) w) + 1\<rparr>)"
    by (rule set_timeout_eq)
  define w1 where "w1 = crt_set_timeout t (upd_rpc t (\<lambda>p. p\<lparr>crp_state := RPC_STATE_INITED\<rparr>) w)"
  have w1: "rpcs w1 = (rpcs w)(t := (rpc w t)\<lparr>crp_state := RPC_STATE_INITED, crp_timeout_ts := v\<rparr>)"
    "epis w1 = epis w" "ctxs w1 = ctxs w" "cg_credit_ep_ctx w1 = cg_credit_ep_ctx w" "new_epi w1 = new_epi w"
    "destroyed w1 = destroyed w"
    unfolding w1_def v by (simp_all add: upd_rpc_def)
  have ok1: "timeouts_ok c w1" by (rule timeouts_ok_frame [OF ok, of _ t]) (use w1 t in auto)
  have p: "cr_ctx (rpc w1 t) = Some c" "\<not> crp_in_binheap (rpc w1 t)" "crp_refcount (rpc w1 t) \<noteq> 0" "crp_refcount (rpc w1 t) \<noteq> - 1"
    using t by (auto simp: w1 eq_neg_iff_add_eq_0)
  obtain rc h where tr: "crt_req_timeout_track t w1 = Some (rc, track_outcome c t rc h w1)"
    "timeouts_ok c (track_outcome c t rc h w1)"
    by (rule track_exact [OF ok1 p]) rule
  let ?w = "upd_ep e (promoted t) (track_outcome c t rc h w1)"
  have e: "waitq_loop 1 e [] w = Some ([t], ?w)"
    using q tr(1) by (simp add: w1_def [symmetric] Let_def)
      (simp add: w1 upd_epi_def, simp add: upd_ep_def upd_epi_def promoted_def [abs_def] w1)
  have okw: "timeouts_ok c ?w" by (rule timeouts_ok_same [OF tr(2)]) simp_all
  have d: "destroyed ?w = destroyed w"
    by (simp add: track_outcome_def mark_def with_heap_def upd_ctx_def upd_rpc_def upd_ep_def w1)
  show thesis
    by (rule that [OF e okw _ _ _ _ _ _ d]) (use t(2) in \<open>auto simp: w1 promoted_rpc_def\<close>)
qed

text \<open>A change of one record and of requests that are in no queue of another record.\<close>

lemma ctx_ok_change:
  assumes ok: "ctx_ok c w" and e: "epi_of c w k = Some e"
    and w': "etable w' c = etable w c" "cg_credit_ep_ctx w' = cg_credit_ep_ctx w" "new_epi w' = new_epi w" "timeouts_ok c w'"
    and ep: "\<And>x. x \<noteq> e \<Longrightarrow> ep w' x = ep w x"
      "epi_rank (ep w' e) = epi_rank (ep w e)" "epi_ref (ep w' e) = epi_ref (ep w e)" "epi_ctx (ep w' e) = epi_ctx (ep w e)"
      "epi_initialized (ep w' e) = epi_initialized (ep w e)"
    and rp: "\<And>q. rpc w' q \<noteq> rpc w q \<Longrightarrow> crp_epi (rpc w q) = Some e" and f: "flow_ok c e w'"
  shows "ctx_ok c w'" "flows c w' = (flows c w)(k := (epi_req_q (ep w' e), epi_req_waitq (ep w' e)))"
proof -
  have inv: "ctx_inv c w" using ok by (simp add: ctx_ok_def)
  note t = ctx_invD [OF inv]
  have l: "e \<in> epit.links (etable w c)" and k: "epi_rank (ep w e) = k" using e epi_of_iff [OF inv] by auto
  have same: "epi_rank (ep w' x) = epi_rank (ep w x)" "epi_ref (ep w' x) = epi_ref (ep w x)"
    "epi_ctx (ep w' x) = epi_ctx (ep w x)" "epi_initialized (ep w' x) = epi_initialized (ep w x)" for x
    using ep by (cases "x = e"; simp)+
  have ref: "epi_ref (ep w x) = 1" if "x \<in> epit.links (etable w c)" for x using ok that by (simp add: ctx_ok_def)
  have tab: "epit.table_ok (etable w' c) (epis w')" "epi_of c w' = epi_of c w"
    using epit.table_ok_cong [OF t(2), of "epis w'"] same ref by (auto simp: w'(1))
  have fx: "flow_ok c x w'" if x: "x \<in> epit.links (etable w c)" for x
  proof (cases "x = e")
    case False
    have "rpc w' q = rpc w q" if "q \<in> set (epi_req_q (ep w x) @ epi_req_waitq (ep w x))" for q
      using rp [of q] flow_ok_queued [of c x w q] t(5) [OF x] that False by (auto simp: queued_ok_def)
    then show ?thesis using t(5) [OF x] ep(1) [OF False] by (simp add: flow_ok_def w'(2))
  qed (use f in simp)
  have "x < new_epi w' \<and> epi_ctx (ep w' x) = c \<and> epi_initialized (ep w' x) \<and> flow_ok c x w' \<and> epi_ref (ep w' x) = 1"
    if "x \<in> epit.links (etable w' c)" for x
    using t(5) [of x] fx [of x] that ref [of x] same by (simp add: w'(1,3))
  then show "ctx_ok c w'" using w'(4) tab(1) by (simp add: ctx_ok_def ctx_inv_def)
  show "flows c w' = (flows c w)(k := (epi_req_q (ep w' e), epi_req_waitq (ep w' e)))"
  proof
    fix y
    have "ep w' x = ep w x" if "epi_of c w y = Some x" "y \<noteq> k" for x
      by (rule ep(1)) (use that epi_of_iff [OF inv] k in auto)
    then show "flows c w' y = ((flows c w)(k := (epi_req_q (ep w' e), epi_req_waitq (ep w' e)))) y"
      by (auto simp: flows_def tab(2) e split: option.split)
  qed
qed

lemma length_remove1_int: "x \<in> set xs \<Longrightarrow> int (length (remove1 x xs)) = int (length xs) - 1"
  by (induction xs) auto

text \<open>The state in which the request is out of its queue and of the heap and has lost both references.\<close>

lemma untrack_first:
  assumes ok: "ctx_ok c w" and e: "epi_of c w k = Some e" and r: "r \<in> set (epi_req_q (ep w e))"
    and st: "untrack_state (crp_state (rpc w r))"
  obtains w3 g where
    "untrack_locked r w = untrack_waitq e w3"
    "timeouts_ok c w3" "\<forall>q. q \<noteq> r \<longrightarrow> rpc w3 q = rpc w q" "epis w3 = upd_epi e g (epis w)" "etable w3 c = etable w c"
    "cg_credit_ep_ctx w3 = cg_credit_ep_ctx w" "new_epi w3 = new_epi w"
    "\<not> crp_ctx_tracked (rpc w3 r)" "\<not> crp_in_binheap (rpc w3 r)" "crp_state (rpc w3 r) = crp_state (rpc w r)"
    "crp_refcount (rpc w3 r) = crp_refcount (rpc w r) - 1 - (if crp_in_binheap (rpc w r) then 1 else 0)"
    "destroyed w3 = (if crp_refcount (rpc w3 r) = 0 then r # destroyed w else destroyed w)"
    "epi_req_q (g (ep w e)) = remove1 r (epi_req_q (ep w e))" "epi_req_waitq (g (ep w e)) = epi_req_waitq (ep w e)"
    "epi_req_num (g (ep w e)) - epi_reply_num (g (ep w e)) = int (length (remove1 r (epi_req_q (ep w e))))"
    "epi_req_wait_num (g (ep w e)) = epi_req_wait_num (ep w e)"
    "epi_rank (g (ep w e)) = epi_rank (ep w e)" "epi_ref (g (ep w e)) = epi_ref (ep w e)"
    "epi_ctx (g (ep w e)) = epi_ctx (ep w e)" "epi_initialized (g (ep w e)) = epi_initialized (ep w e)"
proof -
  have inv: "ctx_inv c w" using ok by (simp add: ctx_ok_def)
  note t = ctx_invD [OF inv]
  have l: "e \<in> epit.links (etable w c)" using e epi_of_iff [OF inv] by auto
  have f: "flow_ok c e w" using t(5) [OF l] by simp
  have p: "cr_ctx (rpc w r) = Some c" "crp_epi (rpc w r) = Some e" "crp_ctx_tracked (rpc w r)"
    "cr_opc (rpc w r) \<noteq> CRT_OPC_URI_LOOKUP" "crp_refcount (rpc w r) \<noteq> 0"
    "crp_in_binheap (rpc w r) \<longrightarrow> crp_refcount (rpc w r) \<noteq> 1"
    using flow_ok_queued [OF f, of r] r by (auto simp: queued_ok_def)
  have c: "counts_ok (uint (cg_credit_ep_ctx w)) (ep w e)" using f by (simp add: flow_ok_def)
  have rq: "r \<notin> set (epi_req_waitq (ep w e))" using c r by (auto simp: counts_ok_def)
  define g where "g = (\<lambda>p. if crp_state (rpc w r) = RPC_STATE_COMPLETED
      then (dequeue r p)\<lparr>epi_reply_num := epi_reply_num p + 1\<rparr> else (dequeue r p)\<lparr>epi_req_num := epi_req_num p - 1\<rparr>)"
  let ?n = "int (length (remove1 r (epi_req_q (ep w e))))"
  have n1: "?n = epi_req_num (ep w e) - epi_reply_num (ep w e) - 1"
    using c length_remove1_int [OF r] by (simp add: counts_ok_def)
  have g: "epi_req_num (g (ep w e)) - epi_reply_num (g (ep w e)) = ?n"
    "epi_req_waitq (g (ep w e)) = epi_req_waitq (ep w e)" "epi_req_q (g (ep w e)) = remove1 r (epi_req_q (ep w e))"
    using n1 rq by (auto simp: g_def dequeue_def remove1_idem)
  let ?w1 = "upd_ep e g w"
  have up: "untrack_dequeue r e w = ?w1" by (simp add: untrack_dequeue_def g_def)
  have ok1: "timeouts_ok c ?w1" by (rule timeouts_ok_same [OF t(1)]) simp_all
  obtain h v where h: "(if \<not> crt_req_timedout (rpc ?w1 r) then crt_req_timeout_untrack r ?w1 else Some ?w1) =
       Some (with_heap c h (upd_rpc r (\<lambda>p. p\<lparr>crp_in_binheap := False, crp_refcount := v\<rparr>) ?w1))"
    "timeouts_ok c (with_heap c h (upd_rpc r (\<lambda>p. p\<lparr>crp_in_binheap := False, crp_refcount := v\<rparr>) ?w1))"
    "v = crp_refcount (rpc ?w1 r) - (if crp_in_binheap (rpc ?w1 r) then 1 else 0)" "v \<noteq> 0"
    by (rule untrack_heap [OF ok1]) (use p in auto)
  define w2 where "w2 = with_heap c h (upd_rpc r (\<lambda>p. p\<lparr>crp_in_binheap := False, crp_refcount := v\<rparr>) ?w1)"
  define w3 where "w3 = (let w = upd_rpc r (\<lambda>p. p\<lparr>crp_ctx_tracked := False, crp_refcount := v - 1\<rparr>) w2
      in if v - 1 = 0 then crt_req_destroy r w else w)"
  have d: "RPC_DECREF r (upd_rpc r (\<lambda>p. p\<lparr>crp_ctx_tracked := False\<rparr>) w2) = Some w3"
    using h(4) by (simp add: RPC_DECREF_def w3_def w2_def Let_def) (simp add: upd_rpc_def)
  have w3: "rpcs w3 = (rpcs w)(r := (rpc w r)\<lparr>crp_in_binheap := False, crp_refcount := v - 1, crp_ctx_tracked := False\<rparr>)"
    "epis w3 = upd_epi e g (epis w)" "etable w3 c = etable w c" "cg_credit_ep_ctx w3 = cg_credit_ep_ctx w"
    "new_epi w3 = new_epi w" "theap w3 c = h" "destroyed w3 = (if v - 1 = 0 then r # destroyed w else destroyed w)"
    by (auto simp: w3_def w2_def Let_def crt_req_destroy_def) (auto simp: upd_rpc_def upd_ep_def with_heap_def upd_ctx_def)
  have ok3: "timeouts_ok c w3"
    by (rule timeouts_ok_frame [OF h(2), where r = r]) (auto simp: w3)
  have ep3: "ep w3 e = g (ep w e)" by (simp add: w3(2) upd_epi_def)
  have rel: "untrack_release r ?w1 = Some w3"
    by (simp only: untrack_release_def h(1) [folded w2_def] d bind.bind_lunit)
  have eq: "untrack_locked r w = untrack_waitq e w3"
    using g(1) p(1-4) st by (simp add: untrack_locked_def up rel Let_def) (simp add: upd_epi_def)
  have g2: "epi_req_wait_num (g p) = epi_req_wait_num p" "epi_rank (g p) = epi_rank p" "epi_ref (g p) = epi_ref p"
    "epi_ctx (g p) = epi_ctx p" "epi_initialized (g p) = epi_initialized p" for p
    by (simp_all add: g_def dequeue_def)
  show thesis
    by (rule that [of w3 g, OF eq ok3 _ w3(2-5)]) (use w3(1,7) h(3) g g2 in auto)
qed

lemma waitq_loop_empty: "epi_req_waitq (ep w e) = [] \<Longrightarrow> waitq_loop n e acc w = Some (acc, w)"
  by (cases n) simp_all

lemma flows_epi:
  assumes "ctx_inv c w" "r \<in> set (fst (flows c w k)) \<or> r \<in> set (snd (flows c w k))"
  obtains e where "epi_of c w k = Some e" "flows c w k = (epi_req_q (ep w e), epi_req_waitq (ep w e))" "flow_ok c e w"
    "queued_ok c e (rpc w r)"
proof -
  obtain e where e: "epi_of c w k = Some e" using assms(2) by (auto simp: flows_def split: option.splits)
  then have l: "e \<in> epit.links (etable w c)" using epi_of_iff [OF assms(1)] by simp
  have f: "flows c w k = (epi_req_q (ep w e), epi_req_waitq (ep w e))" by (simp add: flows_def e)
  have fo: "flow_ok c e w" using ctx_invD(5) [OF assms(1) l] by simp
  show thesis by (rule that [OF e f fo]) (use flow_ok_queued [OF fo, of r] assms(2) f in auto)
qed

lemma untrack_exact_flows:
  assumes ok: "ctx_ok c w" and r: "r \<in> set (fst (flows c w k))" and st: "untrack_state (crp_state (rpc w r))"
    and ref: "\<forall>t \<in> set (take 1 (snd (flows c w k))). crp_refcount (rpc w t) + 1 \<noteq> 0"
  obtains w' where "untrack_locked r w = Some (take 1 (snd (flows c w k)), w')" "ctx_ok c w'"
    "flows c w' = (flows c w)(k := flow_untrack r (flows c w k))"
    "\<forall>q. q \<noteq> r \<and> q \<notin> set (take 1 (snd (flows c w k))) \<longrightarrow> rpc w' q = rpc w q"
    "\<not> crp_ctx_tracked (rpc w' r)" "\<not> crp_in_binheap (rpc w' r)" "crp_state (rpc w' r) = crp_state (rpc w r)"
    "crp_refcount (rpc w' r) = crp_refcount (rpc w r) - 1 - (if crp_in_binheap (rpc w r) then 1 else 0)"
    "destroyed w' = (if crp_refcount (rpc w' r) = 0 then r # destroyed w else destroyed w)"
    "\<forall>t \<in> set (take 1 (snd (flows c w k))). crp_state (rpc w' t) = RPC_STATE_INITED
       \<and> crp_refcount (rpc w' t) = crp_refcount (rpc w t) + (if crp_in_binheap (rpc w' t) then 1 else 0)"
proof -
  have inv: "ctx_inv c w" using ok by (simp add: ctx_ok_def)
  obtain e where e: "epi_of c w k = Some e" "flows c w k = (epi_req_q (ep w e), epi_req_waitq (ep w e))" "flow_ok c e w"
    "queued_ok c e (rpc w r)"
    by (rule flows_epi [OF inv]) (use r in auto)
  let ?q = "epi_req_q (ep w e)" and ?wq = "epi_req_waitq (ep w e)" and ?k = "uint (cg_credit_ep_ctx w)"
  have rq: "r \<in> set ?q" using r e(2) by simp
  have cnt: "counts_ok ?k (ep w e)" using e(3) by (simp add: flow_ok_def)
  have n1: "int (length (remove1 r ?q)) = int (length ?q) - 1" by (rule length_remove1_int [OF rq])
  have k0: "?k = 0 \<longleftrightarrow> cg_credit_ep_ctx w = 0" by (rule uint_0_iff)
  obtain w3 g where u: "untrack_locked r w = untrack_waitq e w3"
    "timeouts_ok c w3" "\<forall>q. q \<noteq> r \<longrightarrow> rpc w3 q = rpc w q" "epis w3 = upd_epi e g (epis w)" "etable w3 c = etable w c"
    "cg_credit_ep_ctx w3 = cg_credit_ep_ctx w" "new_epi w3 = new_epi w"
    "\<not> crp_ctx_tracked (rpc w3 r)" "\<not> crp_in_binheap (rpc w3 r)" "crp_state (rpc w3 r) = crp_state (rpc w r)"
    "crp_refcount (rpc w3 r) = crp_refcount (rpc w r) - 1 - (if crp_in_binheap (rpc w r) then 1 else 0)"
    "destroyed w3 = (if crp_refcount (rpc w3 r) = 0 then r # destroyed w else destroyed w)"
    "epi_req_q (g (ep w e)) = remove1 r ?q" "epi_req_waitq (g (ep w e)) = ?wq"
    "epi_req_num (g (ep w e)) - epi_reply_num (g (ep w e)) = int (length (remove1 r ?q))"
    "epi_req_wait_num (g (ep w e)) = epi_req_wait_num (ep w e)"
    "epi_rank (g (ep w e)) = epi_rank (ep w e)" "epi_ref (g (ep w e)) = epi_ref (ep w e)"
    "epi_ctx (g (ep w e)) = epi_ctx (ep w e)" "epi_initialized (g (ep w e)) = epi_initialized (ep w e)"
    by (rule untrack_first [OF ok e(1) rq st])
  have ep3: "ep w3 x = (if x = e then g (ep w e) else ep w x)" for x by (simp add: u(4) upd_epi_def)
  have sub: "set (remove1 r ?q) = set ?q - {r}" using cnt by (simp add: counts_ok_def set_remove1_eq)
  have same: "rpc w3 q = rpc w q" if "q \<in> set (remove1 r ?q @ ?wq)" for q
    using that u(3) sub cnt rq by (auto simp: counts_ok_def)
  have qd: "queued_ok c e (rpc w q)" if "q \<in> set (remove1 r ?q @ ?wq)" for q
    using flow_ok_queued [OF e(3), of q] that sub by auto
  have er: "crp_epi (rpc w r) = Some e" using e(4) by (simp add: queued_ok_def)
  show thesis
  proof (cases ?wq)
    case Nil
    have l: "untrack_waitq e w3 = Some ([], w3)"
      using n1 cnt u(14,15) Nil by (auto simp: untrack_waitq_def ep3 u(6) counts_ok_def k0 waitq_loop_empty)
    have f: "flow_ok c e w3"
      using cnt n1 Nil same qd u(13-16) by (auto simp: flow_ok_def ep3 counts_ok_def u(6))
    have d: "\<And>x. x \<noteq> e \<Longrightarrow> ep w3 x = ep w x" "epi_rank (ep w3 e) = epi_rank (ep w e)"
      "epi_ref (ep w3 e) = epi_ref (ep w e)" "epi_ctx (ep w3 e) = epi_ctx (ep w e)"
      "epi_initialized (ep w3 e) = epi_initialized (ep w e)"
      by (simp_all add: ep3 u(17-20))
    have rp: "crp_epi (rpc w q) = Some e" if "rpc w3 q \<noteq> rpc w q" for q using that u(3) er by (cases "q = r") auto
    note ch = ctx_ok_change [OF ok e(1) u(5-7,2) d rp f]
    show thesis
      by (rule that [OF _ ch(1)]) (use u(1,3,8-14) l Nil ch(2) in \<open>auto simp: e(2) flow_untrack_def ep3\<close>)
  next
    case (Cons t rest)
    have kk: "?k \<noteq> 0" "int (length ?q) = ?k" using cnt Cons by (auto simp: counts_ok_def)
    have tt: "crp_state (rpc w t) = RPC_STATE_QUEUED" "\<not> crp_in_binheap (rpc w t)" "queued_ok c e (rpc w t)"
      using e(3) Cons qd [of t] by (auto simp: flow_ok_def)
    have tr: "t \<noteq> r" "t \<notin> set ?q" using cnt rq Cons by (auto simp: counts_ok_def)
    have t3: "rpc w3 t = rpc w t" using same [of t] Cons by simp
    have a: "epi_req_waitq (ep w3 e) = t # rest" "0 < epi_req_wait_num (ep w3 e)"
      "epi_reply_num (ep w3 e) \<le> epi_req_num (ep w3 e)"
      using u(14-16) cnt Cons by (auto simp: ep3 counts_ok_def)
    have b: "cr_ctx (rpc w3 t) = Some c" "\<not> crp_in_binheap (rpc w3 t)" "crp_refcount (rpc w3 t) \<noteq> 0"
      "crp_refcount (rpc w3 t) + 1 \<noteq> 0"
      using tt ref Cons by (auto simp: t3 queued_ok_def e(2))
    obtain w' where l: "waitq_loop 1 e [] w3 = Some ([t], w')" "timeouts_ok c w'" "\<forall>q. q \<noteq> t \<longrightarrow> rpc w' q = rpc w3 q"
      "promoted_rpc (rpc w3 t) (rpc w' t)" "epis w' = upd_epi e (promoted t) (epis w3)" "etable w' c = etable w3 c"
      "cg_credit_ep_ctx w' = cg_credit_ep_ctx w3" "new_epi w' = new_epi w3" "destroyed w' = destroyed w3"
      by (rule waitq_loop_one [OF u(2) a b])
    have w: "untrack_waitq e w3 = Some ([t], w')"
      using n1 kk l(1) u(15) by (auto simp: untrack_waitq_def ep3 u(6) k0)
    have ep': "ep w' x = (if x = e then promoted t (g (ep w e)) else ep w x)" for x
      by (simp add: l(5) upd_epi_def ep3)
    have same': "rpc w' q = rpc w q" if "q \<in> set (remove1 r ?q @ rest)" for q
      using that same [of q] l(3) tr cnt Cons sub by (auto simp: counts_ok_def)
    have qt: "queued_ok c e (rpc w' t)"
      using l(4) tt(3) b by (auto simp: promoted_rpc_def queued_ok_def t3 add.commute)
    have c': "counts_ok ?k (ep w' e)"
      using cnt n1 kk u(13-16) Cons tr sub by (auto simp: counts_ok_def ep' promoted_def)
    have q': "queued_ok c e (rpc w' q)" if "q \<in> set (remove1 r ?q @ [t] @ rest)" for q
      using that qd [of q] same' [of q] qt Cons by auto
    have st': "crp_state (rpc w' q) = RPC_STATE_QUEUED \<and> \<not> crp_in_binheap (rpc w' q)" if "q \<in> set rest" for q
      using that same' [of q] e(3) Cons by (simp add: flow_ok_def)
    have f: "flow_ok c e w'"
      using c' q' st' by (auto simp: flow_ok_def ep' l(7) u(6) promoted_def u(13,14) Cons)
    have x: "etable w' c = etable w c" "cg_credit_ep_ctx w' = cg_credit_ep_ctx w" "new_epi w' = new_epi w"
      using l u by simp_all
    have d: "\<And>x. x \<noteq> e \<Longrightarrow> ep w' x = ep w x" "epi_rank (ep w' e) = epi_rank (ep w e)"
      "epi_ref (ep w' e) = epi_ref (ep w e)" "epi_ctx (ep w' e) = epi_ctx (ep w e)"
      "epi_initialized (ep w' e) = epi_initialized (ep w e)"
      by (simp_all add: ep' promoted_def u(17-20))
    have rp: "crp_epi (rpc w q) = Some e" if "rpc w' q \<noteq> rpc w q" for q
      using that u(3) l(3) er tt(3) by (cases "q = r"; cases "q = t") (auto simp: queued_ok_def)
    note ch = ctx_ok_change [OF ok e(1) x l(2) d rp f]
    show thesis
      by (rule that [OF _ ch(1)])
        (use u(1,3,8-14) w l(3,4,9) tr t3 ch(2) in \<open>auto simp: e(2) flow_untrack_def ep' promoted_def promoted_rpc_def Cons\<close>)
  qed
qed

section \<open>Submitting waiting requests\<close>

definition in_queue :: "nat \<Rightarrow> crt_world \<Rightarrow> nat \<Rightarrow> bool" where
  "in_queue c w r \<longleftrightarrow> (\<exists>k. r \<in> set (fst (flows c w k)) \<or> r \<in> set (snd (flows c w k)))"

lemma in_queue_unique:
  assumes "ctx_inv c w" "r \<in> set (fst (flows c w k) @ snd (flows c w k))" "r \<in> set (fst (flows c w j) @ snd (flows c w j))"
  shows "j = k"
proof -
  obtain e where e: "epi_of c w k = Some e" "queued_ok c e (rpc w r)" by (rule flows_epi [OF assms(1), of r k]) (use assms(2) in auto)
  obtain e' where e': "epi_of c w j = Some e'" "queued_ok c e' (rpc w r)" by (rule flows_epi [OF assms(1), of r j]) (use assms(3) in auto)
  have "e = e'" using e(2) e'(2) by (simp add: queued_ok_def)
  then show "j = k" using e(1) e'(1) epi_of_iff [OF assms(1)] by auto
qed

lemma flows_distinct:
  assumes "ctx_inv c w"
  shows "distinct (fst (flows c w k) @ snd (flows c w k))"
proof (cases "epi_of c w k")
  case (Some e)
  then have "flow_ok c e w" using ctx_invD(5) [OF assms] epi_of_iff [OF assms] by blast
  then show ?thesis by (simp add: flows_def Some flow_ok_def counts_ok_def)
qed (simp add: flows_def)

text \<open>
  A descriptor that does not wait may change its state and its reference count, as long as it keeps
  the references of the queue and of the heap.
\<close>

lemma ctx_ok_upd_rpc:
  assumes ok: "ctx_ok c w" and nw: "\<And>k. r \<notin> set (snd (flows c w k))"
    and f: "cr_ctx (f (rpc w r)) = cr_ctx (rpc w r)" "cr_opc (f (rpc w r)) = cr_opc (rpc w r)"
      "crp_epi (f (rpc w r)) = crp_epi (rpc w r)" "crp_ctx_tracked (f (rpc w r)) = crp_ctx_tracked (rpc w r)"
      "crp_in_binheap (f (rpc w r)) = crp_in_binheap (rpc w r)" "crp_timeout_ts (f (rpc w r)) = crp_timeout_ts (rpc w r)"
    and ref: "crp_refcount (f (rpc w r)) = crp_refcount (rpc w r)
      \<or> crp_refcount (f (rpc w r)) \<noteq> 0 \<and> crp_refcount (f (rpc w r)) \<noteq> 1
      \<or> \<not> in_queue c w r \<and> \<not> crp_in_binheap (rpc w r)"
  shows "ctx_ok c (upd_rpc r f w)" "flows c (upd_rpc r f w) = flows c w"
proof -
  have inv: "ctx_inv c w" using ok by (simp add: ctx_ok_def)
  note t = ctx_invD [OF inv]
  have th: "timeouts_ok c (upd_rpc r f w)"
    by (rule timeouts_ok_cong [OF t(1)]) (use f ref timeouts_okD(3,4) [OF t(1)] in auto)
  have fl: "flow_ok c x (upd_rpc r f w)" if x: "x \<in> epit.links (etable w c)" for x
  proof -
    have fq: "flows c w (epi_rank (ep w x)) = (epi_req_q (ep w x), epi_req_waitq (ep w x))"
      using epi_of_iff [OF inv, of "epi_rank (ep w x)" x] x by (simp add: flows_def)
    have "r \<notin> set (epi_req_waitq (ep w x))" using nw [of "epi_rank (ep w x)"] fq by simp
    moreover have "in_queue c w r" if "r \<in> set (epi_req_q (ep w x))"
      unfolding in_queue_def by (rule exI [of _ "epi_rank (ep w x)"]) (simp add: fq that)
    ultimately show ?thesis
      using t(5) [OF x] f ref by (auto simp: flow_ok_def queued_ok_def)
  qed
  show "ctx_ok c (upd_rpc r f w)" using ok th fl t by (simp add: ctx_ok_def ctx_inv_def)
  show "flows c (upd_rpc r f w) = flows c w" by (simp add: flows_def [abs_def] cong: option.case_cong)
qed

text \<open>
  What the rest of the library is assumed to do while requests are submitted: sending a request in flight
  returns, keeps the invariant and the queues and touches no other descriptor (and keeps the reference
  count of one it could not send); a completion callback returns and sends nothing itself.
\<close>

definition env_quiet :: "crt_env \<Rightarrow> nat \<Rightarrow> bool" where
  "env_quiet env c \<longleftrightarrow>
     (\<forall>w t k. ctx_ok c w \<longrightarrow> t \<in> set (fst (flows c w k)) \<longrightarrow>
        (\<exists>rc w'. send_internal env t w = Some (rc, w') \<and> ctx_ok c w' \<and> flows c w' = flows c w
           \<and> (\<forall>q. q \<noteq> t \<longrightarrow> rpc w' q = rpc w q)
           \<and> (rc \<noteq> DER_SUCCESS \<longrightarrow> crp_refcount (rpc w' t) = crp_refcount (rpc w t))))
     \<and> (\<forall>w t rc. ctx_ok c w \<longrightarrow>
        (\<exists>w'. complete_cb env t rc w = Some w' \<and> ctx_ok c w' \<and> flows c w' = flows c w \<and> rpcs w' = rpcs w))"

text \<open>Completing a request that is in no queue and dropping the last reference of the submission.\<close>

lemma complete_release:
  assumes q: "env_quiet env c" and ok: "ctx_ok c w" and t: "\<not> in_queue c w t" "\<not> crp_in_binheap (rpc w t)"
    and ref: "crp_refcount (rpc w t) \<noteq> 0"
  obtains w1 w' where "crt_rpc_complete env t rc w = Some w1" "RPC_DECREF t w1 = Some w'" "ctx_ok c w'" "flows c w' = flows c w"
    "\<forall>q. q \<noteq> t \<longrightarrow> rpc w' q = rpc w q"
proof -
  let ?w = "upd_rpc t (\<lambda>p. p\<lparr>crp_state := state_of_rc rc\<rparr>) w"
  have nw: "t \<notin> set (snd (flows c w k))" for k using t(1) by (auto simp: in_queue_def)
  have a: "ctx_ok c ?w" "flows c ?w = flows c w" by (rule ctx_ok_upd_rpc [OF ok nw]; use t in simp)+
  obtain w1 where w1: "crt_rpc_complete env t rc w = Some w1" "ctx_ok c w1" "flows c w1 = flows c w" "rpcs w1 = rpcs ?w"
  proof (cases "crp_complete_cb (rpc w t)")
    case True
    obtain w1 where "complete_cb env t (if rc = DER_SUCCESS then crp_reply_rc (rpc ?w t) else rc) ?w = Some w1"
      "ctx_ok c w1" "flows c w1 = flows c ?w" "rpcs w1 = rpcs ?w"
      using q a(1) unfolding env_quiet_def by blast
    then show thesis using that True a(2) by (simp add: crt_rpc_complete_def Let_def)
  next
    case False
    then show thesis using that a by (simp add: crt_rpc_complete_def Let_def)
  qed
  have nq1: "\<not> in_queue c w1 t" using t(1) w1(3) by (simp add: in_queue_def)
  have nw1: "t \<notin> set (snd (flows c w1 k))" for k using nq1 by (auto simp: in_queue_def)
  let ?w2 = "upd_rpc t (\<lambda>p. p\<lparr>crp_refcount := crp_refcount p - 1\<rparr>) w1"
  have b: "ctx_ok c ?w2" "flows c ?w2 = flows c w1" by (rule ctx_ok_upd_rpc [OF w1(2) nw1]; use t nq1 w1(4) in simp)+
  let ?w' = "if crp_refcount (rpc w t) - 1 = 0 then crt_req_destroy t ?w2 else ?w2"
  have "ctx_ok c ?w'" "flows c ?w' = flows c w" "rpcs ?w' = rpcs ?w2"
    using b w1(3) by (auto simp: crt_req_destroy_def ctx_ok_def ctx_inv_def timeouts_ok_def flow_ok_def flows_def [abs_def]
        cong: option.case_cong)
  moreover have "RPC_DECREF t w1 = Some ?w'" using ref w1(4) by (simp add: RPC_DECREF_def Let_def)
  ultimately show thesis using that [OF w1(1), of ?w'] w1(4) by simp
qed

definition submit_done :: "nat \<Rightarrow> d_rank_t \<Rightarrow> nat list \<Rightarrow> crt_world \<Rightarrow> crt_world \<Rightarrow> bool" where
  "submit_done c k sub w w' \<longleftrightarrow> ctx_ok c w'
     \<and> (\<forall>j. j \<noteq> k \<longrightarrow> flows c w' j = flows c w j)
     \<and> (\<exists>n. snd (flows c w' k) = drop n (snd (flows c w k)))
     \<and> set (fst (flows c w' k)) \<subseteq> set (fst (flows c w k)) \<union> set (snd (flows c w k))
     \<and> (\<forall>q. q \<notin> set sub \<and> q \<notin> set (snd (flows c w k)) \<longrightarrow> rpc w' q = rpc w q)"

lemma resubmit_Nil [simp]: "resubmit env [] w = Some w"
  by (subst resubmit.simps) simp

lemma take1_cases: "take 1 xs = [] \<and> xs = [] \<or> (\<exists>t ys. xs = t # ys \<and> take 1 xs = [t])"
  by (cases xs) auto

text \<open>
  Submission ends: every request that cannot be sent makes room for at most one waiting request, and
  the wait queue gets shorter.
\<close>

lemma resubmit_returns:
  assumes q: "env_quiet env c" and ok: "ctx_ok c w"
    and sub: "sub = [] \<or> (\<exists>t. sub = [t] \<and> t \<in> set (fst (flows c w k)))"
    and ref: "\<forall>t \<in> set sub. crp_refcount (rpc w t) + 1 \<noteq> 0"
      "\<forall>t \<in> set (snd (flows c w k)). crp_refcount (rpc w t) + 1 \<noteq> 0 \<and> crp_refcount (rpc w t) + 2 \<noteq> 0"
  shows "\<exists>w'. resubmit env sub w = Some w' \<and> submit_done c k sub w w'"
  using ok sub ref
proof (induction "length (snd (flows c w k))" arbitrary: w sub rule: less_induct)
  case less
  note ok = less.prems(1)
  let ?wq = "snd (flows c w k)"
  show ?case
  proof (cases "sub = []")
    case True
    then show ?thesis using ok by (auto simp: submit_done_def intro: exI [of _ 0])
  next
    case False
    then obtain t where t: "sub = [t]" "t \<in> set (fst (flows c w k))" using less.prems(2) by auto
    obtain rc w1 where w1: "send_internal env t w = Some (rc, w1)" "ctx_ok c w1" "flows c w1 = flows c w"
      "\<forall>q. q \<noteq> t \<longrightarrow> rpc w1 q = rpc w q" "rc \<noteq> DER_SUCCESS \<longrightarrow> crp_refcount (rpc w1 t) = crp_refcount (rpc w t)"
      using q ok t(2) unfolding env_quiet_def by blast
    show ?thesis
    proof (cases "rc = DER_SUCCESS")
      case True
      have "resubmit env sub w = Some w1" by (subst resubmit.simps) (simp add: t(1) w1(1) True)
      then show ?thesis using w1 t(1) by (auto simp: submit_done_def intro: exI [of _ 0])
    next
      case rc: False
      have inv1: "ctx_inv c w1" using w1(2) by (simp add: ctx_ok_def)
      have t1: "t \<in> set (fst (flows c w1 k))" using t(2) w1(3) by simp
      have only: "t \<notin> set (snd (flows c w1 j))" for j
        using in_queue_unique [OF inv1, of t k j] t1 flows_distinct [OF inv1, of k] by auto
      obtain e where qt: "queued_ok c e (rpc w1 t)" by (rule flows_epi [OF inv1, of t k]) (use t1 in auto)
      have rf: "crp_refcount (rpc w1 t) \<noteq> 0" "crp_refcount (rpc w1 t) + 1 \<noteq> 0"
        using qt less.prems(3) w1(5) rc t(1) by (auto simp: queued_ok_def)
      let ?f = "\<lambda>p :: crt_rpc_priv. p\<lparr>crp_refcount := crp_refcount p + 1, crp_state := RPC_STATE_INITED\<rparr>"
      let ?w2 = "upd_rpc t ?f w1"
      have w2: "ctx_ok c ?w2" "flows c ?w2 = flows c w1" by (rule ctx_ok_upd_rpc [OF w1(2) only]; use rf in simp)+
      have add: "RPC_ADDREF t w1 = Some (upd_rpc t (\<lambda>p. p\<lparr>crp_refcount := crp_refcount p + 1\<rparr>) w1)"
        using rf by (simp add: RPC_ADDREF_def)
      have add2: "upd_rpc t (\<lambda>p. p\<lparr>crp_state := RPC_STATE_INITED\<rparr>) (upd_rpc t (\<lambda>p. p\<lparr>crp_refcount := crp_refcount p + 1\<rparr>) w1) = ?w2"
        by (simp add: upd_rpc_def)
      have t2: "t \<in> set (fst (flows c ?w2 k))" and st2: "untrack_state (crp_state (rpc ?w2 t))"
        using t1 w2(2) by (simp_all add: untrack_state_def)
      have same2: "rpc ?w2 x = rpc w x" if "x \<noteq> t" for x using that w1(4) by simp
      have wq2: "snd (flows c ?w2 k) = ?wq" using w2(2) w1(3) by simp
      have ntq: "t \<notin> set ?wq" using only [of k] w1(3) by simp
      have rr: "\<forall>x \<in> set (take 1 (snd (flows c ?w2 k))). crp_refcount (rpc ?w2 x) + 1 \<noteq> 0"
      proof
        fix x assume "x \<in> set (take 1 (snd (flows c ?w2 k)))"
        then have x: "x \<in> set ?wq" unfolding wq2 by (rule in_set_takeD)
        then have "x \<noteq> t" using ntq by auto
        then show "crp_refcount (rpc ?w2 x) + 1 \<noteq> 0" using less.prems(4) x same2 [of x] by simp
      qed
      obtain w3 where w3: "untrack_locked t ?w2 = Some (take 1 ?wq, w3)" "ctx_ok c w3"
        "flows c w3 = (flows c ?w2)(k := flow_untrack t (flows c ?w2 k))"
        "\<forall>q. q \<noteq> t \<and> q \<notin> set (take 1 ?wq) \<longrightarrow> rpc w3 q = rpc ?w2 q"
        "\<not> crp_in_binheap (rpc w3 t)"
        "crp_refcount (rpc w3 t) = crp_refcount (rpc ?w2 t) - 1 - (if crp_in_binheap (rpc ?w2 t) then 1 else 0)"
        "\<forall>x \<in> set (take 1 ?wq). crp_state (rpc w3 x) = RPC_STATE_INITED
           \<and> crp_refcount (rpc w3 x) = crp_refcount (rpc ?w2 x) + (if crp_in_binheap (rpc w3 x) then 1 else 0)"
        by (rule untrack_exact_flows [OF w2(1) t2 st2 rr]) (unfold wq2, rule)
      have f3: "flows c w3 = (flows c w)(k := (remove1 t (fst (flows c w k)) @ take 1 ?wq, drop 1 ?wq))"
        using w3(3) w2(2) w1(3) by (simp add: flow_untrack_def)
      have rf3: "crp_refcount (rpc w3 t) \<noteq> 0" using w3(6) qt by (auto simp: queued_ok_def)
      have d: "distinct (fst (flows c w k))" using flows_distinct [OF inv1, of k] w1(3) by simp
      have IH: "\<exists>w4. resubmit env (take 1 ?wq) w3 = Some w4 \<and> submit_done c k (take 1 ?wq) w3 w4"
      proof (cases ?wq)
        case Nil
        then show ?thesis using w3(2) by (auto simp: submit_done_def intro: exI [of _ 0])
      next
        case (Cons x xs)
        have xs: "rpc w3 y = rpc w y" if "y \<in> set xs" for y
        proof -
          have "y \<noteq> t" "y \<noteq> x" using that ntq Cons flows_distinct [OF inv1, of k] w1(3) by auto
          then show ?thesis using w3(4) same2 [of y] Cons by simp
        qed
        have x: "crp_refcount (rpc w3 x) = crp_refcount (rpc w x) + (if crp_in_binheap (rpc w3 x) then 1 else 0)"
          using w3(7) Cons same2 [of x] ntq by auto
        show ?thesis
        proof (rule less.hyps [OF _ w3(2)])
          show "length (snd (flows c w3 k)) < length ?wq" by (simp add: f3 Cons)
          show "take 1 ?wq = [] \<or> (\<exists>t. take 1 ?wq = [t] \<and> t \<in> set (fst (flows c w3 k)))" by (simp add: f3 Cons)
          show "\<forall>t \<in> set (take 1 ?wq). crp_refcount (rpc w3 t) + 1 \<noteq> 0"
            using less.prems(4) x by (auto simp: Cons add.assoc)
          show "\<forall>t \<in> set (snd (flows c w3 k)). crp_refcount (rpc w3 t) + 1 \<noteq> 0 \<and> crp_refcount (rpc w3 t) + 2 \<noteq> 0"
            using less.prems(4) xs by (simp add: f3 Cons)
        qed
      qed
      then obtain w4 where w4: "resubmit env (take 1 ?wq) w3 = Some w4" "submit_done c k (take 1 ?wq) w3 w4" by blast
      have ok4: "ctx_ok c w4" and fl4: "\<And>j. j \<noteq> k \<Longrightarrow> flows c w4 j = flows c w j"
        using w4(2) by (auto simp: submit_done_def f3)
      obtain n where n: "snd (flows c w4 k) = drop n (drop 1 ?wq)" using w4(2) by (auto simp: submit_done_def f3)
      have sub4: "set (fst (flows c w4 k)) \<subseteq> set (remove1 t (fst (flows c w k))) \<union> set ?wq"
        using w4(2) by (auto simp: submit_done_def f3 dest: in_set_takeD in_set_dropD)
      have t4: "rpc w4 t = rpc w3 t"
        using w4(2) ntq by (auto simp: submit_done_def f3 dest: in_set_takeD in_set_dropD)
      have nt4: "t \<notin> set (fst (flows c w4 j))" "t \<notin> set (snd (flows c w4 j))" for j
        using sub4 n ntq d fl4 [of j] in_queue_unique [OF inv1, of t k j] t1 w1(3)
        by (cases "j = k"; auto simp: set_remove1_eq dest: in_set_dropD)+
      have nq4: "\<not> in_queue c w4 t" using nt4 by (simp add: in_queue_def)
      have h4: "\<not> crp_in_binheap (rpc w4 t)" "crp_refcount (rpc w4 t) \<noteq> 0" using w3(5) rf3 t4 by simp_all
      obtain w5 w6 where w6: "crt_rpc_complete env t rc w4 = Some w5" "RPC_DECREF t w5 = Some w6" "ctx_ok c w6"
        "flows c w6 = flows c w4" "\<forall>q. q \<noteq> t \<longrightarrow> rpc w6 q = rpc w4 q"
        by (rule complete_release [OF q ok4 nq4 h4])
      have "resubmit env sub w = Some w6"
        by (subst resubmit.simps) (simp add: t(1) w1(1) rc add add2 w3(1) w4(1) [simplified] w6(1,2))
      moreover have "submit_done c k sub w w6"
      proof -
        have "rpc w6 x = rpc w x" if "x \<notin> set sub" "x \<notin> set ?wq" for x
        proof -
          have "rpc w4 x = rpc w3 x" using w4(2) that by (auto simp: submit_done_def f3 dest: in_set_takeD in_set_dropD)
          moreover have "rpc w3 x = rpc w x" using w3(4) same2 [of x] that t(1) by (auto dest: in_set_takeD)
          ultimately show ?thesis using w6(5) that t(1) by simp
        qed
        moreover have "\<exists>m. snd (flows c w6 k) = drop m ?wq" using n w6(4) by (metis drop_drop)
        moreover have "set (fst (flows c w6 k)) \<subseteq> set (fst (flows c w k)) \<union> set ?wq"
          using sub4 w6(4) notin_set_remove1 by fastforce
        ultimately show ?thesis using w6(3,4) fl4 by (simp add: submit_done_def)
      qed
      ultimately show ?thesis by blast
    qed
  qed
qed

section \<open>Properties\<close>

text \<open>Between operations a rank has at most as many requests in flight as credits, and none waits in vain.\<close>

lemma ctx_ok_credits:
  assumes "ctx_ok c w"
  shows "cg_credit_ep_ctx w \<noteq> 0 \<longrightarrow> int (length (fst (flows c w k))) \<le> uint (cg_credit_ep_ctx w)"
    and "snd (flows c w k) \<noteq> [] \<longrightarrow> no_credit (uint (cg_credit_ep_ctx w)) (flows c w k)"
proof -
  have inv: "ctx_inv c w" using assms by (simp add: ctx_ok_def)
  have "flow_ok c e w" if "epi_of c w k = Some e" for e
    using that ctx_invD(5) [OF inv] epi_of_iff [OF inv] by blast
  then have "counts_ok (uint (cg_credit_ep_ctx w)) (ep w e)" if "epi_of c w k = Some e" for e
    using that by (simp add: flow_ok_def)
  then show "cg_credit_ep_ctx w \<noteq> 0 \<longrightarrow> int (length (fst (flows c w k))) \<le> uint (cg_credit_ep_ctx w)"
    "snd (flows c w k) \<noteq> [] \<longrightarrow> no_credit (uint (cg_credit_ep_ctx w)) (flows c w k)"
    by (auto simp: flows_def no_credit_def counts_ok_def uint_0_iff split: option.split)
qed

text \<open>
  Property C20. \<open>crt_context_req_track\<close> implements the queues of flow control. From a well-formed context and
  for a new request, no assertion fails and the context is well formed again. If the function
  reports the request as in flight or as waiting, the queues of the target rank change as the
  specification says (into flight exactly if a credit is free, else to the back of the wait queue,
  or to the front for an operation code that asks for it), a request in flight has a timeout and a
  waiting one has none; otherwise the queues are as before, and the error is a failed allocation or the
  failed initialisation of a mutex. Requests of other descriptors are untouched, and with
  memory available the call succeeds.
\<close>

theorem track_refines_flow:
  assumes "ctx_ok c w" "cr_ctx (rpc w r) = Some c" "cr_opc (rpc w r) \<noteq> CRT_OPC_URI_LOOKUP"
    and "\<not> crp_ctx_tracked (rpc w r)" "\<not> crp_in_binheap (rpc w r)"
    and "0 < crp_refcount (rpc w r)" "crp_refcount (rpc w r) < - 2" "mutex_rc env \<noteq> CRT_REQ_TRACK_IN_WAITQ"
    and "k = primary_rank env (rpc w r)" "cr = uint (cg_credit_ep_ctx w)"
  shows "\<exists>rc w'. crt_context_req_track env r w = Some (rc, w') \<and> ctx_ok c w'
    \<and> (if rc \<in> {CRT_REQ_TRACK_IN_INFLIGHQ, CRT_REQ_TRACK_IN_WAITQ}
       then flows c w' = (flows c w)(k := flow_track cr (coi_queue_front (crp_opc_info (rpc w r))) r (flows c w k))
         \<and> (rc = CRT_REQ_TRACK_IN_WAITQ \<longleftrightarrow> no_credit cr (flows c w k))
       else flows c w' = flows c w \<and> rc \<in> {DER_NOMEM, mutex_rc env})
    \<and> (crp_in_binheap (rpc w' r) \<longleftrightarrow> rc = CRT_REQ_TRACK_IN_INFLIGHQ)
    \<and> (\<forall>q. q \<noteq> r \<longrightarrow> rpc w' q = rpc w q)
    \<and> ((\<forall>k. ok w k) \<and> length (heap_nodes (theap w c)) < DBH_MAX \<and> mutex_rc env = DER_SUCCESS
       \<longrightarrow> rc \<in> {CRT_REQ_TRACK_IN_WAITQ, CRT_REQ_TRACK_IN_INFLIGHQ})"
proof -
  have ref: "crp_refcount (rpc w r) \<noteq> 0" "crp_refcount (rpc w r) + 1 \<noteq> 0" "crp_refcount (rpc w r) + 2 \<noteq> 0"
    using assms(6,7) by (auto simp: eq_neg_iff_add_eq_0 [symmetric])
  obtain rc w' where t: "crt_context_req_track env r w = Some (rc, w')" "ctx_ok c w'"
    "\<forall>q. q \<noteq> r \<longrightarrow> rpc w' q = rpc w q"
    "rc = CRT_REQ_TRACK_IN_WAITQ \<longrightarrow> no_credit cr (flows c w k)"
    "rc = CRT_REQ_TRACK_IN_INFLIGHQ \<longrightarrow> \<not> no_credit cr (flows c w k)"
    "rc \<in> {CRT_REQ_TRACK_IN_WAITQ, CRT_REQ_TRACK_IN_INFLIGHQ, DER_NOMEM, mutex_rc env}"
    "flows c w' = (if rc \<in> {CRT_REQ_TRACK_IN_WAITQ, CRT_REQ_TRACK_IN_INFLIGHQ}
       then (flows c w)(k := flow_track cr (coi_queue_front (crp_opc_info (rpc w r))) r (flows c w k)) else flows c w)"
    "crp_in_binheap (rpc w' r) \<longleftrightarrow> rc = CRT_REQ_TRACK_IN_INFLIGHQ"
    "rc = CRT_REQ_TRACK_IN_WAITQ \<longrightarrow> crp_state (rpc w' r) = RPC_STATE_QUEUED"
    "(\<forall>k. ok w k) \<and> length (heap_nodes (theap w c)) < DBH_MAX \<and> mutex_rc env = DER_SUCCESS
       \<longrightarrow> rc \<in> {CRT_REQ_TRACK_IN_WAITQ, CRT_REQ_TRACK_IN_INFLIGHQ}"
    unfolding assms(9,10) by (rule track_exact_flows [OF assms(1-5) ref assms(8)])
  show ?thesis
    by (rule exI [of _ rc], rule exI [of _ w']) (use t in auto)
qed

text \<open>An environment whose callbacks do nothing and in which no request can be sent.\<close>

definition demo_env :: crt_env where
  "demo_env =
     \<lparr>complete_cb = (\<lambda>_ _ w. Some w), timeout_cb = (\<lambda>_ _ w. Some w), prog_cb = (\<lambda>_ _ w. Some w),
      send_internal = (\<lambda>_ w. Some (DER_HG, w)), primary_rank = ep_rank, rank_present = (\<lambda>_. True),
      grp_ctx_invalid = (\<lambda>_ _. DER_SUCCESS), hg_cancel_ok = (\<lambda>_ _. True), hg_ctx_init = (\<lambda>_ _. DER_SUCCESS),
      hg_ctx_fini = (\<lambda>_ _. DER_SUCCESS), hg_progress = (\<lambda>_ _ w. Some (DER_SUCCESS, w)), mutex_rc = DER_SUCCESS\<rparr>"

lemma demo_ctx_ok: "ctx_ok 0 demo_world" "flows 0 demo_world k = ([], [])"
proof -
  have l: "epit.links (etable demo_world 0) = {}"
    by (simp add: epit.links_def demo_world_def empty_epi_table_def)
  have "epit.table_ok (etable demo_world 0) (epis demo_world)"
    by (rule epit.table_okI [where bs = "replicate 8 []"])
      (use l in \<open>auto simp: demo_world_def empty_epi_table_def CRT_EPI_TABLE_BITS_def ephemeral_def
         D_HASH_FT_NOLOCK_def D_HASH_FT_EPHEMERAL_def\<close>)
  then show "ctx_ok 0 demo_world" using demo_timeouts_ok(1) l by (simp add: ctx_ok_def ctx_inv_def)
  have "epi_of 0 demo_world k = None" by (simp add: epit.table_map_None l)
  then show "flows 0 demo_world k = ([], [])" by (simp add: flows_def)
qed

theorem track_refines_flow_witness:
  "\<exists>w'. crt_context_req_track demo_env 9 demo_world = Some (CRT_REQ_TRACK_IN_INFLIGHQ, w') \<and> ctx_ok 0 w'
    \<and> flows 0 w' 3 = ([9], [])"
proof -
  have p: "cr_ctx (rpc demo_world 9) = Some 0" "cr_opc (rpc demo_world 9) \<noteq> CRT_OPC_URI_LOOKUP"
    "\<not> crp_ctx_tracked (rpc demo_world 9)" "\<not> crp_in_binheap (rpc demo_world 9)"
    "0 < crp_refcount (rpc demo_world 9)" "crp_refcount (rpc demo_world 9) < - 2"
    "mutex_rc demo_env \<noteq> CRT_REQ_TRACK_IN_WAITQ" "3 = primary_rank demo_env (rpc demo_world 9)"
    "1 = uint (cg_credit_ep_ctx demo_world)"
    by (simp_all add: demo_world_def demo_rpc_def CRT_OPC_URI_LOOKUP_def demo_env_def CRT_REQ_TRACK_IN_WAITQ_def)
  have h: "\<forall>k. ok demo_world k" "length (heap_nodes (theap demo_world 0)) < DBH_MAX" "mutex_rc demo_env = DER_SUCCESS"
    by (simp_all add: demo_world_def heap57_nodes DBH_MAX_def demo_env_def)
  let ?S = "{CRT_REQ_TRACK_IN_INFLIGHQ, CRT_REQ_TRACK_IN_WAITQ}"
  obtain rc w' where t: "crt_context_req_track demo_env 9 demo_world = Some (rc, w')" "ctx_ok 0 w'"
    "if rc \<in> ?S then flows 0 w' = (flows 0 demo_world)(3 := flow_track 1 (coi_queue_front (crp_opc_info (rpc demo_world 9))) 9
         (flows 0 demo_world 3)) \<and> (rc = CRT_REQ_TRACK_IN_WAITQ \<longleftrightarrow> no_credit 1 (flows 0 demo_world 3))
     else flows 0 w' = flows 0 demo_world \<and> rc \<in> {DER_NOMEM, mutex_rc demo_env}"
    "(\<forall>k. ok demo_world k) \<and> length (heap_nodes (theap demo_world 0)) < DBH_MAX \<and> mutex_rc demo_env = DER_SUCCESS
       \<longrightarrow> rc \<in> {CRT_REQ_TRACK_IN_WAITQ, CRT_REQ_TRACK_IN_INFLIGHQ}"
    using track_refines_flow [OF demo_ctx_ok(1) p] by blast
  have rc: "rc \<in> ?S" using t(4) h by auto
  have f: "flows 0 w' 3 = ([9], [])" "rc \<noteq> CRT_REQ_TRACK_IN_WAITQ"
    using t(3) unfolding if_P [OF rc] by (simp_all add: demo_ctx_ok(2) no_credit_def flow_track_def)
  show ?thesis using t(1,2) rc f by auto
qed

text \<open>
  Property C21. Untracking implements the queues of flow control. From a well-formed context, for a request in
  flight in one of the states the function allows: no assertion fails, the request leaves its queue and
  the timeout heap and loses the references it had there (and is released if these were the
  last ones), the first waiting request of the rank takes its place and is handed out for
  submission, in state \<open>RPC_STATE_INITED\<close>, no other descriptor changes and the context is well formed
  again: the number of requests in flight stays within the credits, and requests wait only while all
  credits are used.
\<close>

theorem untrack_refines_flow:
  assumes "ctx_ok c w" "r \<in> set (fst (flows c w k))" "untrack_state (crp_state (rpc w r))"
    and "\<forall>t \<in> set (take 1 (snd (flows c w k))). crp_refcount (rpc w t) < - 1"
  shows "\<exists>w'. untrack_locked r w = Some (take 1 (snd (flows c w k)), w') \<and> ctx_ok c w'
    \<and> flows c w' = (flows c w)(k := flow_untrack r (flows c w k))
    \<and> (\<forall>t \<in> set (take 1 (snd (flows c w k))). crp_state (rpc w' t) = RPC_STATE_INITED)
    \<and> \<not> crp_in_binheap (rpc w' r)
    \<and> crp_refcount (rpc w' r) = crp_refcount (rpc w r) - 1 - (if crp_in_binheap (rpc w r) then 1 else 0)
    \<and> destroyed w' = (if crp_refcount (rpc w' r) = 0 then r # destroyed w else destroyed w)
    \<and> (\<forall>q. q \<noteq> r \<and> q \<notin> set (take 1 (snd (flows c w k))) \<longrightarrow> rpc w' q = rpc w q)
    \<and> (cg_credit_ep_ctx w' \<noteq> 0 \<longrightarrow> int (length (fst (flows c w' k))) \<le> uint (cg_credit_ep_ctx w'))
    \<and> (snd (flows c w' k) \<noteq> [] \<longrightarrow> no_credit (uint (cg_credit_ep_ctx w')) (flows c w' k))"
proof -
  have ref: "\<forall>t \<in> set (take 1 (snd (flows c w k))). crp_refcount (rpc w t) + 1 \<noteq> 0"
    using assms(4) by (auto simp: eq_neg_iff_add_eq_0 [symmetric])
  obtain w' where u: "untrack_locked r w = Some (take 1 (snd (flows c w k)), w')" "ctx_ok c w'"
    "flows c w' = (flows c w)(k := flow_untrack r (flows c w k))"
    "\<forall>q. q \<noteq> r \<and> q \<notin> set (take 1 (snd (flows c w k))) \<longrightarrow> rpc w' q = rpc w q"
    "\<not> crp_in_binheap (rpc w' r)"
    "crp_refcount (rpc w' r) = crp_refcount (rpc w r) - 1 - (if crp_in_binheap (rpc w r) then 1 else 0)"
    "destroyed w' = (if crp_refcount (rpc w' r) = 0 then r # destroyed w else destroyed w)"
    "\<forall>t \<in> set (take 1 (snd (flows c w k))). crp_state (rpc w' t) = RPC_STATE_INITED
       \<and> crp_refcount (rpc w' t) = crp_refcount (rpc w t) + (if crp_in_binheap (rpc w' t) then 1 else 0)"
    by (rule untrack_exact_flows [OF assms(1-3) ref]) rule
  show ?thesis by (rule exI [of _ w']) (use u ctx_ok_credits [OF u(2), of k] in auto)
qed

text \<open>Rank 3 has request 5 in flight, answered, and request 9 waiting, with one credit.\<close>

definition demo_flow_world :: crt_world where
  "demo_flow_world = demo_world
     \<lparr>rpcs := (rpcs demo_world)
        (5 := (rpcs demo_world 5)\<lparr>crp_state := RPC_STATE_COMPLETED, crp_ctx_tracked := True, crp_epi := Some 0\<rparr>,
         9 := (rpcs demo_world 9)\<lparr>crp_state := RPC_STATE_QUEUED, crp_ctx_tracked := True, crp_epi := Some 0\<rparr>),
      epis := upd_epi 0 (\<lambda>_. (new_ep 3 0)\<lparr>epi_req_q := [5], epi_req_num := 1, epi_req_waitq := [9], epi_req_wait_num := 1\<rparr>)
        (epis demo_world),
      ctxs := (ctxs demo_world)(0 := (ctxs demo_world 0)\<lparr>cc_epi_table := empty_epi_table\<lparr>ht_buckets :=
        Some ((replicate 8 [])[3 := [0]])\<rparr>\<rparr>),
      new_epi := 1\<rparr>"

lemma demo_flow_ok: "ctx_ok 0 demo_flow_world" "flows 0 demo_flow_world 3 = ([5], [9])"
proof -
  let ?w = demo_flow_world
  have t: "etable ?w 0 = empty_epi_table\<lparr>ht_buckets := Some ((replicate 8 [])[3 := [0]])\<rparr>" by (simp add: demo_flow_world_def)
  have l: "epit.links (etable ?w 0) = {0}"
    by (simp add: epit.links_def t numeral_eq_Suc)
  have e: "ep ?w 0 = (new_ep 3 0)\<lparr>epi_req_q := [5], epi_req_num := 1, epi_req_waitq := [9], epi_req_wait_num := 1\<rparr>"
    by (simp add: demo_flow_world_def upd_epi_def)
  have slot: "slot_of 3 (epi_slot 3) = 3"
    by (simp add: slot_of_def epi_slot_def CRT_EPI_TABLE_BITS_def)
  have tab: "epit.table_ok (etable ?w 0) (epis ?w)"
  proof (rule epit.table_okI [where bs = "(replicate 8 [])[3 := [0]]"])
    fix i and r :: nat
    assume "i < length ((replicate 8 [])[3 := [0 :: nat]])" "r \<in> set ((replicate 8 [])[3 := [0]] ! i)"
    then have "i = 3 \<and> r = 0" by (cases "i = 3") (auto simp: nth_list_update)
    then show "slot_of (ht_bits (etable ?w 0)) (epi_slot (erank (epis ?w) r)) = i"
      using slot e by (simp add: t empty_epi_table_def CRT_EPI_TABLE_BITS_def new_ep_def)
  qed (use l e in \<open>auto simp: t empty_epi_table_def CRT_EPI_TABLE_BITS_def ephemeral_def D_HASH_FT_NOLOCK_def
        D_HASH_FT_EPHEMERAL_def new_ep_def\<close>)
  have th: "timeouts_ok 0 ?w"
    by (rule timeouts_ok_cong [OF demo_timeouts_ok(1)])
      (use timeouts_okD(4) [OF demo_timeouts_ok(1)] in \<open>auto simp: demo_flow_world_def\<close>)
  have "flow_ok 0 0 ?w"
    by (auto simp: flow_ok_def e counts_ok_def queued_ok_def new_ep_def)
      (auto simp: demo_flow_world_def demo_world_def demo_rpc_def CRT_OPC_URI_LOOKUP_def)
  then show ok: "ctx_ok 0 ?w"
    using tab th l by (simp add: ctx_ok_def ctx_inv_def e new_ep_def) (simp add: demo_flow_world_def)
  have "epi_of 0 ?w 3 = Some 0"
    using epi_of_iff [of 0 ?w 3 0] ok l e by (simp add: ctx_ok_def new_ep_def)
  then show "flows 0 ?w 3 = ([5], [9])" by (simp add: flows_def e new_ep_def)
qed

lemma demo_flow_rpcs:
  "untrack_state (crp_state (rpc demo_flow_world 5))" "crp_refcount (rpc demo_flow_world 9) = 2"
  by (simp_all add: demo_flow_world_def demo_world_def demo_rpc_def untrack_state_def)

theorem untrack_refines_flow_witness:
  "\<exists>w'. untrack_locked 5 demo_flow_world = Some ([9], w') \<and> ctx_ok 0 w' \<and> flows 0 w' 3 = ([9], [])
    \<and> crp_state (rpc w' 9) = RPC_STATE_INITED"
  using untrack_refines_flow [OF demo_flow_ok(1), of 5 3]
  by (auto simp: demo_flow_ok(2) demo_flow_rpcs flow_untrack_def)



end
