(* ===== verification/Ctx_Life.thy ===== *)
theory Ctx_Life
  imports Ctx_Track
begin

text \<open>
  The rest of \<^verbatim>\<open>src/cart/crt_context.c\<close>: handling expired requests, making progress, aborting the requests
  of an endpoint, creating, flushing and destroying contexts, looking them up and registering
  callbacks. Loops over a queue or a list of callbacks run over its entries at the start of the loop, as
  the macros of \<^verbatim>\<open>gurt/list.h\<close> do as long as the body leaves the entries ahead alone.
\<close>

section \<open>Expired requests\<close>

fun each :: "('a \<Rightarrow> crt_world \<Rightarrow> crt_world option) \<Rightarrow> 'a list \<Rightarrow> crt_world \<Rightarrow> crt_world option" where
  "each f [] w = Some w"
| "each f (x # xs) w = Option.bind (f x w) (each f xs)"

definition crt_exec_timeout_cb :: "crt_env \<Rightarrow> nat \<Rightarrow> crt_world \<Rightarrow> crt_world option" where
  "crt_exec_timeout_cb env r w =
     (if \<not> cpg_inited w then Some w else each (\<lambda>cb. timeout_cb env cb r) (cpg_timeout_cbs w) w)"

definition crt_req_timeout_reset :: "crt_env \<Rightarrow> nat \<Rightarrow> crt_world \<Rightarrow> (bool \<times> crt_world) option" where
  "crt_req_timeout_reset env r w =
     (if \<not> coi_reset_timer (crp_opc_info (rpc w r)) then Some (False, w)
      else if crp_state (rpc w r) = RPC_STATE_CANCELED \<or> crp_state (rpc w r) = RPC_STATE_COMPLETED
      then Some (False, w)
      else if \<not> rank_present env (rpc w r) then Some (False, w)
      else map_option (\<lambda>(rc, w). (rc = DER_SUCCESS, w)) (crt_req_timeout_track r (crt_set_timeout r w)))"

definition fail_unreach :: "crt_env \<Rightarrow> nat \<Rightarrow> crt_world \<Rightarrow> crt_world option" where
  "fail_unreach env r w =
     Option.bind (crt_context_req_untrack env r w) (\<lambda>w.
     Option.bind (crt_rpc_complete env r DER_UNREACH w) (RPC_DECREF r))"

definition crt_req_timeout_hdlr :: "crt_env \<Rightarrow> nat \<Rightarrow> crt_world \<Rightarrow> crt_world option" where
  "crt_req_timeout_hdlr env r w =
     Option.bind (crt_req_timeout_reset env r w) (\<lambda>(renewed, w).
       if renewed then Some w
       else if crp_state (rpc w r) = RPC_STATE_URI_LOOKUP then
         Option.bind (crp_ul_req (rpc w r)) (\<lambda>ul_req. map_option snd (crt_req_abort env (Some ul_req) w))
       else if crp_state (rpc w r) = RPC_STATE_ADDR_LOOKUP then fail_unreach env r w
       else if crp_state (rpc w r) = RPC_STATE_FWD_UNREACH then fail_unreach env r w
       else if crp_on_wire (rpc w r) then
         Option.bind (crt_req_abort env (Some r) w) (\<lambda>(rc, w).
           if rc \<noteq> DER_SUCCESS then crt_context_req_untrack env r w else Some w)
       else Some w)"

definition handle_expired :: "crt_env \<Rightarrow> nat \<Rightarrow> crt_world \<Rightarrow> crt_world option" where
  "handle_expired env r w =
     Option.bind (crt_exec_timeout_cb env r w) (\<lambda>w.
     Option.bind (crt_req_timeout_hdlr env r w) (RPC_DECREF r))"

definition crt_context_timeout_check :: "crt_env \<Rightarrow> nat \<Rightarrow> crt_world \<Rightarrow> crt_world option" where
  "crt_context_timeout_check env c w =
     (let (ts_now, w) = d_timeus_secdiff 0 w in
      Option.bind (timeout_loop c ts_now [] w) (\<lambda>(timeout_list, w). each (handle_expired env) timeout_list w))"

section \<open>Progress\<close>

definition CRT_SRV_CONTEXT_NUM :: int where "CRT_SRV_CONTEXT_NUM = 256"

definition crt_exec_progress_cb :: "crt_env \<Rightarrow> nat \<Rightarrow> crt_world \<Rightarrow> crt_world option" where
  "crt_exec_progress_cb env c w =
     (if \<not> cpg_inited w then Some w
      else if \<not> (0 \<le> cc_idx (ctx w c) \<and> cc_idx (ctx w c) < CRT_SRV_CONTEXT_NUM) then None
      else each (\<lambda>cb. prog_cb env cb c) (cpg_prog_cbs w (nat (cc_idx (ctx w c)))) w)"

text \<open>One round of \<open>crt_progress\<close>: expired requests, progress callbacks, one call of \<^verbatim>\<open>crt_hg_progress\<close>.\<close>

definition progress_round :: "crt_env \<Rightarrow> nat \<Rightarrow> int \<Rightarrow> crt_world \<Rightarrow> (rc \<times> crt_world) option" where
  "progress_round env c hg_timeout w =
     Option.bind (crt_context_timeout_check env c w) (\<lambda>w.
     Option.bind (crt_exec_progress_cb env c w) (hg_progress env c hg_timeout))"

text \<open>The result of a condition callback: positive, zero or a negative code.\<close>

datatype cond_result = COND_MET | COND_WAIT | COND_FAIL rc

type_synonym cond_cb = "crt_world \<Rightarrow> (cond_result \<times> crt_world) option"

partial_function (option) progress_loop ::
  "crt_env \<Rightarrow> nat \<Rightarrow> int \<Rightarrow> cond_cb \<Rightarrow> u64 \<Rightarrow> int \<Rightarrow> crt_world \<Rightarrow> (rc \<times> crt_world) option" where
  "progress_loop env c timeout cond end_ts hg_timeout w =
     Option.bind (progress_round env c hg_timeout w) (\<lambda>(rc, w).
       if rc \<noteq> DER_SUCCESS \<and> rc \<noteq> DER_TIMEDOUT then Some (DER_SUCCESS, w)
       else
         Option.bind (cond w) (\<lambda>(n, w).
           case n of
             COND_MET \<Rightarrow> Some (DER_SUCCESS, w)
           | COND_FAIL rc \<Rightarrow> Some (rc, w)
           | COND_WAIT \<Rightarrow>
               if timeout > 0 then
                 let (now, w) = d_timeus_secdiff 0 w in
                 if now \<ge> end_ts then Some (DER_TIMEDOUT, w)
                 else progress_loop env c timeout cond end_ts
                        (if end_ts - now > 1000 * 1000 then 1000 * 1000 else uint (end_ts - now)) w
               else progress_loop env c timeout cond end_ts hg_timeout w))"

definition progress_fast ::
  "crt_env \<Rightarrow> nat \<Rightarrow> int \<Rightarrow> cond_cb option \<Rightarrow> crt_world \<Rightarrow> (rc \<times> crt_world) option" where
  "progress_fast env c timeout cond w =
     Option.bind (progress_round env c timeout w) (\<lambda>(rc, w).
       if rc \<noteq> DER_SUCCESS \<and> rc \<noteq> DER_TIMEDOUT then Some (rc, w)
       else
         (case cond of
            None \<Rightarrow> Some (rc, w)
          | Some f \<Rightarrow>
              map_option (\<lambda>(ret, w). (case ret of COND_MET \<Rightarrow> DER_SUCCESS | COND_FAIL rc' \<Rightarrow> rc' | COND_WAIT \<Rightarrow> rc, w)) (f w)))"

definition crt_progress ::
  "crt_env \<Rightarrow> nat option \<Rightarrow> int \<Rightarrow> cond_cb option \<Rightarrow> crt_world \<Rightarrow> (rc \<times> crt_world) option" where
  "crt_progress env crt_ctx timeout cond w =
     (case crt_ctx of
        None \<Rightarrow> Some (DER_INVAL, w)
      | Some c \<Rightarrow>
          Option.bind (case cond of None \<Rightarrow> Some (COND_WAIT, w) | Some f \<Rightarrow> f w) (\<lambda>(n, w).
            case n of
              COND_MET \<Rightarrow> Some (DER_SUCCESS, w)
            | COND_FAIL rc \<Rightarrow> Some (rc, w)
            | COND_WAIT \<Rightarrow>
              (case cond of
                 None \<Rightarrow> progress_fast env c timeout None w
               | Some f \<Rightarrow>
                   if timeout = 0 then progress_fast env c timeout cond w
                   else if timeout < 0 then progress_loop env c timeout f 0 1000 w
                   else
                     let (now, w) = d_timeus_secdiff 0 w in
                     progress_loop env c timeout f (now + of_int timeout)
                       (if timeout > 1000 * 1000 then 1000 * 1000 else timeout) w)))"

section \<open>Aborting the requests of an endpoint\<close>

definition CRT_EPI_ABORT_FORCE :: nat where "CRT_EPI_ABORT_FORCE = 1"
definition CRT_EPI_ABORT_WAIT :: nat where "CRT_EPI_ABORT_WAIT = 2"
definition CRT_DEFAULT_TIMEOUT_US :: u64 where "CRT_DEFAULT_TIMEOUT_US = 60000000"

text \<open>A waiting request is taken out, completed as cancelled and released.\<close>

definition abort_waiting :: "crt_env \<Rightarrow> nat \<Rightarrow> nat \<Rightarrow> crt_world \<Rightarrow> crt_world option" where
  "abort_waiting env e r w =
     (if \<not> epi_req_wait_num (ep w e) > 0 then None
      else if crp_state (rpc w r) \<noteq> RPC_STATE_QUEUED then None
      else
        let w = upd_ep e (\<lambda>p. p\<lparr>epi_req_waitq := remove1 r (epi_req_waitq p),
                   epi_req_wait_num := epi_req_wait_num p - 1\<rparr>) w in
        Option.bind (crt_rpc_complete env r DER_CANCELED w) (RPC_DECREF r))"

definition abort_inflight :: "crt_env \<Rightarrow> nat \<Rightarrow> nat \<Rightarrow> crt_world \<Rightarrow> crt_world option" where
  "abort_inflight env e r w =
     (if \<not> epi_req_num (ep w e) > epi_reply_num (ep w e) then None
      else map_option snd (crt_req_abort env (Some r) w))"

definition queues_empty :: "crt_world \<Rightarrow> nat \<Rightarrow> bool" where
  "queues_empty w e \<longleftrightarrow> epi_req_waitq (ep w e) = [] \<and> epi_req_q (ep w e) = []"

partial_function (option) abort_wait_loop ::
  "crt_env \<Rightarrow> nat \<Rightarrow> nat \<Rightarrow> u64 \<Rightarrow> rc \<Rightarrow> crt_world \<Rightarrow> (rc \<times> crt_world) option" where
  "abort_wait_loop env c e ts_start rc w =
     (if queues_empty w e then Some (rc, w)
      else
        Option.bind (crt_progress env (Some c) 1 None w) (\<lambda>(rc, w).
          if rc \<noteq> DER_SUCCESS \<and> rc \<noteq> DER_TIMEDOUT then Some (rc, w)
          else
            let (ts_now, w) = d_timeus_secdiff 0 w in
            if ts_now - ts_start > 2 * CRT_DEFAULT_TIMEOUT_US then Some (DER_TIMEDOUT, w)
            else abort_wait_loop env c e ts_start rc w))"

definition crt_ctx_epi_abort :: "crt_env \<Rightarrow> nat \<Rightarrow> nat \<Rightarrow> crt_world \<Rightarrow> (rc \<times> crt_world) option" where
  "crt_ctx_epi_abort env flags e w =
     (let c = epi_ctx (ep w e) in
      if queues_empty w e then Some (DER_SUCCESS, w)
      else if flags AND CRT_EPI_ABORT_FORCE = 0 then Some (DER_BUSY, w)
      else
        Option.bind (each (abort_waiting env e) (epi_req_waitq (ep w e)) w) (\<lambda>w.
        Option.bind (each (abort_inflight env e) (epi_req_q (ep w e)) w) (\<lambda>w.
          let (ts_start, w) = d_timeus_secdiff 0 w in
          if flags AND CRT_EPI_ABORT_WAIT \<noteq> 0 then abort_wait_loop env c e ts_start DER_SUCCESS w
          else Some (DER_SUCCESS, w))))"

text \<open>\<^verbatim>\<open>d_hash_table_traverse\<close> over the records of a context with an operation that may fail an assertion.\<close>

definition traverse_epis ::
  "(nat \<Rightarrow> crt_world \<Rightarrow> (rc \<times> crt_world) option) \<Rightarrow> nat \<Rightarrow> crt_world \<Rightarrow> (rc \<times> crt_world) option" where
  "traverse_epis f c w =
     Option.bind
       (d_hash_table_traverse (etable w c)
          (Some (\<lambda>e s. case Option.bind s (f e) of None \<Rightarrow> (DER_MISC, None) | Some (rc, w) \<Rightarrow> (rc, Some w))) (Some w))
       (\<lambda>(rc, s). map_option (Pair rc) s)"

definition crt_context_ep_empty :: "nat \<Rightarrow> crt_world \<Rightarrow> bool option" where
  "crt_context_ep_empty c w =
     map_option (\<lambda>(rc, _). rc = DER_SUCCESS) (traverse_epis (\<lambda>e w. Some (crt_ep_empty (epis w) e, w)) c w)"

definition crt_ep_abort :: "crt_env \<Rightarrow> d_rank_t \<Rightarrow> crt_world \<Rightarrow> (rc \<times> crt_world) option" where
  "crt_ep_abort env rank w =
     (let visit = (\<lambda>c w.
            Option.bind (d_hash_rec_find (etable w c) (epis w) rank 4) (\<lambda>(rlink, m).
              let w = w\<lparr>epis := m\<rparr> in
              case rlink of
                None \<Rightarrow> Some (DER_SUCCESS, w)
              | Some e \<Rightarrow>
                  Option.bind (crt_ctx_epi_abort env CRT_EPI_ABORT_FORCE e w) (\<lambda>(rc, w).
                    map_option (\<lambda>(t, m). (rc, upd_ctx c (\<lambda>x. x\<lparr>cc_epi_table := t\<rparr>) (w\<lparr>epis := m\<rparr>)))
                      (d_hash_rec_decref (etable w c) (epis w) e))))
      in
      foldl (\<lambda>res c. Option.bind res (\<lambda>(rc, w). if rc \<noteq> DER_SUCCESS then Some (rc, w) else visit c w))
        (Some (DER_SUCCESS, w)) (cg_ctx_list w))"

section \<open>Flushing and destroying a context\<close>

definition CRT_SWIM_FLUSH_ATTEMPTS :: nat where "CRT_SWIM_FLUSH_ATTEMPTS = 10"
definition CRT_SWIM_RPC_TIMEOUT :: u64 where "CRT_SWIM_RPC_TIMEOUT = 1"

partial_function (option) flush_loop ::
  "crt_env \<Rightarrow> nat \<Rightarrow> u64 \<Rightarrow> u64 \<Rightarrow> u64 \<Rightarrow> crt_world \<Rightarrow> (rc \<times> u64 \<times> crt_world) option" where
  "flush_loop env c timeout ts_deadline ts_now w =
     Option.bind (crt_progress env (Some c) 1 None w) (\<lambda>(rc, w).
       if rc \<noteq> DER_SUCCESS \<and> rc \<noteq> DER_TIMEDOUT then Some (rc, ts_now, w)
       else
         Option.bind (crt_context_ep_empty c w) (\<lambda>idle.
           if idle then Some (DER_SUCCESS, ts_now, w)
           else if timeout = 0 then
             if ts_now \<le> ts_deadline then flush_loop env c timeout ts_deadline ts_now w else Some (rc, ts_now, w)
           else
             let (ts_now, w) = d_timeus_secdiff 0 w in
             if ts_now \<le> ts_deadline then flush_loop env c timeout ts_deadline ts_now w else Some (rc, ts_now, w)))"

definition crt_context_flush :: "crt_env \<Rightarrow> nat \<Rightarrow> u64 \<Rightarrow> crt_world \<Rightarrow> (rc \<times> crt_world) option" where
  "crt_context_flush env c timeout w =
     (let (ts_deadline, w) = (if timeout > 0 then d_timeus_secdiff (ucast timeout) w else (0, w)) in
      map_option (\<lambda>(rc, ts_now, w). (if timeout > 0 \<and> ts_now \<ge> ts_deadline then DER_TIMEDOUT else rc, w))
        (flush_loop env c timeout ts_deadline 0 w))"

text \<open>The attempts of \<open>crt_context_destroy\<close>; the result also says whether the loop ran to its end.\<close>

fun destroy_attempts :: "nat \<Rightarrow> crt_env \<Rightarrow> nat \<Rightarrow> nat \<Rightarrow> rc \<Rightarrow> crt_world \<Rightarrow> (bool \<times> rc \<times> crt_world) option" where
  "destroy_attempts 0 env c flags rc w = Some (True, rc, w)"
| "destroy_attempts (Suc n) env c flags rc w =
     Option.bind (traverse_epis (crt_ctx_epi_abort env flags) c w) (\<lambda>(rc, w).
       if rc = DER_SUCCESS then Some (False, rc, w)
       else
         Option.bind (crt_context_flush env c CRT_SWIM_RPC_TIMEOUT w) (\<lambda>(rc, w).
           destroy_attempts n env c flags rc w))"

definition crt_context_destroy ::
  "crt_env \<Rightarrow> nat option \<Rightarrow> bool \<Rightarrow> crt_world \<Rightarrow> (rc \<times> crt_world) option" where
  "crt_context_destroy env crt_ctx force w =
     (case crt_ctx of
        None \<Rightarrow> Some (DER_INVAL, w)
      | Some c \<Rightarrow>
          if \<not> cg_inited w then Some (DER_UNINIT, w)
          else if grp_ctx_invalid env c w \<noteq> DER_SUCCESS \<and> \<not> force then Some (grp_ctx_invalid env c w, w)
          else
            let flags = (if force then CRT_EPI_ABORT_FORCE OR CRT_EPI_ABORT_WAIT else 0) in
            Option.bind (destroy_attempts CRT_SWIM_FLUSH_ATTEMPTS env c flags DER_SUCCESS w) (\<lambda>(all, rc, w).
              if \<not> force \<and> rc \<noteq> DER_SUCCESS \<and> all then Some (rc, w)
              else
                Option.bind (d_hash_table_destroy_inplace (etable w c) (epis w) True) (\<lambda>(rc, t, m).
                  let w = upd_ctx c (\<lambda>x. x\<lparr>cc_epi_table := t\<rparr>) (w\<lparr>epis := m\<rparr>) in
                  if rc \<noteq> DER_SUCCESS \<and> \<not> force then Some (rc, w)
                  else
                    Option.bind (d_binheap_destroy_inplace (theap w c)) (\<lambda>(_, h).
                      let w = upd_ctx c (\<lambda>x. x\<lparr>cc_bh_timeout := h\<rparr>) w; rc = hg_ctx_fini env c w in
                      if rc \<noteq> DER_SUCCESS then Some (rc, w)
                      else Some (rc, w\<lparr>cg_ctx_num := cg_ctx_num w - 1, cg_ctx_list := remove1 c (cg_ctx_list w)\<rparr>)))))"

section \<open>Creating a context\<close>

definition CRT_DEFAULT_CREDITS_PER_EP_CTX :: nat where "CRT_DEFAULT_CREDITS_PER_EP_CTX = 32"

text \<open>The zeroed structure \<^verbatim>\<open>D_ALLOC_PTR\<close> returns.\<close>

definition zeroed_ctx :: crt_context where
  "zeroed_ctx =
     \<lparr>cc_idx = 0, cc_rpc_cb = None, cc_rpc_cb_arg = 0, cc_epi_table = zeroed_table,
      cc_bh_timeout = \<lparr>d_bh_nodes3 = [], d_bh_nodes2 = [], d_bh_nodes1 = [], d_bh_nodes_cnt = 0, d_bh_hwm = 0,
        chn_idx = (\<lambda>_. 0)\<rparr>,
      cc_timeout_sec = 0\<rparr>"

text \<open>The heap takes up to 12 allocations (four times three for 2048 nodes), the table one.\<close>

definition crt_context_init :: "crt_env \<Rightarrow> nat \<Rightarrow> crt_world \<Rightarrow> (rc \<times> crt_world) option" where
  "crt_context_init env c w =
     (if mutex_rc env \<noteq> DER_SUCCESS then Some (mutex_rc env, w)
      else
        let bh_node_cnt = CRT_DEFAULT_CREDITS_PER_EP_CTX * 64;
            al = (\<lambda>k. (ok w (nalloc w + 3 * k), ok w (nalloc w + 3 * k + 1), ok w (nalloc w + 3 * k + 2)))
        in
        Option.bind (d_binheap_create_inplace al DER_SUCCESS bh_node_cnt (Some (crt_timeout_bh_ops (rpcs w))) (Some (theap w c)))
          (\<lambda>(rc, hp).
             let w = (case hp of None \<Rightarrow> w | Some h \<Rightarrow> with_heap c h w)\<lparr>nalloc := nalloc w + 12\<rparr> in
             if rc \<noteq> DER_SUCCESS then Some (rc, w)
             else
               let (a, w) = alloc1 w in
               Option.bind
                 (d_hash_table_create_inplace a DER_SUCCESS D_HASH_FT_NOLOCK CRT_EPI_TABLE_BITS (Some epi_table_ops) (etable w c))
                 (\<lambda>(rc, t).
                    let w = upd_ctx c (\<lambda>x. x\<lparr>cc_epi_table := t\<rparr>) w in
                    if rc \<noteq> DER_SUCCESS then map_option (\<lambda>(_, h). (rc, with_heap c h w)) (d_binheap_destroy_inplace (theap w c))
                    else Some (rc, w))))"

text \<open>The second component of the result is what is stored through \<open>crt_ctx\<close>, if anything is.\<close>

definition crt_context_create :: "crt_env \<Rightarrow> bool \<Rightarrow> crt_world \<Rightarrow> (rc \<times> nat option \<times> crt_world) option" where
  "crt_context_create env crt_ctx_ok w =
     (if \<not> crt_ctx_ok then Some (DER_INVAL, None, w)
      else if cg_share_na w \<and> cg_ctx_num w \<ge> uint (cg_ctx_max_num w) then Some (DER_SUCCESS, None, w)
      else
        let (a, w) = alloc1 w in
        if \<not> a then Some (DER_NOMEM, None, w)
        else
          let c = new_ctx w; w = upd_ctx c (\<lambda>_. zeroed_ctx) (w\<lparr>new_ctx := c + 1\<rparr>) in
          Option.bind (crt_context_init env c w) (\<lambda>(rc, w).
            if rc \<noteq> DER_SUCCESS then Some (rc, None, w)
            else
              let rc = hg_ctx_init env (cg_ctx_num w) w in
              if rc \<noteq> DER_SUCCESS then map_option (\<lambda>(_, w). (rc, None, w)) (crt_context_destroy env (Some c) True w)
              else
                Some (rc, Some c, upd_ctx c (\<lambda>x. x\<lparr>cc_idx := cg_ctx_num w\<rparr>)
                  (w\<lparr>cg_ctx_list := cg_ctx_list w @ [c], cg_ctx_num := cg_ctx_num w + 1\<rparr>))))"

section \<open>Lookup and registration\<close>

definition crt_context_register_rpc_task :: "nat option \<Rightarrow> nat option \<Rightarrow> nat \<Rightarrow> crt_world \<Rightarrow> rc \<times> crt_world" where
  "crt_context_register_rpc_task crt_ctx process_cb arg w =
     (case crt_ctx of
        None \<Rightarrow> (DER_INVAL, w)
      | Some c \<Rightarrow>
          if process_cb = None then (DER_INVAL, w)
          else (DER_SUCCESS, upd_ctx c (\<lambda>x. x\<lparr>cc_rpc_cb := process_cb, cc_rpc_cb_arg := arg\<rparr>) w))"

definition crt_context_lookup_locked :: "int \<Rightarrow> crt_world \<Rightarrow> nat option" where
  "crt_context_lookup_locked ctx_idx w = List.find (\<lambda>c. cc_idx (ctx w c) = ctx_idx) (cg_ctx_list w)"

definition crt_context_lookup :: "int \<Rightarrow> crt_world \<Rightarrow> nat option" where
  "crt_context_lookup ctx_idx w = List.find (\<lambda>c. cc_idx (ctx w c) = ctx_idx) (cg_ctx_list w)"

definition crt_context_idx :: "nat option \<Rightarrow> bool \<Rightarrow> crt_world \<Rightarrow> rc + int" where
  "crt_context_idx crt_ctx idx_ok w =
     (case crt_ctx of None \<Rightarrow> Inl DER_INVAL | Some c \<Rightarrow> if \<not> idx_ok then Inl DER_INVAL else Inr (cc_idx (ctx w c)))"

text \<open>\<open>get_addr\<close> is \<^verbatim>\<open>crt_hg_get_addr\<close> on the class of a context: a code and the address.\<close>

definition crt_self_uri_get ::
  "(nat \<Rightarrow> rc + string) \<Rightarrow> int \<Rightarrow> bool \<Rightarrow> crt_world \<Rightarrow> (rc + string) \<times> crt_world" where
  "crt_self_uri_get get_addr tag uri_ok w =
     (if \<not> uri_ok then (Inl DER_INVAL, w)
      else
        case crt_context_lookup tag w of
          None \<Rightarrow> (Inl DER_NONEXIST, w)
        | Some c \<Rightarrow>
            let (a, w) = alloc1 w in
            if \<not> a then (Inl DER_NOMEM, w)
            else (case get_addr c of Inl _ \<Rightarrow> (Inl DER_HG, w) | Inr uri \<Rightarrow> (Inr uri, w)))"

definition crt_context_num :: "bool \<Rightarrow> crt_world \<Rightarrow> rc + int" where
  "crt_context_num num_ok w = (if \<not> num_ok then Inl DER_INVAL else Inr (cg_ctx_num w))"

definition crt_context_empty :: "crt_world \<Rightarrow> bool" where
  "crt_context_empty w \<longleftrightarrow> cg_ctx_list w = []"

definition crt_register_progress_cb :: "nat \<Rightarrow> int \<Rightarrow> nat \<Rightarrow> crt_world \<Rightarrow> (rc \<times> crt_world) option" where
  "crt_register_progress_cb cb ctx_idx arg w =
     (if ctx_idx \<ge> CRT_SRV_CONTEXT_NUM then Some (DER_INVAL, w)
      else
        let (a, w) = alloc1 w in
        if \<not> a then Some (DER_NOMEM, w)
        else if ctx_idx < 0 then None
        else Some (DER_SUCCESS, w\<lparr>cpg_prog_cbs := (cpg_prog_cbs w)(nat ctx_idx := cpg_prog_cbs w (nat ctx_idx) @ [(cb, arg)])\<rparr>))"

definition crt_unregister_progress_cb :: "nat \<Rightarrow> int \<Rightarrow> nat \<Rightarrow> crt_world \<Rightarrow> (rc \<times> crt_world) option" where
  "crt_unregister_progress_cb cb ctx_idx arg w =
     (if ctx_idx \<ge> CRT_SRV_CONTEXT_NUM then Some (DER_INVAL, w)
      else if ctx_idx < 0 then None
      else if (cb, arg) \<in> set (cpg_prog_cbs w (nat ctx_idx))
      then Some (DER_SUCCESS, w\<lparr>cpg_prog_cbs := (cpg_prog_cbs w)(nat ctx_idx := remove1 (cb, arg) (cpg_prog_cbs w (nat ctx_idx)))\<rparr>)
      else Some (DER_NONEXIST, w))"

definition crt_register_timeout_cb :: "nat \<Rightarrow> nat \<Rightarrow> crt_world \<Rightarrow> rc \<times> crt_world" where
  "crt_register_timeout_cb cb arg w =
     (let (a, w) = alloc1 w in
      if \<not> a then (DER_NOMEM, w) else (DER_SUCCESS, w\<lparr>cpg_timeout_cbs := cpg_timeout_cbs w @ [(cb, arg)]\<rparr>))"

definition crt_context_set_timeout :: "nat option \<Rightarrow> u32 \<Rightarrow> crt_world \<Rightarrow> rc \<times> crt_world" where
  "crt_context_set_timeout crt_ctx timeout_sec w =
     (case crt_ctx of
        None \<Rightarrow> (DER_INVAL, w)
      | Some c \<Rightarrow>
          if timeout_sec = 0 then (DER_INVAL, w)
          else (DER_SUCCESS, upd_ctx c (\<lambda>x. x\<lparr>cc_timeout_sec := timeout_sec\<rparr>) w))"

section \<open>A new context\<close>

lemma create_init:
  assumes "mutex_rc env = DER_SUCCESS" "\<And>k. ok w k" "ctx w c = zeroed_ctx"
  obtains h where "crt_context_init env c w = Some (DER_SUCCESS,
      upd_ctx c (\<lambda>x. x\<lparr>cc_bh_timeout := h, cc_epi_table := empty_epi_table\<rparr>) (w\<lparr>nalloc := nalloc w + 13\<rparr>))"
    "binheap_inv (\<lambda>r. ts w r) h" "heap_nodes h = []"
proof -
  let ?al = "\<lambda>k. (ok w (nalloc w + 3 * k), ok w (nalloc w + 3 * k + 1), ok w (nalloc w + 3 * k + 2))"
  have ops: "hop_compare (crt_timeout_bh_ops (rpcs w)) = Some (timeout_bp_node_cmp (rpcs w))"
    by (simp add: crt_timeout_bh_ops_def)
  obtain rc h where h: "d_binheap_create_inplace ?al DER_SUCCESS 2048 (Some (crt_timeout_bh_ops (rpcs w))) (Some (theap w c)) = Some (rc, Some h)"
    "if rc = DER_SUCCESS then binheap_inv (\<lambda>r. ts w r) h \<and> heap_nodes h = [] \<and> 2048 \<le> d_bh_hwm h
     else (rc = DER_NOMEM \<or> rc = DER_SUCCESS) \<and> d_bh_hwm h = 0"
    "(\<forall>i. ?al i = (True, True, True)) \<and> 2048 \<le> DBH_MAX \<and> DER_SUCCESS = DER_SUCCESS \<longrightarrow> rc = DER_SUCCESS"
    using create_total [OF ops, of ?al DER_SUCCESS 2048 "theap w c" "\<lambda>r. ts w r"] by blast
  have rc: "rc = DER_SUCCESS" using h(3) assms(2) by (simp add: DBH_MAX_def)
  have e: "crt_context_init env c w = Some (DER_SUCCESS,
      upd_ctx c (\<lambda>x. x\<lparr>cc_bh_timeout := h, cc_epi_table := empty_epi_table\<rparr>) (w\<lparr>nalloc := nalloc w + 13\<rparr>))"
    using assms h(1) rc
    by (simp add: crt_context_init_def CRT_DEFAULT_CREDITS_PER_EP_CTX_def Let_def alloc1_def d_hash_table_create_inplace_def
        with_heap_def upd_ctx_def epi_table_ops_def)
      (simp add: zeroed_ctx_def zeroed_table_def empty_epi_table_def epi_table_ops_def CRT_EPI_TABLE_BITS_def)
  show thesis by (rule that [OF e]) (use h(2) rc in auto)
qed

lemma empty_table_ok: "epit.table_ok empty_epi_table m" "epit.links empty_epi_table = {}"
proof -
  show l: "epit.links empty_epi_table = {}" by (simp add: epit.links_def empty_epi_table_def)
  show "epit.table_ok empty_epi_table m"
    by (rule epit.table_okI [where bs = "replicate 8 []"])
      (use l in \<open>auto simp: empty_epi_table_def CRT_EPI_TABLE_BITS_def ephemeral_def
         D_HASH_FT_NOLOCK_def D_HASH_FT_EPHEMERAL_def\<close>)
qed



section \<open>Aborting\<close>

text \<open>A callback that returns and sends nothing.\<close>

definition cb_quiet :: "crt_env \<Rightarrow> nat \<Rightarrow> bool" where
  "cb_quiet env c \<longleftrightarrow> (\<forall>w t rc. ctx_ok c w \<longrightarrow>
     (\<exists>w'. complete_cb env t rc w = Some w' \<and> ctx_ok c w' \<and> flows c w' = flows c w \<and> rpcs w' = rpcs w \<and> epis w' = epis w
       \<and> etable w' c = etable w c))"

lemma complete_quiet:
  assumes q: "cb_quiet env c" and ok: "ctx_ok c w" and t: "\<And>k. t \<notin> set (snd (flows c w k))"
  obtains w' where "crt_rpc_complete env t rc w = Some w'" "ctx_ok c w'" "flows c w' = flows c w" "epis w' = epis w"
    "etable w' c = etable w c" "rpcs w' = (rpcs w)(t := (rpc w t)\<lparr>crp_state := state_of_rc rc\<rparr>)"
proof -
  let ?w = "upd_rpc t (\<lambda>p. p\<lparr>crp_state := state_of_rc rc\<rparr>) w"
  have a: "ctx_ok c ?w" "flows c ?w = flows c w" by (rule ctx_ok_upd_rpc [OF ok t]; simp)+
  show thesis
  proof (cases "crp_complete_cb (rpc w t)")
    case True
    obtain w1 where "complete_cb env t (if rc = DER_SUCCESS then crp_reply_rc (rpc ?w t) else rc) ?w = Some w1"
      "ctx_ok c w1" "flows c w1 = flows c ?w" "rpcs w1 = rpcs ?w" "epis w1 = epis ?w" "etable w1 c = etable ?w c"
      using q a(1) unfolding cb_quiet_def by blast
    then show thesis using that [of w1] True a(2) by (simp add: crt_rpc_complete_def Let_def)
  next
    case False
    then show thesis using that [of ?w] a by (simp add: crt_rpc_complete_def Let_def)
  qed
qed

lemma flow_epi:
  assumes "ctx_ok c w" "epi_of c w k = Some e"
  shows "flow_ok c e w" "flows c w k = (epi_req_q (ep w e), epi_req_waitq (ep w e))" "epi_ctx (ep w e) = c"
proof -
  have inv: "ctx_inv c w" using assms(1) by (simp add: ctx_ok_def)
  show "flow_ok c e w" "epi_ctx (ep w e) = c" using assms(2) ctx_invD(5) [OF inv] epi_of_iff [OF inv] by blast+
  show "flows c w k = (epi_req_q (ep w e), epi_req_waitq (ep w e))" by (simp add: flows_def assms(2))
qed

lemma abort_waiting_step:
  assumes q: "cb_quiet env c" and ok: "ctx_ok c w" and e: "epi_of c w k = Some e" and wq: "epi_req_waitq (ep w e) = r # rest"
  obtains w' where "abort_waiting env e r w = Some w'" "ctx_ok c w'" "epi_of c w' k = Some e"
    "flows c w' = (flows c w)(k := (fst (flows c w k), rest))"
    "rpcs w' = (rpcs w)(r := (rpc w r)\<lparr>crp_state := RPC_STATE_CANCELED, crp_refcount := crp_refcount (rpc w r) - 1\<rparr>)"
proof -
  note fe = flow_epi [OF ok e]
  have cnt: "counts_ok (uint (cg_credit_ep_ctx w)) (ep w e)" using fe(1) by (simp add: flow_ok_def)
  have r: "crp_state (rpc w r) = RPC_STATE_QUEUED" "\<not> crp_in_binheap (rpc w r)" "crp_refcount (rpc w r) \<noteq> 0"
    "crp_epi (rpc w r) = Some e"
    using fe(1) wq by (auto simp: flow_ok_def queued_ok_def)
  let ?g = "\<lambda>p :: crt_ep_inflight. p\<lparr>epi_req_waitq := remove1 r (epi_req_waitq p), epi_req_wait_num := epi_req_wait_num p - 1\<rparr>"
  let ?w1 = "upd_ep e ?g w"
  have e1: "ep ?w1 x = (if x = e then ?g (ep w e) else ep w x)" for x by (simp add: upd_epi_def)
  have inv: "ctx_inv c w" using ok by (simp add: ctx_ok_def)
  have th: "timeouts_ok c ?w1" by (rule timeouts_ok_same [OF ctx_invD(1) [OF inv]]) simp_all
  have f1: "flow_ok c e ?w1" using fe(1) wq cnt by (auto simp: flow_ok_def e1 [simplified] counts_ok_def)
  have ok1: "ctx_ok c ?w1" and fl1: "flows c ?w1 = (flows c w)(k := (epi_req_q (ep ?w1 e), epi_req_waitq (ep ?w1 e)))"
    by (rule ctx_ok_change [OF ok e _ _ _ th _ _ _ _ _ _ f1]; simp add: upd_epi_def)+
  have fl: "flows c ?w1 = (flows c w)(k := (fst (flows c w k), rest))" using fl1 wq fe(2) by (simp add: upd_epi_def)
  have inv1: "ctx_inv c ?w1" using ok1 by (simp add: ctx_ok_def)
  have ek: "epi_of c ?w1 k = Some e"
    using epi_of_iff [OF inv1, of k e] epi_of_iff [OF inv, of k e] e by (simp add: upd_epi_def)
  have d: "distinct (fst (flows c w k) @ r # rest)" using flows_distinct [OF inv, of k] fe(2) wq by simp
  have nq: "\<not> in_queue c ?w1 r"
  proof
    assume "in_queue c ?w1 r"
    then obtain j where j: "r \<in> set (fst (flows c ?w1 j)) \<or> r \<in> set (snd (flows c ?w1 j))" by (auto simp: in_queue_def)
    show False
    proof (cases "j = k")
      case True
      then show False using j d fl by auto
    next
      case False
      then have "r \<in> set (fst (flows c w j) @ snd (flows c w j))" using j fl by simp
      moreover have "r \<in> set (fst (flows c w k) @ snd (flows c w k))" using fe(2) wq by simp
      ultimately show False using in_queue_unique [OF inv] False by blast
    qed
  qed
  have nw: "r \<notin> set (snd (flows c ?w1 j))" for j using nq by (auto simp: in_queue_def)
  obtain w2 where w2: "crt_rpc_complete env r DER_CANCELED ?w1 = Some w2" "ctx_ok c w2" "flows c w2 = flows c ?w1"
    "epis w2 = epis ?w1" "etable w2 c = etable ?w1 c"
    "rpcs w2 = (rpcs ?w1)(r := (rpc ?w1 r)\<lparr>crp_state := state_of_rc DER_CANCELED\<rparr>)"
    by (rule complete_quiet [OF q ok1 nw])
  let ?f = "\<lambda>p :: crt_rpc_priv. p\<lparr>crp_refcount := crp_refcount p - 1\<rparr>"
  have nq2: "\<not> in_queue c w2 r" and nw2: "\<And>j. r \<notin> set (snd (flows c w2 j))" using nq nw w2(3) by (simp_all add: in_queue_def)
  have w3: "ctx_ok c (upd_rpc r ?f w2)" "flows c (upd_rpc r ?f w2) = flows c w2"
    by (rule ctx_ok_upd_rpc [OF w2(2) nw2]; use r(2) nq2 w2(6) in simp)+
  define w' where "w' = (if crp_refcount (rpc w r) - 1 = 0 then crt_req_destroy r (upd_rpc r ?f w2) else upd_rpc r ?f w2)"
  have dr: "RPC_DECREF r w2 = Some w'" using r(3) w2(6) by (simp add: RPC_DECREF_def w'_def Let_def)
  have p: "rpcs w' = rpcs (upd_rpc r ?f w2)" "epis w' = epis w2" "etable w' c = etable w2 c" "theap w' c = theap w2 c"
    "cg_credit_ep_ctx w' = cg_credit_ep_ctx w2" "new_epi w' = new_epi w2"
    by (simp_all add: w'_def crt_req_destroy_def)
  have ok': "ctx_ok c w'" "flows c w' = flows c w2"
    using w3 p by (auto simp: ctx_ok_def ctx_inv_def timeouts_ok_def flow_ok_def flows_def [abs_def] cong: option.case_cong)
  show thesis
  proof (rule that [OF _ ok'(1)])
    show "abort_waiting env e r w = Some w'"
      using cnt wq r(1) w2(1) dr by (simp add: abort_waiting_def counts_ok_def Let_def)
    show "epi_of c w' k = Some e" using ek by (simp add: p w2(4,5))
    show "flows c w' = (flows c w)(k := (fst (flows c w k), rest))" using ok'(2) w2(3) fl by simp
    show "rpcs w' = (rpcs w)(r := (rpc w r)\<lparr>crp_state := RPC_STATE_CANCELED, crp_refcount := crp_refcount (rpc w r) - 1\<rparr>)"
      by (simp add: p w2(6) state_of_rc_def)
  qed
qed

lemma abort_waiting_all:
  assumes q: "cb_quiet env c"
  shows "\<lbrakk>ctx_ok c w; epi_of c w k = Some e; epi_req_waitq (ep w e) = rs\<rbrakk> \<Longrightarrow>
    \<exists>w'. each (abort_waiting env e) rs w = Some w' \<and> ctx_ok c w' \<and> epi_of c w' k = Some e
      \<and> flows c w' = (flows c w)(k := (fst (flows c w k), []))
      \<and> rpcs w' = (\<lambda>r. if r \<in> set rs then (rpc w r)\<lparr>crp_state := RPC_STATE_CANCELED,
           crp_refcount := crp_refcount (rpc w r) - 1\<rparr> else rpc w r)"
proof (induction rs arbitrary: w)
  case Nil
  then show ?case using flow_epi(2) [OF Nil.prems(1,2)] by (auto simp: fun_eq_iff)
next
  case (Cons r rs)
  obtain w1 where w1: "abort_waiting env e r w = Some w1" "ctx_ok c w1" "epi_of c w1 k = Some e"
    "flows c w1 = (flows c w)(k := (fst (flows c w k), rs))"
    "rpcs w1 = (rpcs w)(r := (rpc w r)\<lparr>crp_state := RPC_STATE_CANCELED, crp_refcount := crp_refcount (rpc w r) - 1\<rparr>)"
    by (rule abort_waiting_step [OF q Cons.prems])
  have "epi_req_waitq (ep w1 e) = rs" using flow_epi(2) [OF w1(2,3)] w1(4) by simp
  from Cons.IH [OF w1(2,3) this] obtain w' where w': "each (abort_waiting env e) rs w1 = Some w'" "ctx_ok c w'"
    "epi_of c w' k = Some e" "flows c w' = (flows c w1)(k := (fst (flows c w1 k), []))"
    "rpcs w' = (\<lambda>r. if r \<in> set rs then (rpc w1 r)\<lparr>crp_state := RPC_STATE_CANCELED,
           crp_refcount := crp_refcount (rpc w1 r) - 1\<rparr> else rpc w1 r)"
    by blast
  have "ctx_inv c w" using Cons.prems(1) by (simp add: ctx_ok_def)
  from flows_distinct [OF this, of k] have "r \<notin> set rs"
    using flow_epi(2) [OF Cons.prems(1,2)] Cons.prems(3) by simp
  then have "rpcs w' = (\<lambda>q. if q \<in> set (r # rs) then (rpc w q)\<lparr>crp_state := RPC_STATE_CANCELED,
           crp_refcount := crp_refcount (rpc w q) - 1\<rparr> else rpc w q)"
    using w'(5) w1(5) by (auto simp: fun_eq_iff)
  then show ?case using w1(1,4) w'(1-4) by auto
qed

text \<open>What \<open>crt_req_abort\<close> does to the state of a request.\<close>

definition aborted :: "crt_rpc_priv \<Rightarrow> crt_rpc_priv \<Rightarrow> bool" where
  "aborted p p' \<longleftrightarrow> p' = p\<lparr>crp_state := crp_state p'\<rparr>
     \<and> (if crp_state p = RPC_STATE_CANCELED \<or> crp_state p = RPC_STATE_COMPLETED then crp_state p' = crp_state p
        else if crp_state p \<noteq> RPC_STATE_REQ_SENT \<or> \<not> crp_on_wire p then crp_state p' = RPC_STATE_CANCELED
        else crp_state p' = RPC_STATE_REQ_SENT \<or> crp_state p' = RPC_STATE_COMPLETED)"

lemma abort_quiet:
  assumes q: "cb_quiet env c" and ok: "ctx_ok c w" and e: "epi_of c w k = Some e" and t: "\<And>k. t \<notin> set (snd (flows c w k))"
  obtains rc w' where "crt_req_abort env (Some t) w = Some (rc, w')" "ctx_ok c w'" "flows c w' = flows c w"
    "epi_of c w' k = Some e" "\<forall>q. q \<noteq> t \<longrightarrow> rpc w' q = rpc w q" "aborted (rpc w t) (rpc w' t)"
proof -
  note fin = that
  have go: thesis if c: "crt_req_abort env (Some t) w = map_option (Pair rc) (crt_rpc_complete env t rc' w)"
    and s: "aborted (rpc w t) ((rpc w t)\<lparr>crp_state := state_of_rc rc'\<rparr>)" for rc rc'
  proof -
    obtain w' where w': "crt_rpc_complete env t rc' w = Some w'" "ctx_ok c w'" "flows c w' = flows c w" "epis w' = epis w"
      "etable w' c = etable w c" "rpcs w' = (rpcs w)(t := (rpc w t)\<lparr>crp_state := state_of_rc rc'\<rparr>)"
      by (rule complete_quiet [OF q ok t])
    show thesis by (rule fin [of rc w']) (use c s w' e in auto)
  qed
  have stay: thesis if "crt_req_abort env (Some t) w = Some (rc, w)" "aborted (rpc w t) (rpc w t)" for rc
    by (rule fin [of rc w]) (use ok e that in auto)
  let ?rc = "crt_hg_req_cancel env t w"
  have rc: "?rc \<in> {DER_SUCCESS, DER_INVAL, DER_HG}" by (simp add: crt_hg_req_cancel_def)
  consider (over) "crp_state (rpc w t) = RPC_STATE_CANCELED \<or> crp_state (rpc w t) = RPC_STATE_COMPLETED"
    | (early) "crp_state (rpc w t) \<notin> {RPC_STATE_CANCELED, RPC_STATE_COMPLETED}" "crp_state (rpc w t) \<noteq> RPC_STATE_REQ_SENT \<or> \<not> crp_on_wire (rpc w t)"
    | (wire) "crp_state (rpc w t) = RPC_STATE_REQ_SENT" "crp_on_wire (rpc w t)"
    by auto
  then show thesis
  proof cases
    case over
    then show thesis by (intro stay [of DER_ALREADY]) (auto simp: crt_req_abort_def aborted_def)
  next
    case early
    then show thesis by (intro go [of DER_SUCCESS DER_CANCELED]) (auto simp: crt_req_abort_def aborted_def state_of_rc_def)
  next
    case wire
    show thesis
    proof (cases "?rc = DER_SUCCESS")
      case True
      then show thesis using wire by (intro stay [of DER_SUCCESS]) (auto simp: crt_req_abort_def aborted_def)
    next
      case False
      then show thesis using wire rc by (intro go [of ?rc ?rc]) (auto simp: crt_req_abort_def aborted_def state_of_rc_def Let_def)
    qed
  qed
qed

lemma abort_inflight_all:
  assumes q: "cb_quiet env c"
  shows "\<lbrakk>ctx_ok c w; epi_of c w k = Some e; set rs \<subseteq> set (fst (flows c w k)); distinct rs\<rbrakk> \<Longrightarrow>
    \<exists>w'. each (abort_inflight env e) rs w = Some w' \<and> ctx_ok c w' \<and> epi_of c w' k = Some e \<and> flows c w' = flows c w
      \<and> (\<forall>r. r \<notin> set rs \<longrightarrow> rpc w' r = rpc w r) \<and> (\<forall>r \<in> set rs. aborted (rpc w r) (rpc w' r))"
proof (induction rs arbitrary: w)
  case Nil
  then show ?case by auto
next
  case (Cons r rs)
  have inv: "ctx_inv c w" using Cons.prems(1) by (simp add: ctx_ok_def)
  note fe = flow_epi [OF Cons.prems(1,2)]
  have r: "r \<in> set (fst (flows c w k))" using Cons.prems(3) by simp
  have nw: "r \<notin> set (snd (flows c w j))" for j
    using in_queue_unique [OF inv, of r k j] r flows_distinct [OF inv, of k] by auto
  have num: "epi_req_num (ep w e) > epi_reply_num (ep w e)"
    using fe r by (cases "epi_req_q (ep w e)") (auto simp: flow_ok_def counts_ok_def)
  obtain rc w1 where w1: "crt_req_abort env (Some r) w = Some (rc, w1)" "ctx_ok c w1" "flows c w1 = flows c w"
    "epi_of c w1 k = Some e" "\<forall>q. q \<noteq> r \<longrightarrow> rpc w1 q = rpc w q" "aborted (rpc w r) (rpc w1 r)"
    by (rule abort_quiet [OF q Cons.prems(1,2) nw])
  have sub: "set rs \<subseteq> set (fst (flows c w1 k))" "distinct rs" "r \<notin> set rs" using Cons.prems(3,4) w1(3) by auto
  from Cons.IH [OF w1(2,4) sub(1,2)] obtain w' where w': "each (abort_inflight env e) rs w1 = Some w'" "ctx_ok c w'"
    "epi_of c w' k = Some e" "flows c w' = flows c w1" "\<forall>r. r \<notin> set rs \<longrightarrow> rpc w' r = rpc w1 r"
    "\<forall>r \<in> set rs. aborted (rpc w1 r) (rpc w' r)"
    by blast
  have "aborted (rpc w x) (rpc w' x)" if "x \<in> set (r # rs)" for x
    using that w'(5,6) w1(5,6) sub(3) by (cases "x = r") auto
  moreover have "rpc w' x = rpc w x" if "x \<notin> set (r # rs)" for x using that w'(5) w1(5) by auto
  moreover have "abort_inflight env e r w = Some w1" using num w1(1) by (simp add: abort_inflight_def)
  ultimately show ?case using w1(3) w' by (intro exI [of _ w']) simp
qed


lemma demo_flow_epi: "epi_of 0 demo_flow_world 3 = Some 0"
proof (rule ccontr)
  assume "epi_of 0 demo_flow_world 3 \<noteq> Some 0"
  moreover have inv: "ctx_inv 0 demo_flow_world" using demo_flow_ok(1) by (simp add: ctx_ok_def)
  moreover have "0 \<in> epit.links (etable demo_flow_world 0)"
    by (simp add: epit.links_def demo_flow_world_def numeral_eq_Suc)
  moreover have "epi_rank (ep demo_flow_world 0) = 3"
    by (simp add: demo_flow_world_def upd_epi_def new_ep_def)
  ultimately show False using epi_of_iff [OF inv] by simp
qed


text \<open>
  Property C27. A request that waits for a credit cannot be cancelled cleanly: \<open>crt_req_abort\<close> completes it as cancelled but
  leaves it in the wait queue with its reference, and the abort of the endpoint that a forced
  destruction of the context performs then fails its assertion that every waiting request is in state
  \<open>RPC_STATE_QUEUED\<close>.
\<close>

theorem abort_queued_breaks_teardown:
  assumes "ctx_ok c w" "epi_of c w k = Some e" "snd (flows c w k) = r # rest"
    and "\<not> crp_complete_cb (rpc w r)"
  shows "\<exists>w'. crt_req_abort env (Some r) w = Some (DER_SUCCESS, w') \<and> crp_state (rpc w' r) = RPC_STATE_CANCELED
    \<and> flows c w' = flows c w \<and> crt_ctx_epi_abort env (CRT_EPI_ABORT_FORCE OR CRT_EPI_ABORT_WAIT) e w' = None"
proof -
  note fe = flow_epi [OF assms(1,2)]
  have wq: "epi_req_waitq (ep w e) = r # rest" using fe(2) assms(3) by simp
  have st: "crp_state (rpc w r) = RPC_STATE_QUEUED" using fe(1) wq by (simp add: flow_ok_def)
  let ?w' = "upd_rpc r (\<lambda>p. p\<lparr>crp_state := RPC_STATE_CANCELED\<rparr>) w"
  have a: "crt_req_abort env (Some r) w = Some (DER_SUCCESS, ?w')"
    using st assms(4) by (simp add: crt_req_abort_def crt_rpc_complete_def state_of_rc_def Let_def)
  have "abort_waiting env e r ?w' = None" by (simp add: abort_waiting_def)
  then have "crt_ctx_epi_abort env (CRT_EPI_ABORT_FORCE OR CRT_EPI_ABORT_WAIT) e ?w' = None"
    using wq by (simp add: crt_ctx_epi_abort_def queues_empty_def Let_def CRT_EPI_ABORT_FORCE_def CRT_EPI_ABORT_WAIT_def)
  moreover have "flows c ?w' = flows c w" by (simp add: flows_def [abs_def] cong: option.case_cong)
  ultimately show ?thesis using a by auto
qed

theorem abort_queued_breaks_teardown_witness:
  "\<exists>w'. crt_req_abort demo_env (Some 9) demo_flow_world = Some (DER_SUCCESS, w')
    \<and> crt_ctx_epi_abort demo_env (CRT_EPI_ABORT_FORCE OR CRT_EPI_ABORT_WAIT) 0 w' = None"
proof -
  have "\<not> crp_complete_cb (rpc demo_flow_world 9)" by (simp add: demo_flow_world_def demo_world_def demo_rpc_def)
  then show ?thesis
    using abort_queued_breaks_teardown [OF demo_flow_ok(1) demo_flow_epi, of 9 "[]"] demo_flow_ok(2) by auto
qed

end
