(* ===== verification/Swim_State.thy ===== *)
theory Swim_State
  imports Crt_Prelude
begin

text \<open>
  The state of the SWIM failure detector (\<^verbatim>\<open>src/swim/swim.c\<close>, \<^verbatim>\<open>src/swim/swim_internal.h\<close>,
  \<^verbatim>\<open>src/include/cart/swim.h\<close>) and the operations on one member: the message that is piggybacked with
  recent updates, the record of a new update, and the three transitions alive, suspect and dead.
  The callbacks of the group management layer are the fields of \<open>swim_ops\<close>; they act on the
  private data of the layer (\<open>sc_data\<close>), which stays a type variable here. A callback that reads
  the own identifier through \<open>swim_self_get\<close> receives it as an argument. The clock and the allocator
  are schedules: the value of the next call is fixed by the number of calls made before.
\<close>

section \<open>Types\<close>

type_synonym swim_id_t = u64

definition SWIM_ID_INVALID :: swim_id_t where
  "SWIM_ID_INVALID = - 1"

datatype swim_member_status =
  SWIM_MEMBER_ALIVE | SWIM_MEMBER_SUSPECT | SWIM_MEMBER_DEAD | SWIM_MEMBER_INACTIVE

record swim_member_state =
  sms_incarnation :: u64
  sms_status :: swim_member_status

record swim_member_update =
  smu_id :: swim_id_t
  smu_state :: swim_member_state

datatype swim_context_state =
  SCS_BEGIN | SCS_DPINGED | SCS_IPINGED | SCS_TIMEDOUT | SCS_ACKED | SCS_DEAD

text \<open>The union of a deadline and a transmission count is one 64-bit word, \<open>si_u\<close>.\<close>

record swim_item =
  si_id :: swim_id_t
  si_from :: swim_id_t
  si_u :: u64

record swim_context =
  sc_subgroup :: "swim_item list"
  sc_suspects :: "swim_item list"
  sc_updates :: "swim_item list"
  sc_ipings :: "swim_item list"
  sc_state :: swim_context_state
  sc_target :: swim_id_t
  sc_self :: swim_id_t
  sc_expect_progress_time :: u64
  sc_next_tick_time :: u64
  sc_dping_deadline :: u64
  sc_iping_deadline :: u64
  sc_piggyback_tx_max :: u64

text \<open>
  \<open>None\<close> as the result of a target selection is a failed assertion in the callback.
\<close>

record 'g swim_ops =
  send_message :: "swim_id_t \<Rightarrow> swim_id_t \<Rightarrow> swim_member_update list \<Rightarrow> 'g \<Rightarrow> rc \<times> 'g"
  get_dping_target :: "swim_id_t \<Rightarrow> 'g \<Rightarrow> (swim_id_t \<times> 'g) option"
  get_iping_target :: "swim_id_t \<Rightarrow> 'g \<Rightarrow> (swim_id_t \<times> 'g) option"
  get_member_state :: "swim_id_t \<Rightarrow> 'g \<Rightarrow> rc + swim_member_state"
  set_member_state :: "swim_id_t \<Rightarrow> swim_member_state \<Rightarrow> 'g \<Rightarrow> rc \<times> 'g"

record 'g swim_world =
  sw_ctx :: swim_context
  sw_data :: 'g
  swim_ping_timeout :: u64
  sw_clock :: "nat \<Rightarrow> u64"
  sw_nclock :: nat
  sw_alloc :: "nat \<Rightarrow> bool"
  sw_nalloc :: nat

section \<open>Protocol parameters\<close>

definition SWIM_PROTOCOL_PERIOD_LEN :: u64 where
  "SWIM_PROTOCOL_PERIOD_LEN = 2400"

definition SWIM_SUSPECT_TIMEOUT :: u64 where
  "SWIM_SUSPECT_TIMEOUT = 3 * SWIM_PROTOCOL_PERIOD_LEN"

definition SWIM_PING_TIMEOUT :: u64 where
  "SWIM_PING_TIMEOUT = 800"

definition SWIM_SUBGROUP_SIZE :: nat where
  "SWIM_SUBGROUP_SIZE = 2"

definition SWIM_PIGGYBACK_ENTRIES :: nat where
  "SWIM_PIGGYBACK_ENTRIES = 8"

definition SWIM_PIGGYBACK_TX_COUNT :: u64 where
  "SWIM_PIGGYBACK_TX_COUNT = 50"

section \<open>Accessors of the context\<close>

definition swim_self_get :: "swim_context option \<Rightarrow> swim_id_t" where
  "swim_self_get ctx = (case ctx of Some c \<Rightarrow> sc_self c | None \<Rightarrow> SWIM_ID_INVALID)"

definition swim_self_set :: "swim_context option \<Rightarrow> swim_id_t \<Rightarrow> swim_context option" where
  "swim_self_set ctx self_id = (case ctx of Some c \<Rightarrow> Some (c\<lparr>sc_self := self_id\<rparr>) | None \<Rightarrow> None)"

definition swim_state_get :: "swim_context \<Rightarrow> swim_context_state" where
  "swim_state_get ctx = sc_state ctx"

definition swim_state_set :: "swim_context \<Rightarrow> swim_context_state \<Rightarrow> swim_context" where
  "swim_state_set ctx st = (if sc_state ctx \<noteq> st then ctx\<lparr>sc_state := st\<rparr> else ctx)"

definition swim_now_ms :: "'g swim_world \<Rightarrow> u64 \<times> 'g swim_world" where
  "swim_now_ms w = (sw_clock w (sw_nclock w), w\<lparr>sw_nclock := Suc (sw_nclock w)\<rparr>)"

definition swim_alloc :: "'g swim_world \<Rightarrow> bool \<times> 'g swim_world" where
  "swim_alloc w = (sw_alloc w (sw_nalloc w), w\<lparr>sw_nalloc := Suc (sw_nalloc w)\<rparr>)"

definition set_suspects :: "swim_item list \<Rightarrow> 'g swim_world \<Rightarrow> 'g swim_world" where
  "set_suspects xs w = w\<lparr>sw_ctx := (sw_ctx w)\<lparr>sc_suspects := xs\<rparr>\<rparr>"

definition set_updates :: "swim_item list \<Rightarrow> 'g swim_world \<Rightarrow> 'g swim_world" where
  "set_updates xs w = w\<lparr>sw_ctx := (sw_ctx w)\<lparr>sc_updates := xs\<rparr>\<rparr>"

definition set_ipings :: "swim_item list \<Rightarrow> 'g swim_world \<Rightarrow> 'g swim_world" where
  "set_ipings xs w = w\<lparr>sw_ctx := (sw_ctx w)\<lparr>sc_ipings := xs\<rparr>\<rparr>"

definition set_subgroup :: "swim_item list \<Rightarrow> 'g swim_world \<Rightarrow> 'g swim_world" where
  "set_subgroup xs w = w\<lparr>sw_ctx := (sw_ctx w)\<lparr>sc_subgroup := xs\<rparr>\<rparr>"

abbreviation suspects :: "'g swim_world \<Rightarrow> swim_item list" where
  "suspects w \<equiv> sc_suspects (sw_ctx w)"

abbreviation updates :: "'g swim_world \<Rightarrow> swim_item list" where
  "updates w \<equiv> sc_updates (sw_ctx w)"

abbreviation ipings :: "'g swim_world \<Rightarrow> swim_item list" where
  "ipings w \<equiv> sc_ipings (sw_ctx w)"

abbreviation subgroup :: "'g swim_world \<Rightarrow> swim_item list" where
  "subgroup w \<equiv> sc_subgroup (sw_ctx w)"

text \<open>The first entry of a queue that carries an identifier: found, removed, or refreshed.\<close>

definition find_item :: "swim_id_t \<Rightarrow> swim_item list \<Rightarrow> swim_item option" where
  "find_item mid xs = find (\<lambda>item. si_id item = mid) xs"

fun remove_item :: "swim_id_t \<Rightarrow> swim_item list \<Rightarrow> swim_item list" where
  "remove_item mid [] = []"
| "remove_item mid (item # xs) = (if si_id item = mid then xs else item # remove_item mid xs)"

fun refresh_item :: "swim_id_t \<Rightarrow> swim_id_t \<Rightarrow> swim_item list \<Rightarrow> swim_item list" where
  "refresh_item from mid [] = []"
| "refresh_item from mid (item # xs) =
    (if si_id item = mid then item\<lparr>si_from := from, si_u := 0\<rparr> # xs
     else item # refresh_item from mid xs)"

section \<open>Sending the recent updates\<close>

text \<open>
  The walk over \<open>sc_updates\<close>: the array filled so far is \<open>upds\<close> (its length is the index \<open>i\<close>); the
  result is the return code, the array, and what stays on the queue.
\<close>

fun updates_loop :: "'g swim_ops \<Rightarrow> 'g \<Rightarrow> u64 \<Rightarrow> swim_id_t \<Rightarrow> swim_id_t \<Rightarrow> nat \<Rightarrow> swim_item list
    \<Rightarrow> swim_member_update list \<Rightarrow> rc \<times> swim_member_update list \<times> swim_item list" where
  "updates_loop ops g tx_max mid self nupds [] upds = (DER_SUCCESS, upds, [])"
| "updates_loop ops g tx_max mid self nupds (item # rest) upds =
    (if nupds \<le> length upds then updates_loop ops g tx_max mid self nupds rest upds
     else
       let count = si_u item + 1;
           kept = (if count > tx_max then [] else [item\<lparr>si_u := count\<rparr>])
       in
       if si_id item \<noteq> mid \<and> si_id item \<noteq> self then
         (case get_member_state ops (si_id item) g of
            Inl rc \<Rightarrow>
              if rc = DER_NONEXIST then updates_loop ops g tx_max mid self nupds rest upds
              else (rc, upds, item # rest)
          | Inr st \<Rightarrow>
              (case updates_loop ops g tx_max mid self nupds rest
                      (upds @ [\<lparr>smu_id = si_id item, smu_state = st\<rparr>]) of
                 (rc, upds', q) \<Rightarrow> (rc, upds', kept @ q)))
       else
         (case updates_loop ops g tx_max mid self nupds rest upds of
            (rc, upds', q) \<Rightarrow> (rc, upds', kept @ q)))"

text \<open>The leading entries: the subject of the message, and the sender when it is another member.\<close>

definition updates_head :: "'g swim_ops \<Rightarrow> 'g \<Rightarrow> swim_id_t \<Rightarrow> swim_id_t \<Rightarrow> rc + swim_member_update list" where
  "updates_head ops g mid self =
    (case get_member_state ops mid g of
       Inl rc \<Rightarrow> Inl rc
     | Inr st \<Rightarrow>
         if mid \<noteq> self then
           (case get_member_state ops self g of
              Inl rc \<Rightarrow> Inl rc
            | Inr self_st \<Rightarrow> Inr [\<lparr>smu_id = mid, smu_state = st\<rparr>, \<lparr>smu_id = self, smu_state = self_st\<rparr>])
         else Inr [\<lparr>smu_id = mid, smu_state = st\<rparr>])"

definition swim_updates_send :: "'g swim_ops \<Rightarrow> swim_id_t \<Rightarrow> swim_id_t \<Rightarrow> 'g swim_world
    \<Rightarrow> rc \<times> 'g swim_world" where
  "swim_updates_send ops mid to w =
    (let self_id = swim_self_get (Some (sw_ctx w)) in
     if mid = SWIM_ID_INVALID \<or> to = SWIM_ID_INVALID then (EINVAL, w)
     else
       let nupds = SWIM_PIGGYBACK_ENTRIES + (if mid \<noteq> self_id then 2 else 1);
           (ok, w1) = swim_alloc w
       in
       if \<not> ok then (ENOMEM, w1)
       else
         (case updates_head ops (sw_data w1) mid self_id of
            Inl rc \<Rightarrow> (rc, w1)
          | Inr upds0 \<Rightarrow>
              (case updates_loop ops (sw_data w1) (sc_piggyback_tx_max (sw_ctx w1)) mid self_id nupds
                      (updates w1) upds0 of
                 (rc, upds, q) \<Rightarrow>
                   let w2 = set_updates q w1 in
                   if rc \<noteq> DER_SUCCESS then (rc, w2)
                   else
                     (case send_message ops self_id to upds (sw_data w2) of
                        (rc', g) \<Rightarrow> (rc', w2\<lparr>sw_data := g\<rparr>)))))"

section \<open>Transitions of one member\<close>

definition swim_updates_notify :: "'g swim_ops \<Rightarrow> swim_id_t \<Rightarrow> swim_id_t \<Rightarrow> swim_member_state
    \<Rightarrow> 'g swim_world \<Rightarrow> rc \<times> 'g swim_world" where
  "swim_updates_notify ops from mid id_state w =
    (let w' = (if find_item mid (updates w) \<noteq> None then set_updates (refresh_item from mid (updates w)) w
               else
                 (case swim_alloc w of (ok, w1) \<Rightarrow>
                    if ok then set_updates (\<lparr>si_id = mid, si_from = from, si_u = 0\<rparr> # updates w1) w1
                    else w1))
     in case set_member_state ops mid id_state (sw_data w') of (rc, g) \<Rightarrow> (rc, w'\<lparr>sw_data := g\<rparr>))"

text \<open>
  A suspicion that turns out wrong makes the failure detector more patient: the ping timeout grows
  by one step as long as it is below the protocol period.
\<close>

definition unsuspect :: "swim_id_t \<Rightarrow> 'g swim_world \<Rightarrow> 'g swim_world" where
  "unsuspect mid w =
    (if find_item mid (suspects w) \<noteq> None then
       let w' = set_suspects (remove_item mid (suspects w)) w in
       if swim_ping_timeout w' < SWIM_PROTOCOL_PERIOD_LEN
       then w'\<lparr>swim_ping_timeout := swim_ping_timeout w' + SWIM_PING_TIMEOUT\<rparr>
       else w'
     else w)"

definition swim_member_alive :: "'g swim_ops \<Rightarrow> swim_id_t \<Rightarrow> swim_id_t \<Rightarrow> u64 \<Rightarrow> 'g swim_world
    \<Rightarrow> rc \<times> 'g swim_world" where
  "swim_member_alive ops from mid nr w =
    (case get_member_state ops mid (sw_data w) of
       Inl rc \<Rightarrow> (rc, w)
     | Inr id_state \<Rightarrow>
         if \<not> nr > sms_incarnation id_state \<and>
            (sms_status id_state = SWIM_MEMBER_DEAD \<or> sms_status id_state = SWIM_MEMBER_ALIVE \<or>
             sms_incarnation id_state > nr)
         then (EALREADY, w)
         else swim_updates_notify ops from mid
                (id_state\<lparr>sms_incarnation := nr, sms_status := SWIM_MEMBER_ALIVE\<rparr>) (unsuspect mid w))"

definition swim_member_dead :: "'g swim_ops \<Rightarrow> swim_id_t \<Rightarrow> swim_id_t \<Rightarrow> u64 \<Rightarrow> 'g swim_world
    \<Rightarrow> rc \<times> 'g swim_world" where
  "swim_member_dead ops from mid nr w =
    (case get_member_state ops mid (sw_data w) of
       Inl rc \<Rightarrow> (rc, w)
     | Inr id_state \<Rightarrow>
         if \<not> nr > sms_incarnation id_state \<and>
            (sms_status id_state = SWIM_MEMBER_DEAD \<or> sms_incarnation id_state > nr)
         then (EALREADY, w)
         else swim_updates_notify ops from mid
                (id_state\<lparr>sms_incarnation := nr, sms_status := SWIM_MEMBER_DEAD\<rparr>)
                (set_suspects (remove_item mid (suspects w)) w))"

definition swim_member_suspect :: "'g swim_ops \<Rightarrow> swim_id_t \<Rightarrow> swim_id_t \<Rightarrow> u64 \<Rightarrow> 'g swim_world
    \<Rightarrow> rc \<times> 'g swim_world" where
  "swim_member_suspect ops from mid nr w =
    (if SWIM_SUSPECT_TIMEOUT = 0 then swim_member_dead ops from mid nr w
     else
       (case get_member_state ops mid (sw_data w) of
          Inl rc \<Rightarrow> (rc, w)
        | Inr id_state \<Rightarrow>
            if \<not> nr > sms_incarnation id_state \<and>
               (sms_status id_state = SWIM_MEMBER_DEAD \<or> sms_status id_state = SWIM_MEMBER_SUSPECT \<or>
                sms_incarnation id_state > nr)
            then (EALREADY, w)
            else
              let id_state' = id_state\<lparr>sms_incarnation := nr, sms_status := SWIM_MEMBER_SUSPECT\<rparr> in
              if find_item mid (suspects w) \<noteq> None then swim_updates_notify ops from mid id_state' w
              else
                let (ok, w1) = swim_alloc w in
                if \<not> ok then (ENOMEM, w1)
                else
                  let (now, w2) = swim_now_ms w1;
                      item = \<lparr>si_id = mid, si_from = from, si_u = now + SWIM_SUSPECT_TIMEOUT\<rparr>
                  in swim_updates_notify ops from mid id_state' (set_suspects (suspects w2 @ [item]) w2)))"

end
