(* ===== verification/Swim_Proto.thy ===== *)
theory Swim_Proto
  imports Swim_State
begin

text \<open>
  The protocol of \<^verbatim>\<open>src/swim/swim.c\<close>: the expiry of suspicions and of forwarded pings, the state
  machine driven by \<open>swim_progress\<close>, the handling of a received message by \<open>swim_parse_message\<close>,
  and the creation and destruction of a context. A critical section is one atomic step; a message is
  sent outside of it, as in the source. \<open>None\<close> is a failed assertion in a callback or, for the loop of
  \<open>swim_progress\<close>, a loop that does not end.
\<close>

section \<open>Expiry of suspicions\<close>

text \<open>
  The walk over \<open>sc_suspects\<close>: \<open>rest\<close> is the part of the queue from the current entry on, so the
  position of the current entry is the length of the queue minus the length of \<open>rest\<close>. The entry
  whose origin is another member is granted one more ping timeout and remembered in \<open>targets\<close>;
  the others are declared dead, or dropped when the member is not known any more.
\<close>

fun suspects_loop :: "'g swim_ops \<Rightarrow> u64 \<Rightarrow> swim_id_t \<Rightarrow> swim_item list \<Rightarrow> rc \<Rightarrow> swim_item list
    \<Rightarrow> 'g swim_world \<Rightarrow> rc \<times> swim_item list \<times> 'g swim_world" where
  "suspects_loop ops now self_id [] rc targets w = (rc, targets, w)"
| "suspects_loop ops now self_id (item # rest) rc targets w =
    (let pos = length (suspects w) - Suc (length rest) in
     if now > si_u item then
       if si_from item \<noteq> self_id then
         let w1 = set_suspects ((suspects w)[pos := item\<lparr>si_from := self_id,
                                                         si_u := si_u item + swim_ping_timeout w\<rparr>]) w;
             (ok, w2) = swim_alloc w1
         in
         if \<not> ok then suspects_loop ops now self_id rest ENOMEM targets w2
         else suspects_loop ops now self_id rest rc (targets @ [item\<lparr>si_u := 0\<rparr>]) w2
       else
         (case get_member_state ops (si_id item) (sw_data w) of
            Inr id_state \<Rightarrow>
              (case swim_member_dead ops (si_from item) (si_id item) (sms_incarnation id_state) w of
                 (_, w1) \<Rightarrow> suspects_loop ops now self_id rest DER_SUCCESS targets w1)
          | Inl e \<Rightarrow>
              suspects_loop ops now self_id rest e targets (set_suspects (take pos (suspects w) @ rest) w))
     else suspects_loop ops now self_id rest rc targets w)"

fun confirm_loop :: "'g swim_ops \<Rightarrow> swim_item list \<Rightarrow> rc \<Rightarrow> 'g swim_world \<Rightarrow> rc \<times> 'g swim_world" where
  "confirm_loop ops [] rc w = (rc, w)"
| "confirm_loop ops (item # rest) rc w =
    (case swim_updates_send ops (si_id item) (si_from item) w of (rc', w') \<Rightarrow> confirm_loop ops rest rc' w')"

definition swim_member_update_suspected :: "'g swim_ops \<Rightarrow> u64 \<Rightarrow> 'g swim_world \<Rightarrow> rc \<times> 'g swim_world" where
  "swim_member_update_suspected ops now w =
    (case suspects_loop ops now (swim_self_get (Some (sw_ctx w))) (suspects w) DER_SUCCESS [] w of
       (rc, targets, w') \<Rightarrow> confirm_loop ops targets rc w')"

definition swim_ipings_update :: "u64 \<Rightarrow> 'g swim_world \<Rightarrow> rc \<times> 'g swim_world" where
  "swim_ipings_update now w =
    (DER_SUCCESS, set_ipings (filter (\<lambda>item. \<not> now > si_u item) (ipings w)) w)"

fun subgroup_loop :: "'g swim_ops \<Rightarrow> nat \<Rightarrow> 'g swim_world \<Rightarrow> (rc \<times> 'g swim_world) option" where
  "subgroup_loop ops 0 w = Some (DER_SUCCESS, w)"
| "subgroup_loop ops (Suc n) w =
    (case get_iping_target ops (sc_self (sw_ctx w)) (sw_data w) of
       None \<Rightarrow> None
     | Some (mid, g) \<Rightarrow>
         let w1 = w\<lparr>sw_data := g\<rparr> in
         if mid = SWIM_ID_INVALID then Some (DER_SUCCESS, w1)
         else
           let (ok, w2) = swim_alloc w1 in
           if \<not> ok then Some (ENOMEM, w2)
           else subgroup_loop ops n
                  (set_subgroup (subgroup w2 @ [\<lparr>si_id = mid, si_from = 0, si_u = 0\<rparr>]) w2))"

definition swim_subgroup_init :: "'g swim_ops \<Rightarrow> 'g swim_world \<Rightarrow> (rc \<times> 'g swim_world) option" where
  "swim_subgroup_init ops w = subgroup_loop ops SWIM_SUBGROUP_SIZE w"

section \<open>The state machine\<close>

text \<open>
  One case of the switch yields \<open>Inl rc\<close> when the source jumps to \<open>out\<close>, and otherwise the new
  protocol state and the message to send: its subject and its receiver.
\<close>

type_synonym swim_move = "rc + swim_context_state \<times> (swim_id_t \<times> swim_id_t) option"

definition progress_begin :: "u64 \<Rightarrow> 'g swim_world \<Rightarrow> swim_move \<times> 'g swim_world" where
  "progress_begin now w =
    (let c = sw_ctx w in
     if now > sc_next_tick_time c then
       (Inr (SCS_DPINGED, Some (sc_target c, sc_target c)),
        w\<lparr>sw_ctx := c\<lparr>sc_next_tick_time := now + SWIM_PROTOCOL_PERIOD_LEN,
                      sc_dping_deadline := now + swim_ping_timeout w\<rparr>\<rparr>)
     else (Inr (SCS_BEGIN, None), w))"

definition progress_dpinged :: "'g swim_ops \<Rightarrow> u64 \<Rightarrow> swim_member_state \<Rightarrow> 'g swim_world
    \<Rightarrow> swim_move \<times> 'g swim_world" where
  "progress_dpinged ops now target_state w =
    (let c = sw_ctx w in
     if now > sc_dping_deadline c then
       if sms_status target_state \<noteq> SWIM_MEMBER_INACTIVE then
         (Inr (SCS_TIMEDOUT, None),
          snd (swim_member_suspect ops (sc_self c) (sc_target c) (sms_incarnation target_state) w))
       else (Inr (SCS_DEAD, None), w)
     else (Inr (SCS_DPINGED, None), w))"

definition progress_ipinged :: "'g swim_ops \<Rightarrow> u64 \<Rightarrow> swim_member_state \<Rightarrow> 'g swim_world
    \<Rightarrow> swim_move \<times> 'g swim_world" where
  "progress_ipinged ops now target_state w =
    (let c = sw_ctx w in
     if now > sc_iping_deadline c then
       (Inr (SCS_DEAD, None),
        snd (swim_member_dead ops (sc_self c) (sc_target c) (sms_incarnation target_state) w))
     else (Inr (SCS_IPINGED, None), w))"

definition progress_next :: "'g swim_ops \<Rightarrow> 'g swim_world \<Rightarrow> (swim_move \<times> 'g swim_world) option" where
  "progress_next ops w =
    (case get_dping_target ops (sc_self (sw_ctx w)) (sw_data w) of
       None \<Rightarrow> None
     | Some (mid, g) \<Rightarrow>
         let w' = w\<lparr>sw_data := g, sw_ctx := (sw_ctx w)\<lparr>sc_target := mid\<rparr>\<rparr> in
         if mid = SWIM_ID_INVALID then Some (Inl ESHUTDOWN, w')
         else Some (Inr (SCS_BEGIN, None), w'))"

definition progress_timedout :: "'g swim_ops \<Rightarrow> u64 \<Rightarrow> 'g swim_world
    \<Rightarrow> (swim_move \<times> 'g swim_world) option" where
  "progress_timedout ops now w =
    (case (if subgroup w = [] then swim_subgroup_init ops w else Some (DER_SUCCESS, w)) of
       None \<Rightarrow> None
     | Some (rc, w1) \<Rightarrow>
         if rc \<noteq> DER_SUCCESS then Some (Inl rc, w1)
         else
           (case subgroup w1 of
              [] \<Rightarrow> progress_next ops w1
            | item # rest \<Rightarrow>
                let w2 = set_subgroup rest w1;
                    send = Some (sc_target (sw_ctx w1), si_id item)
                in
                if rest = [] then
                  Some (Inr (SCS_IPINGED, send),
                        w2\<lparr>sw_ctx := (sw_ctx w2)\<lparr>sc_iping_deadline := now + 2 * swim_ping_timeout w2\<rparr>\<rparr>)
                else Some (Inr (SCS_TIMEDOUT, send), w2)))"

text \<open>The selection of the case: the state of the current target decides whether it is still there.\<close>

definition progress_switch :: "'g swim_ops \<Rightarrow> u64 \<Rightarrow> 'g swim_world \<Rightarrow> (swim_move \<times> 'g swim_world) option" where
  "progress_switch ops now w =
    (if sc_target (sw_ctx w) = SWIM_ID_INVALID then progress_next ops w
     else
       (case get_member_state ops (sc_target (sw_ctx w)) (sw_data w) of
          Inl rc \<Rightarrow>
            let w' = w\<lparr>sw_ctx := (sw_ctx w)\<lparr>sc_target := SWIM_ID_INVALID\<rparr>\<rparr> in
            if rc \<noteq> DER_NONEXIST then Some (Inl rc, w') else progress_next ops w'
        | Inr target_state \<Rightarrow>
            (case swim_state_get (sw_ctx w) of
               SCS_BEGIN \<Rightarrow> Some (progress_begin now w)
             | SCS_DPINGED \<Rightarrow> Some (progress_dpinged ops now target_state w)
             | SCS_IPINGED \<Rightarrow> Some (progress_ipinged ops now target_state w)
             | SCS_TIMEDOUT \<Rightarrow> progress_timedout ops now w
             | SCS_ACKED \<Rightarrow> progress_next ops w
             | SCS_DEAD \<Rightarrow> progress_next ops w)))"

text \<open>One round of the loop; \<open>Inl rc\<close> leaves it.\<close>

definition swim_round :: "'g swim_ops \<Rightarrow> u64 \<Rightarrow> 'g swim_world
    \<Rightarrow> ((rc + swim_context_state) \<times> 'g swim_world) option" where
  "swim_round ops now w =
    (let (rc, w1) = swim_member_update_suspected ops now w in
     if rc \<noteq> DER_SUCCESS then Some (Inl rc, w1)
     else
       let (rc, w2) = swim_ipings_update now w1 in
       if rc \<noteq> DER_SUCCESS then Some (Inl rc, w2)
       else
         (case progress_switch ops now w2 of
            None \<Rightarrow> None
          | Some (Inl rc, w3) \<Rightarrow> Some (Inl rc, w3)
          | Some (Inr (ctx_state, send), w3) \<Rightarrow>
              let w4 = w3\<lparr>sw_ctx := swim_state_set (sw_ctx w3) ctx_state\<rparr> in
              (case send of
                 None \<Rightarrow> Some (Inr ctx_state, w4)
               | Some (id_target, id_sendto) \<Rightarrow>
                   (case swim_updates_send ops id_target id_sendto w4 of
                      (rc, w5) \<Rightarrow>
                        if rc \<noteq> DER_SUCCESS then Some (Inl rc, w5) else Some (Inr ctx_state, w5)))))"

partial_function (option) swim_progress_loop :: "'g swim_ops \<Rightarrow> u64 \<Rightarrow> u64 \<Rightarrow> swim_context_state
    \<Rightarrow> 'g swim_world \<Rightarrow> (rc \<times> u64 \<times> 'g swim_world) option" where
  "swim_progress_loop ops end_time now ctx_state w =
    (if now \<le> end_time \<or> ctx_state = SCS_TIMEDOUT then
       (case swim_round ops now w of
          None \<Rightarrow> None
        | Some (r, w1) \<Rightarrow>
            (case r of
               Inl rc \<Rightarrow> Some (rc, now, w1)
             | Inr st \<Rightarrow> swim_progress_loop ops end_time (fst (swim_now_ms w1)) st (snd (swim_now_ms w1))))
     else Some (if now > end_time then ETIMEDOUT else EINTR, now, w))"

text \<open>A \<open>NULL\<close> context is the argument \<open>None\<close>.\<close>

definition swim_progress :: "'g swim_ops \<Rightarrow> int \<Rightarrow> 'g swim_world option
    \<Rightarrow> (rc \<times> 'g swim_world option) option" where
  "swim_progress ops timeout wo =
    (case wo of
       None \<Rightarrow> Some (EINVAL, None)
     | Some w \<Rightarrow>
         if sc_self (sw_ctx w) = SWIM_ID_INVALID then Some (DER_SUCCESS, Some w)
         else
           let (now, w1) = swim_now_ms w;
               end_time = (if timeout > 0 then now + word_of_int timeout else 0)
           in
           (case swim_progress_loop ops end_time now SCS_TIMEDOUT w1 of
              None \<Rightarrow> None
            | Some (rc, now', w2) \<Rightarrow>
                Some (rc, Some (w2\<lparr>sw_ctx := (sw_ctx w2)\<lparr>sc_expect_progress_time :=
                                     now' + SWIM_PROTOCOL_PERIOD_LEN div 2\<rparr>\<rparr>))))"

section \<open>Received messages\<close>

text \<open>
  One update of a message. \<open>Inl rc\<close> leaves \<open>swim_parse_message\<close> at once, without a change of the
  protocol state.
\<close>

definition parse_update :: "'g swim_ops \<Rightarrow> swim_id_t \<Rightarrow> swim_id_t \<Rightarrow> swim_member_update \<Rightarrow> swim_context_state
    \<Rightarrow> 'g swim_world \<Rightarrow> (rc + swim_context_state) \<times> 'g swim_world" where
  "parse_update ops self_id from upd ctx_state w =
    (let mid = smu_id upd; nr = sms_incarnation (smu_state upd) in
     case sms_status (smu_state upd) of
       SWIM_MEMBER_INACTIVE \<Rightarrow> (Inr ctx_state, w)
     | SWIM_MEMBER_ALIVE \<Rightarrow>
         if mid = self_id then (Inr ctx_state, w)
         else
           (Inr (if ctx_state = SCS_IPINGED \<and> mid = sc_target (sw_ctx w) then SCS_ACKED else ctx_state),
            snd (swim_member_alive ops from mid nr w))
     | SWIM_MEMBER_SUSPECT \<Rightarrow>
         if mid = self_id then
           (case get_member_state ops self_id (sw_data w) of
              Inl rc \<Rightarrow> (Inl rc, w)
            | Inr self_state \<Rightarrow>
                if sms_incarnation self_state > nr then (Inr ctx_state, w)
                else
                  (case swim_updates_notify ops self_id self_id
                          (self_state\<lparr>sms_incarnation := sms_incarnation self_state + 1\<rparr>) w of
                     (rc, w') \<Rightarrow> if rc \<noteq> DER_SUCCESS then (Inl rc, w') else (Inr ctx_state, w')))
         else (Inr ctx_state, snd (swim_member_suspect ops from mid nr w))
     | SWIM_MEMBER_DEAD \<Rightarrow>
         if mid = self_id then (Inl ESHUTDOWN, w)
         else (Inr ctx_state, snd (swim_member_dead ops from mid nr w)))"

fun parse_loop :: "'g swim_ops \<Rightarrow> swim_id_t \<Rightarrow> swim_id_t \<Rightarrow> swim_member_update list \<Rightarrow> swim_context_state
    \<Rightarrow> 'g swim_world \<Rightarrow> (rc + swim_context_state) \<times> 'g swim_world" where
  "parse_loop ops self_id from [] ctx_state w = (Inr ctx_state, w)"
| "parse_loop ops self_id from (upd # upds) ctx_state w =
    (case parse_update ops self_id from upd ctx_state w of
       (Inl rc, w') \<Rightarrow> (Inl rc, w')
     | (Inr ctx_state', w') \<Rightarrow> parse_loop ops self_id from upds ctx_state' w')"

text \<open>The message that answers a received one, with the return code and the forwarded pings.\<close>

definition parse_answer :: "swim_id_t \<Rightarrow> swim_id_t \<Rightarrow> swim_member_update \<Rightarrow> 'g swim_world
    \<Rightarrow> (swim_id_t \<times> swim_id_t) option \<times> rc \<times> 'g swim_world" where
  "parse_answer self_id from upd0 w =
    (let to = smu_id upd0 in
     if to = self_id then (Some (self_id, from), DER_SUCCESS, w)
     else if to = from then
       (case find_item from (ipings w) of
          None \<Rightarrow> (None, DER_SUCCESS, w)
        | Some item \<Rightarrow> (Some (to, si_from item), DER_SUCCESS, set_ipings (remove_item from (ipings w)) w))
     else if to \<noteq> sc_target (sw_ctx w) \<and> sms_status (smu_state upd0) = SWIM_MEMBER_SUSPECT then
       let sent = find_item to (ipings w) \<noteq> None;
           (ok, w1) = swim_alloc w
       in
       if ok then
         let (now, w2) = swim_now_ms w1;
             item = \<lparr>si_id = to, si_from = from, si_u = now + swim_ping_timeout w2\<rparr>
         in (if sent then None else Some (to, to), DER_SUCCESS, set_ipings (ipings w2 @ [item]) w2)
       else (None, ENOMEM, w1)
     else (None, DER_SUCCESS, w))"

lemma remove_item_shorter: "find_item mid xs \<noteq> None \<Longrightarrow> length (remove_item mid xs) < length xs"
  by (induction xs) (auto simp: find_item_def)

lemma swim_alloc_ctx [simp]: "sw_ctx (snd (swim_alloc w)) = sw_ctx w"
  by (simp add: swim_alloc_def)

lemma updates_send_ipings: "ipings (snd (swim_updates_send ops mid to w)) = ipings w"
  by (auto simp: swim_updates_send_def Let_def swim_alloc_def set_updates_def split: sum.splits prod.splits)

text \<open>
  After the first answer, a response to a direct ping is forwarded to every other member that asked
  for it: each round takes one entry off the queue of forwarded pings.
\<close>

function answer_loop :: "'g swim_ops \<Rightarrow> swim_id_t \<Rightarrow> swim_id_t \<Rightarrow> swim_id_t \<Rightarrow> swim_id_t \<Rightarrow> swim_id_t
    \<Rightarrow> 'g swim_world \<Rightarrow> rc \<times> 'g swim_world" where
  "answer_loop ops self_id from to id_target id_sendto w =
    (let (rc, w1) = swim_updates_send ops id_target id_sendto w in
     if to \<noteq> self_id \<and> to = from then
       (case find_item from (ipings w1) of
          None \<Rightarrow> (rc, w1)
        | Some item \<Rightarrow>
            answer_loop ops self_id from to to (si_from item) (set_ipings (remove_item from (ipings w1)) w1))
     else (rc, w1))"
  by pat_completeness auto

termination
proof (relation "measure (\<lambda>(_, _, _, _, _, _, w). length (ipings w))", goal_cases)
  case (2 ops self_id frm to id_target id_sendto w x rc w1 item)
  from 2(1,2) have "ipings w1 = ipings w"
    using updates_send_ipings [of ops id_target id_sendto w] by (metis snd_conv)
  with remove_item_shorter [of frm "ipings w"] 2(4) show ?case by (simp add: set_ipings_def)
qed simp

declare answer_loop.simps [simp del]

definition swim_parse_message :: "'g swim_ops \<Rightarrow> swim_id_t \<Rightarrow> swim_member_update list \<Rightarrow> 'g swim_world
    \<Rightarrow> rc \<times> 'g swim_world" where
  "swim_parse_message ops from upds w =
    (let self_id = swim_self_get (Some (sw_ctx w)) in
     if self_id = SWIM_ID_INVALID \<or> upds = [] then (DER_SUCCESS, w)
     else
       let st0 = swim_state_get (sw_ctx w);
           st = (if from = sc_target (sw_ctx w) \<and> (st0 = SCS_BEGIN \<or> st0 = SCS_DPINGED) then SCS_ACKED
                 else st0)
       in
       (case parse_loop ops self_id from upds st w of
          (Inl rc, w1) \<Rightarrow> (rc, w1)
        | (Inr st', w1) \<Rightarrow>
            (case parse_answer self_id from (hd upds) w1 of
               (send, rc, w2) \<Rightarrow>
                 let w3 = w2\<lparr>sw_ctx := swim_state_set (sw_ctx w2) st'\<rparr> in
                 (case send of
                    None \<Rightarrow> (rc, w3)
                  | Some (id_target, id_sendto) \<Rightarrow>
                      answer_loop ops self_id from (smu_id (hd upds)) id_target id_sendto w3))))"

section \<open>Life cycle\<close>

text \<open>
  The callbacks are given as possibly missing functions; the result is the context together with the
  table of callbacks it uses. \<open>alloc_ok\<close> and \<open>mutex_ok\<close> are the results of the allocation and of the
  creation of the mutex.
\<close>

definition swim_init :: "swim_id_t
    \<Rightarrow> ((swim_id_t \<Rightarrow> swim_id_t \<Rightarrow> swim_member_update list \<Rightarrow> 'g \<Rightarrow> rc \<times> 'g) option
        \<times> (swim_id_t \<Rightarrow> 'g \<Rightarrow> (swim_id_t \<times> 'g) option) option
        \<times> (swim_id_t \<Rightarrow> 'g \<Rightarrow> (swim_id_t \<times> 'g) option) option
        \<times> (swim_id_t \<Rightarrow> 'g \<Rightarrow> rc + swim_member_state) option
        \<times> (swim_id_t \<Rightarrow> swim_member_state \<Rightarrow> 'g \<Rightarrow> rc \<times> 'g) option) option
    \<Rightarrow> bool \<Rightarrow> bool \<Rightarrow> ('g swim_ops \<times> swim_context) option" where
  "swim_init self_id cbs alloc_ok mutex_ok =
    (case cbs of
       Some (Some send, Some dping, Some iping, Some get, Some put) \<Rightarrow>
         if \<not> alloc_ok then None
         else if \<not> mutex_ok then None
         else Some (\<lparr>send_message = send, get_dping_target = dping, get_iping_target = iping,
                     get_member_state = get, set_member_state = put\<rparr>,
                    \<lparr>sc_subgroup = [], sc_suspects = [], sc_updates = [], sc_ipings = [],
                     sc_state = SCS_BEGIN, sc_target = SWIM_ID_INVALID, sc_self = self_id,
                     sc_expect_progress_time = 0, sc_next_tick_time = 0, sc_dping_deadline = 0,
                     sc_iping_deadline = 0, sc_piggyback_tx_max = SWIM_PIGGYBACK_TX_COUNT\<rparr>)
     | _ \<Rightarrow> None)"

text \<open>The loops of \<open>swim_fini\<close> free the entries of the queues one by one; the context goes last.\<close>

fun drain :: "swim_item list \<Rightarrow> nat \<Rightarrow> swim_item list \<times> nat" where
  "drain [] n = ([], n)"
| "drain (item # rest) n = drain rest (Suc n)"

definition swim_fini :: "swim_context option \<Rightarrow> nat" where
  "swim_fini ctx =
    (case ctx of
       None \<Rightarrow> 0
     | Some c \<Rightarrow>
         let n1 = snd (drain (sc_ipings c) 0); n2 = snd (drain (sc_updates c) n1);
             n3 = snd (drain (sc_suspects c) n2); n4 = snd (drain (sc_subgroup c) n3)
         in Suc n4)"

end
