(* ===== verification/Swim_Inv.thy ===== *)
theory Swim_Inv
  imports Swim_Proto "HOL-Library.Product_Lexorder"
begin

text \<open>
  What the SWIM protocol promises to the group layer and what it needs from it. The contract of the
  callbacks is the locale \<open>swim_group\<close>: the layer keeps a table of member states, reads and writes
  it, selects ping targets from it, and may declare a member dead when a message to it cannot be
  delivered. Under this contract every operation keeps the invariant \<open>swim_inv\<close> of the context and
  changes the table only by transitions of the abstract membership machine \<open>mstep\<close>, so that the grade
  of a member, its incarnation and then its status, never falls.
\<close>

section \<open>The abstract membership machine\<close>

type_synonym membership = "swim_id_t \<Rightarrow> swim_member_state option"

fun level :: "swim_member_status \<Rightarrow> nat" where
  "level SWIM_MEMBER_INACTIVE = 0"
| "level SWIM_MEMBER_ALIVE = 1"
| "level SWIM_MEMBER_SUSPECT = 1"
| "level SWIM_MEMBER_DEAD = 2"

definition grade :: "swim_member_state \<Rightarrow> u64 \<times> nat" where
  "grade s = (sms_incarnation s, level (sms_status s))"

inductive mstep :: "swim_id_t \<Rightarrow> membership \<Rightarrow> membership \<Rightarrow> bool" for self where
  mstep_alive: "mstep self T (T(m \<mapsto> \<lparr>sms_incarnation = nr, sms_status = SWIM_MEMBER_ALIVE\<rparr>))"
    if "T m = Some s" "nr > sms_incarnation s \<or>
        nr = sms_incarnation s \<and> sms_status s \<in> {SWIM_MEMBER_SUSPECT, SWIM_MEMBER_INACTIVE}"
| mstep_suspect: "mstep self T (T(m \<mapsto> \<lparr>sms_incarnation = nr, sms_status = SWIM_MEMBER_SUSPECT\<rparr>))"
    if "T m = Some s" "nr > sms_incarnation s \<or>
        nr = sms_incarnation s \<and> sms_status s \<in> {SWIM_MEMBER_ALIVE, SWIM_MEMBER_INACTIVE}"
| mstep_dead: "mstep self T (T(m \<mapsto> \<lparr>sms_incarnation = nr, sms_status = SWIM_MEMBER_DEAD\<rparr>))"
    if "T m = Some s" "nr > sms_incarnation s \<or>
        nr = sms_incarnation s \<and> sms_status s \<noteq> SWIM_MEMBER_DEAD"
| mstep_refute: "mstep self T (T(self \<mapsto> s\<lparr>sms_incarnation := sms_incarnation s + 1\<rparr>))"
    if "T self = Some s"
| mstep_fail: "mstep self T (T(m \<mapsto> \<lparr>sms_incarnation = sms_incarnation s + 1, sms_status = SWIM_MEMBER_DEAD\<rparr>))"
    if "T m = Some s"

abbreviation msteps :: "swim_id_t \<Rightarrow> membership \<Rightarrow> membership \<Rightarrow> bool" where
  "msteps self \<equiv> (mstep self)\<^sup>*\<^sup>*"

lemma mstep_dom: "mstep self T T' \<Longrightarrow> dom T' = dom T"
  by (induction rule: mstep.induct) (auto split: if_splits)

lemma msteps_dom: "msteps self T T' \<Longrightarrow> dom T' = dom T"
  by (induction rule: rtranclp_induct) (simp_all add: mstep_dom)

lemma incarnation_bump: "(x :: u64) \<noteq> - 1 \<Longrightarrow> x < x + 1"
proof -
  assume "x \<noteq> - 1"
  then have "1 + x \<noteq> 0" by (simp add: eq_neg_iff_add_eq_0 add.commute)
  then have "unat (1 + x) = Suc (unat x)" by (rule unatSuc)
  then show "x < x + 1" by (simp add: word_less_nat_alt add.commute)
qed

lemma level_le: "level st \<le> 2"
  by (cases st) simp_all

lemma mstep_grade:
  assumes "mstep self T T'" "T m = Some s" "\<And>m s. T m = Some s \<Longrightarrow> sms_incarnation s \<noteq> - 1"
  shows "\<exists>t. T' m = Some t \<and> grade s \<le> grade t"
  using assms
proof (induction rule: mstep.induct)
  case (mstep_refute T s')
  then show ?case using incarnation_bump [of "sms_incarnation s'"] by (auto simp: grade_def)
next
  case (mstep_fail T m' s')
  then show ?case using incarnation_bump [of "sms_incarnation s'"] by (auto simp: grade_def)
qed (auto simp: grade_def level_le)

lemma msteps_grade:
  assumes "msteps self T T'"
  shows "(\<forall>m s. T m = Some s \<longrightarrow> (\<exists>t. T' m = Some t \<and> grade s \<le> grade t)) \<or>
    (\<exists>T'' m s. msteps self T T'' \<and> T'' m = Some s \<and> sms_incarnation s = - 1)"
  using assms
proof (induction rule: rtranclp_induct)
  case (step U V)
  show ?case
  proof (cases "\<exists>m s. U m = Some s \<and> sms_incarnation s = - 1")
    case True
    then show ?thesis using step.hyps(1) by blast
  next
    case False
    then have "\<exists>t. V m = Some t \<and> grade s \<le> grade t" if "U m = Some s" for m s
      using mstep_grade [OF step.hyps(2) that] by blast
    then show ?thesis using step.IH by (meson order_trans)
  qed
qed blast

section \<open>The contract of the group layer\<close>

text \<open>
  A message about the member \<open>m\<close>: it opens with \<open>m\<close>, tells the state of the sender, names no member
  twice, fits the array, and every state in it is the one of the table.
\<close>

definition message_ok :: "membership \<Rightarrow> swim_id_t \<Rightarrow> swim_id_t \<Rightarrow> swim_member_update list \<Rightarrow> bool" where
  "message_ok T self m upds \<longleftrightarrow>
    upds \<noteq> [] \<and> smu_id (hd upds) = m \<and> self \<in> set (map smu_id upds) \<and> distinct (map smu_id upds) \<and>
    length upds \<le> SWIM_PIGGYBACK_ENTRIES + (if m \<noteq> self then 2 else 1) \<and>
    (\<forall>u\<in>set upds. T (smu_id u) = Some (smu_state u))"

text \<open>
  The protocol hands only such messages to the layer; a message that cannot be delivered may make the
  layer declare a member dead.
\<close>

locale swim_group =
  fixes ops :: "'g swim_ops" and ok :: "'g \<Rightarrow> bool" and members :: "'g \<Rightarrow> membership"
  assumes get_known: "members g m = Some s \<Longrightarrow> get_member_state ops m g = Inr s"
    and get_unknown: "members g m = None \<Longrightarrow> get_member_state ops m g = Inl DER_NONEXIST"
    and set_known: "ok g \<Longrightarrow> members g m = Some s \<Longrightarrow>
      \<exists>g'. set_member_state ops m t g = (DER_SUCCESS, g') \<and> ok g' \<and> members g' = (members g)(m \<mapsto> t)"
    and dping: "ok g \<Longrightarrow> \<exists>m g'. get_dping_target ops self g = Some (m, g') \<and> ok g' \<and>
      members g' = members g \<and> (m \<noteq> SWIM_ID_INVALID \<longrightarrow> m \<noteq> self \<and>
        (\<exists>s. members g m = Some s \<and> sms_status s \<noteq> SWIM_MEMBER_DEAD))"
    and iping: "ok g \<Longrightarrow> \<exists>m g'. get_iping_target ops self g = Some (m, g') \<and> ok g' \<and>
      members g' = members g \<and> (m \<noteq> SWIM_ID_INVALID \<longrightarrow> m \<noteq> self \<and>
        (\<exists>s. members g m = Some s \<and> sms_status s = SWIM_MEMBER_ALIVE))"
    and send: "ok g \<Longrightarrow> message_ok (members g) self m0 upds \<Longrightarrow> \<exists>rc g'. send_message ops self to upds g = (rc, g') \<and> ok g' \<and>
      (members g' = members g \<or> (\<exists>m s. members g m = Some s \<and>
        members g' = (members g)(m \<mapsto> \<lparr>sms_incarnation = sms_incarnation s + 1,
                                        sms_status = SWIM_MEMBER_DEAD\<rparr>)))"

section \<open>The invariant of the context\<close>

definition ids :: "swim_item list \<Rightarrow> swim_id_t list" where
  "ids xs = map si_id xs"

text \<open>
  Both queues hold a member at most once, every suspected member has a running suspicion, and the
  ping timeout has one of the three values it can grow to.
\<close>

definition suspects_timed :: "membership \<Rightarrow> swim_item list \<Rightarrow> bool" where
  "suspects_timed T xs \<longleftrightarrow>
    (\<forall>m s. T m = Some s \<and> sms_status s = SWIM_MEMBER_SUSPECT \<longrightarrow> m \<in> set (ids xs))"

definition ping_timeout_ok :: "u64 \<Rightarrow> bool" where
  "ping_timeout_ok t \<longleftrightarrow> t \<in> {SWIM_PING_TIMEOUT, 2 * SWIM_PING_TIMEOUT, SWIM_PROTOCOL_PERIOD_LEN}"

definition swim_inv :: "('g \<Rightarrow> bool) \<Rightarrow> ('g \<Rightarrow> membership) \<Rightarrow> 'g swim_world \<Rightarrow> bool" where
  "swim_inv ok members w \<longleftrightarrow>
    ok (sw_data w) \<and> distinct (ids (suspects w)) \<and> distinct (ids (updates w)) \<and>
    suspects_timed (members (sw_data w)) (suspects w) \<and>
    ping_timeout_ok (swim_ping_timeout w)"

definition evolves :: "('g \<Rightarrow> bool) \<Rightarrow> ('g \<Rightarrow> membership) \<Rightarrow> 'g swim_world \<Rightarrow> 'g swim_world \<Rightarrow> bool" where
  "evolves ok members w w' \<longleftrightarrow> swim_inv ok members w' \<and> sc_self (sw_ctx w') = sc_self (sw_ctx w) \<and>
    msteps (sc_self (sw_ctx w)) (members (sw_data w)) (members (sw_data w'))"

lemma evolves_refl: "swim_inv ok members w \<Longrightarrow> evolves ok members w w"
  by (simp add: evolves_def)

lemma evolves_trans:
  "evolves ok members w w1 \<Longrightarrow> evolves ok members w1 w2 \<Longrightarrow> evolves ok members w w2"
  unfolding evolves_def by (metis rtranclp_trans)

lemma evolvesD: "evolves ok members w w' \<Longrightarrow> swim_inv ok members w'"
  by (simp add: evolves_def)

text \<open>Operations that touch none of the fields the invariant speaks of.\<close>

lemma evolves_frame:
  assumes "swim_inv ok members w" "sw_data w' = sw_data w" "suspects w' = suspects w"
    "updates w' = updates w" "swim_ping_timeout w' = swim_ping_timeout w"
    "sc_self (sw_ctx w') = sc_self (sw_ctx w)"
  shows "evolves ok members w w'"
  using assms by (simp add: evolves_def swim_inv_def)

section \<open>Queues\<close>

lemma find_item_None: "find_item m xs = None \<longleftrightarrow> m \<notin> set (ids xs)"
  by (auto simp: find_item_def ids_def find_None_iff)

lemma ids_remove_item: "distinct (ids xs) \<Longrightarrow> ids (remove_item m xs) = filter (\<lambda>x. x \<noteq> m) (ids xs)"
  by (induction xs) (auto simp: ids_def intro!: filter_True [symmetric])

lemma ids_refresh_item [simp]: "ids (refresh_item from m xs) = ids xs"
  by (induction xs) (auto simp: ids_def)

lemma ids_simps [simp]: "ids [] = []" "ids (x # xs) = si_id x # ids xs" "ids (xs @ ys) = ids xs @ ids ys"
  by (simp_all add: ids_def)

lemma remove_item_absent: "m \<notin> set (ids xs) \<Longrightarrow> remove_item m xs = xs"
  by (induction xs) auto

section \<open>Projections\<close>

lemma swim_proj [swim_simps]:
  "sw_data (set_suspects xs w) = sw_data w" "sw_data (set_updates xs w) = sw_data w"
  "sw_data (set_ipings xs w) = sw_data w" "sw_data (set_subgroup xs w) = sw_data w"
  "swim_ping_timeout (set_suspects xs w) = swim_ping_timeout w"
  "swim_ping_timeout (set_updates xs w) = swim_ping_timeout w"
  "swim_ping_timeout (set_ipings xs w) = swim_ping_timeout w"
  "swim_ping_timeout (set_subgroup xs w) = swim_ping_timeout w"
  "sw_ctx (set_suspects xs w) = (sw_ctx w)\<lparr>sc_suspects := xs\<rparr>"
  "sw_ctx (set_updates xs w) = (sw_ctx w)\<lparr>sc_updates := xs\<rparr>"
  "sw_ctx (set_ipings xs w) = (sw_ctx w)\<lparr>sc_ipings := xs\<rparr>"
  "sw_ctx (set_subgroup xs w) = (sw_ctx w)\<lparr>sc_subgroup := xs\<rparr>"
  "sw_data (snd (swim_alloc w)) = sw_data w"
  "swim_ping_timeout (snd (swim_alloc w)) = swim_ping_timeout w"
  "sw_data (snd (swim_now_ms w)) = sw_data w" "sw_ctx (snd (swim_now_ms w)) = sw_ctx w"
  "swim_ping_timeout (snd (swim_now_ms w)) = swim_ping_timeout w"
  by (simp_all add: set_suspects_def set_updates_def set_ipings_def set_subgroup_def swim_alloc_def
      swim_now_ms_def)

lemma unsuspect_proj [swim_simps]:
  "sw_data (unsuspect m w) = sw_data w" "updates (unsuspect m w) = updates w"
  "sc_self (sw_ctx (unsuspect m w)) = sc_self (sw_ctx w)"
  "suspects (unsuspect m w) = remove_item m (suspects w)"
  by (auto simp: unsuspect_def Let_def find_item_None remove_item_absent swim_simps)

lemma unsuspect_timeout:
  "ping_timeout_ok (swim_ping_timeout w) \<Longrightarrow>
   ping_timeout_ok (swim_ping_timeout (unsuspect m w))"
  by (auto simp: ping_timeout_ok_def unsuspect_def Let_def swim_simps SWIM_PING_TIMEOUT_def SWIM_PROTOCOL_PERIOD_LEN_def)

lemma suspects_timed_upd:
  assumes "suspects_timed T xs" "distinct (ids xs)" "st \<noteq> SWIM_MEMBER_SUSPECT"
  shows "suspects_timed (T(m \<mapsto> \<lparr>sms_incarnation = nr, sms_status = st\<rparr>)) (remove_item m xs)"
  using assms by (auto simp: suspects_timed_def ids_remove_item)

lemma suspects_timed_mono:
  assumes "suspects_timed T xs" "sms_status t = SWIM_MEMBER_SUSPECT \<longrightarrow> m \<in> set (ids ys)" "set (ids xs) \<subseteq> set (ids ys)"
  shows "suspects_timed (T(m \<mapsto> t)) ys"
  using assms by (auto simp: suspects_timed_def)

text \<open>The part of the context that the transitions of members leave alone.\<close>

definition kept :: "'g swim_world \<Rightarrow> 'g swim_world \<Rightarrow> bool" where
  "kept w w' \<longleftrightarrow> subgroup w' = subgroup w \<and> ipings w' = ipings w \<and>
    sc_target (sw_ctx w') = sc_target (sw_ctx w) \<and> sc_state (sw_ctx w') = sc_state (sw_ctx w) \<and>
    sc_piggyback_tx_max (sw_ctx w') = sc_piggyback_tx_max (sw_ctx w) \<and> sw_clock w' = sw_clock w"

lemma kept_refl [simp]: "kept w w"
  by (simp add: kept_def)

lemma kept_trans: "kept w w1 \<Longrightarrow> kept w1 w2 \<Longrightarrow> kept w w2"
  by (simp add: kept_def)

section \<open>Transitions keep the invariant\<close>

context swim_group
begin

abbreviation mem :: "'g swim_world \<Rightarrow> membership" where
  "mem w \<equiv> members (sw_data w)"

abbreviation evo :: "'g swim_world \<Rightarrow> 'g swim_world \<Rightarrow> bool" where
  "evo \<equiv> evolves ok members"

abbreviation inv :: "'g swim_world \<Rightarrow> bool" where
  "inv \<equiv> swim_inv ok members"

lemma get_cases:
  obtains (known) s where "mem w m = Some s" "get_member_state ops m (sw_data w) = Inr s"
  | (unknown) "mem w m = None" "get_member_state ops m (sw_data w) = Inl DER_NONEXIST"
  using get_known get_unknown by (cases "mem w m") blast+

lemma notify_sets:
  assumes "ok (sw_data w)" "distinct (ids (suspects w))" "distinct (ids (updates w))"
    "ping_timeout_ok (swim_ping_timeout w)"
    "suspects_timed ((mem w)(m \<mapsto> t)) (suspects w)" "mem w m = Some s"
  shows "\<exists>w'. swim_updates_notify ops from m t w = (DER_SUCCESS, w') \<and> inv w' \<and>
    mem w' = (mem w)(m \<mapsto> t) \<and> sc_self (sw_ctx w') = sc_self (sw_ctx w) \<and> suspects w' = suspects w \<and>
    kept w w'"
proof -
  obtain g where g: "set_member_state ops m t (sw_data w) = (DER_SUCCESS, g)" "ok g"
      "members g = (mem w)(m \<mapsto> t)"
    using set_known [OF assms(1,6)] by blast
  then show ?thesis
    using assms(2-5) unfolding swim_updates_notify_def Let_def kept_def
    by (auto simp: swim_simps swim_alloc_def swim_inv_def find_item_None set_updates_def)
qed

text \<open>The common end of the three transitions: \<open>v\<close> is the state with the suspicions adjusted.\<close>

lemma notify_evolves:
  assumes inv: "inv w"
    and v: "sw_data v = sw_data w" "updates v = updates w" "sc_self (sw_ctx v) = sc_self (sw_ctx w)"
      "kept w v" "distinct (ids (suspects v))"
      "ping_timeout_ok (swim_ping_timeout v)"
      "suspects_timed ((mem w)(m \<mapsto> t)) (suspects v)"
    and m: "mem w m = Some s" "mstep (sc_self (sw_ctx w)) (mem w) ((mem w)(m \<mapsto> t))"
  shows "\<exists>w'. swim_updates_notify ops from m t v = (DER_SUCCESS, w') \<and> evo w w' \<and> kept w w' \<and>
    mem w' = (mem w)(m \<mapsto> t) \<and> suspects w' = suspects v"
proof -
  have "ok (sw_data v)" "distinct (ids (updates v))" using inv v by (simp_all add: swim_inv_def)
  from notify_sets [OF this(1) v(5) this(2) v(6), of m t s "from"] v m
  obtain w' where "swim_updates_notify ops from m t v = (DER_SUCCESS, w')" "inv w'"
      "mem w' = (mem w)(m \<mapsto> t)" "sc_self (sw_ctx w') = sc_self (sw_ctx w)" "suspects w' = suspects v"
      "kept v w'"
    by auto
  with v(4) m(2) show ?thesis by (auto simp: evolves_def intro: kept_trans)
qed

lemma unsuspect_kept [simp]: "kept w (unsuspect m w)"
  by (simp add: kept_def unsuspect_def Let_def swim_simps set_suspects_def)

lemma set_suspects_kept [simp]: "kept w (set_suspects xs w)"
  by (simp add: kept_def set_suspects_def)

lemma alive_effect:
  assumes "inv w" "mem w m = Some s"
    "nr > sms_incarnation s \<or> nr = sms_incarnation s \<and>
      sms_status s \<in> {SWIM_MEMBER_SUSPECT, SWIM_MEMBER_INACTIVE}"
  shows "\<exists>w'. swim_member_alive ops from m nr w = (DER_SUCCESS, w') \<and> evo w w' \<and> kept w w' \<and>
    mem w' = (mem w)(m \<mapsto> \<lparr>sms_incarnation = nr, sms_status = SWIM_MEMBER_ALIVE\<rparr>) \<and>
    suspects w' = remove_item m (suspects w)"
proof -
  have "\<exists>w'. swim_updates_notify ops from m \<lparr>sms_incarnation = nr, sms_status = SWIM_MEMBER_ALIVE\<rparr>
      (unsuspect m w) = (DER_SUCCESS, w') \<and> evo w w' \<and> kept w w' \<and>
      mem w' = (mem w)(m \<mapsto> \<lparr>sms_incarnation = nr, sms_status = SWIM_MEMBER_ALIVE\<rparr>) \<and>
      suspects w' = suspects (unsuspect m w)"
    using assms
    by (intro notify_evolves mstep_alive)
      (auto simp: swim_simps swim_inv_def ids_remove_item intro!: suspects_timed_upd unsuspect_timeout)
  moreover have "swim_member_alive ops from m nr w = swim_updates_notify ops from m
      \<lparr>sms_incarnation = nr, sms_status = SWIM_MEMBER_ALIVE\<rparr> (unsuspect m w)"
    using assms(2,3) get_known by (cases s) (auto simp: swim_member_alive_def)
  ultimately show ?thesis by (simp add: swim_simps)
qed

lemma alive_ignored:
  assumes "mem w m = None \<or> (\<exists>s. mem w m = Some s \<and> \<not> (nr > sms_incarnation s \<or> nr = sms_incarnation s \<and>
      sms_status s \<in> {SWIM_MEMBER_SUSPECT, SWIM_MEMBER_INACTIVE}))"
  shows "swim_member_alive ops from m nr w = (if mem w m = None then DER_NONEXIST else EALREADY, w)"
proof (cases "mem w m")
  case None
  then show ?thesis by (simp add: swim_member_alive_def get_unknown)
next
  case (Some s)
  with assms show ?thesis
    by (cases "sms_status s") (auto simp: swim_member_alive_def get_known [OF Some])
qed

lemma dead_effect:
  assumes "inv w" "mem w m = Some s"
    "nr > sms_incarnation s \<or> nr = sms_incarnation s \<and> sms_status s \<noteq> SWIM_MEMBER_DEAD"
  shows "\<exists>w'. swim_member_dead ops from m nr w = (DER_SUCCESS, w') \<and> evo w w' \<and> kept w w' \<and>
    mem w' = (mem w)(m \<mapsto> \<lparr>sms_incarnation = nr, sms_status = SWIM_MEMBER_DEAD\<rparr>) \<and>
    suspects w' = remove_item m (suspects w)"
proof -
  let ?v = "set_suspects (remove_item m (suspects w)) w"
  have "\<exists>w'. swim_updates_notify ops from m \<lparr>sms_incarnation = nr, sms_status = SWIM_MEMBER_DEAD\<rparr> ?v
      = (DER_SUCCESS, w') \<and> evo w w' \<and> kept w w' \<and>
      mem w' = (mem w)(m \<mapsto> \<lparr>sms_incarnation = nr, sms_status = SWIM_MEMBER_DEAD\<rparr>) \<and>
      suspects w' = suspects ?v"
    using assms
    by (intro notify_evolves mstep_dead)
      (auto simp: swim_simps swim_inv_def ids_remove_item intro!: suspects_timed_upd)
  moreover have "swim_member_dead ops from m nr w = swim_updates_notify ops from m
      \<lparr>sms_incarnation = nr, sms_status = SWIM_MEMBER_DEAD\<rparr> ?v"
    using assms(2,3) get_known by (cases s) (auto simp: swim_member_dead_def)
  ultimately show ?thesis by (simp add: swim_simps)
qed

lemma dead_ignored:
  assumes "mem w m = None \<or> (\<exists>s. mem w m = Some s \<and> \<not> (nr > sms_incarnation s \<or>
      nr = sms_incarnation s \<and> sms_status s \<noteq> SWIM_MEMBER_DEAD))"
  shows "swim_member_dead ops from m nr w = (if mem w m = None then DER_NONEXIST else EALREADY, w)"
proof (cases "mem w m")
  case None
  then show ?thesis by (simp add: swim_member_dead_def get_unknown)
next
  case (Some s)
  with assms show ?thesis by (auto simp: swim_member_dead_def get_known [OF Some])
qed

lemma SUSPECT_TIMEOUT_pos [simp]: "SWIM_SUSPECT_TIMEOUT \<noteq> 0"
  by (simp add: SWIM_SUSPECT_TIMEOUT_def SWIM_PROTOCOL_PERIOD_LEN_def)

lemma suspect_effect:
  assumes "inv w" "mem w m = Some s"
    "nr > sms_incarnation s \<or> nr = sms_incarnation s \<and>
      sms_status s \<in> {SWIM_MEMBER_ALIVE, SWIM_MEMBER_INACTIVE}"
  shows "(\<exists>w'. swim_member_suspect ops from m nr w = (ENOMEM, w') \<and> m \<notin> set (ids (suspects w)) \<and>
      \<not> sw_alloc w (sw_nalloc w) \<and> sw_data w' = sw_data w \<and> sw_ctx w' = sw_ctx w \<and> evo w w' \<and> kept w w') \<or>
    (\<exists>w'. swim_member_suspect ops from m nr w = (DER_SUCCESS, w') \<and> evo w w' \<and> kept w w' \<and>
      mem w' = (mem w)(m \<mapsto> \<lparr>sms_incarnation = nr, sms_status = SWIM_MEMBER_SUSPECT\<rparr>) \<and>
      m \<in> set (ids (suspects w')) \<and>
      (m \<in> set (ids (suspects w)) \<and> suspects w' = suspects w \<or>
       m \<notin> set (ids (suspects w)) \<and> suspects w' = suspects w @
         [\<lparr>si_id = m, si_from = from, si_u = sw_clock w (sw_nclock w) + SWIM_SUSPECT_TIMEOUT\<rparr>]))"
proof -
  let ?t = "\<lparr>sms_incarnation = nr, sms_status = SWIM_MEMBER_SUSPECT\<rparr>"
  let ?item = "\<lparr>si_id = m, si_from = from, si_u = sw_clock w (sw_nclock w) + SWIM_SUSPECT_TIMEOUT\<rparr>"
  let ?v = "set_suspects (suspects w @ [?item]) (snd (swim_now_ms (snd (swim_alloc w))))"
  have g: "get_member_state ops m (sw_data w) = Inr s" using assms(2) by (rule get_known)
  have st: "suspects_timed (mem w) (suspects w)" using assms(1) by (simp add: swim_inv_def)
  consider (dup) "m \<in> set (ids (suspects w))"
    | (nomem) "m \<notin> set (ids (suspects w))" "\<not> sw_alloc w (sw_nalloc w)"
    | (new) "m \<notin> set (ids (suspects w))" "sw_alloc w (sw_nalloc w)" by blast
  then show ?thesis
  proof cases
    case dup
    then have "swim_member_suspect ops from m nr w = swim_updates_notify ops from m ?t w"
      using assms(3) g find_item_None [of m "suspects w"] by (cases s) (auto simp: swim_member_suspect_def Let_def)
    moreover have "\<exists>w'. swim_updates_notify ops from m ?t w = (DER_SUCCESS, w') \<and> evo w w' \<and> kept w w' \<and>
        mem w' = (mem w)(m \<mapsto> ?t) \<and> suspects w' = suspects w"
      using assms dup by (intro notify_evolves mstep_suspect) (auto simp: swim_inv_def intro!: suspects_timed_mono)
    ultimately show ?thesis using dup by auto
  next
    case nomem
    then have "swim_member_suspect ops from m nr w = (ENOMEM, snd (swim_alloc w))"
      using assms(3) g find_item_None [of m "suspects w"]
      by (auto simp: swim_member_suspect_def Let_def swim_alloc_def)
    moreover have "evo w (snd (swim_alloc w))" "kept w (snd (swim_alloc w))"
      using assms(1) by (auto intro!: evolves_frame simp: swim_simps kept_def) (simp add: swim_alloc_def)
    ultimately show ?thesis using nomem by (simp add: swim_simps)
  next
    case new
    then have "swim_member_suspect ops from m nr w = swim_updates_notify ops from m ?t ?v"
      using assms(3) g find_item_None [of m "suspects w"]
      by (cases s) (auto simp: swim_member_suspect_def Let_def swim_alloc_def swim_now_ms_def)
    moreover have "\<exists>w'. swim_updates_notify ops from m ?t ?v = (DER_SUCCESS, w') \<and> evo w w' \<and> kept w w' \<and>
        mem w' = (mem w)(m \<mapsto> ?t) \<and> suspects w' = suspects ?v"
    proof (intro notify_evolves mstep_suspect)
      show "kept w ?v" by (simp add: kept_def set_suspects_def swim_now_ms_def swim_alloc_def)
    qed (use assms new st in \<open>auto simp: swim_simps swim_inv_def intro!: suspects_timed_mono\<close>)
    ultimately show ?thesis using new by (auto simp: swim_simps)
  qed
qed

lemma suspect_ignored:
  assumes "mem w m = None \<or> (\<exists>s. mem w m = Some s \<and> \<not> (nr > sms_incarnation s \<or> nr = sms_incarnation s \<and>
      sms_status s \<in> {SWIM_MEMBER_ALIVE, SWIM_MEMBER_INACTIVE}))"
  shows "swim_member_suspect ops from m nr w = (if mem w m = None then DER_NONEXIST else EALREADY, w)"
proof (cases "mem w m")
  case None
  then show ?thesis by (simp add: swim_member_suspect_def get_unknown)
next
  case (Some s)
  with assms show ?thesis
    by (cases "sms_status s") (auto simp: swim_member_suspect_def get_known [OF Some])
qed

text \<open>On every branch, a transition is a step of the membership machine or none.\<close>

lemma alive_evolves:
  "inv w \<Longrightarrow> evo w (snd (swim_member_alive ops from m nr w)) \<and> kept w (snd (swim_member_alive ops from m nr w))"
proof (cases "\<exists>s. mem w m = Some s \<and> (nr > sms_incarnation s \<or> nr = sms_incarnation s \<and>
    sms_status s \<in> {SWIM_MEMBER_SUSPECT, SWIM_MEMBER_INACTIVE})")
  case True
  assume "inv w"
  with True show ?thesis using alive_effect [of w m _ nr "from"] by fastforce
next
  case False
  then have "snd (swim_member_alive ops from m nr w) = w"
    using alive_ignored [of w m nr "from"] by (cases "mem w m") auto
  moreover assume "inv w"
  ultimately show ?thesis by (simp add: evolves_refl)
qed

lemma dead_evolves:
  "inv w \<Longrightarrow> evo w (snd (swim_member_dead ops from m nr w)) \<and> kept w (snd (swim_member_dead ops from m nr w))"
proof (cases "\<exists>s. mem w m = Some s \<and> (nr > sms_incarnation s \<or> nr = sms_incarnation s \<and>
    sms_status s \<noteq> SWIM_MEMBER_DEAD)")
  case True
  assume "inv w"
  with True show ?thesis using dead_effect [of w m _ nr "from"] by fastforce
next
  case False
  then have "snd (swim_member_dead ops from m nr w) = w"
    using dead_ignored [of w m nr "from"] by (cases "mem w m") auto
  moreover assume "inv w"
  ultimately show ?thesis by (simp add: evolves_refl)
qed

lemma suspect_evolves:
  "inv w \<Longrightarrow> evo w (snd (swim_member_suspect ops from m nr w)) \<and> kept w (snd (swim_member_suspect ops from m nr w))"
proof (cases "\<exists>s. mem w m = Some s \<and> (nr > sms_incarnation s \<or> nr = sms_incarnation s \<and>
    sms_status s \<in> {SWIM_MEMBER_ALIVE, SWIM_MEMBER_INACTIVE})")
  case True
  assume "inv w"
  with True show ?thesis using suspect_effect [of w m _ nr "from"] by fastforce
next
  case False
  then have "snd (swim_member_suspect ops from m nr w) = w"
    using suspect_ignored [of w m nr "from"] by (cases "mem w m") auto
  moreover assume "inv w"
  ultimately show ?thesis by (simp add: evolves_refl)
qed

end
section \<open>Messages\<close>

lemma updates_loop_queue:
  "updates_loop ops g tx_max m self n xs upds = (rc, upds', q) \<Longrightarrow>
   set (ids q) \<subseteq> set (ids xs) \<and> (distinct (ids xs) \<longrightarrow> distinct (ids q))"
proof (induction xs arbitrary: upds rc upds' q)
  case (Cons x xs)
  show ?case
    using Cons.prems Cons.IH
    by (fastforce simp: Let_def split: if_splits sum.splits prod.splits)
qed simp

context swim_group
begin

lemma updates_loop_message:
  assumes "updates_loop ops g tx_max m self n xs upds = (rc, upds', q)" "length upds \<le> n"
    "distinct (map smu_id upds)" "distinct (ids xs)" "m \<in> set (map smu_id upds)" "self \<in> set (map smu_id upds)"
    "\<forall>u\<in>set upds. members g (smu_id u) = Some (smu_state u)"
    "set (map smu_id upds) \<inter> set (ids xs) \<subseteq> {m, self}"
  shows "rc = DER_SUCCESS \<and> length upds' \<le> n \<and> distinct (map smu_id upds') \<and>
    (\<exists>new. upds' = upds @ new) \<and> (\<forall>u\<in>set upds'. members g (smu_id u) = Some (smu_state u))"
  using assms
proof (induction xs arbitrary: upds rc upds' q)
  case (Cons x xs)
  show ?case
  proof (cases "n \<le> length upds \<or> si_id x = m \<or> si_id x = self \<or> members g (si_id x) = None")
    case True
    then obtain q' where "updates_loop ops g tx_max m self n xs upds = (rc, upds', q')"
      using Cons.prems(1) by (auto simp: Let_def get_unknown split: if_splits prod.splits)
    then show ?thesis by (rule Cons.IH) (use Cons.prems in auto)
  next
    case False
    then obtain st where st: "members g (si_id x) = Some st" by auto
    let ?upds = "upds @ [\<lparr>smu_id = si_id x, smu_state = st\<rparr>]"
    obtain q' where q': "updates_loop ops g tx_max m self n xs ?upds = (rc, upds', q')"
      using Cons.prems(1) False st by (auto simp: Let_def get_known split: if_splits prod.splits)
    have "rc = DER_SUCCESS \<and> length upds' \<le> n \<and> distinct (map smu_id upds') \<and>
      (\<exists>new. upds' = ?upds @ new) \<and> (\<forall>u\<in>set upds'. members g (smu_id u) = Some (smu_state u))"
      by (rule Cons.IH [OF q']) (use Cons.prems False st in auto)
    then show ?thesis by auto
  qed
qed auto

lemma updates_head_cases:
  obtains (fail) "updates_head ops g m self = Inl DER_NONEXIST"
  | (head) upds where "updates_head ops g m self = Inr upds" "upds \<noteq> []" "smu_id (hd upds) = m"
      "set (map smu_id upds) = {m, self}" "distinct (map smu_id upds)"
      "length upds = (if m \<noteq> self then 2 else 1)"
      "\<forall>u\<in>set upds. members g (smu_id u) = Some (smu_state u)"
proof -
  consider "members g m = None" | s where "members g m = Some s" "m = self"
    | s where "members g m = Some s" "m \<noteq> self" "members g self = None"
    | s t where "members g m = Some s" "m \<noteq> self" "members g self = Some t"
    by (cases "members g m"; cases "members g self"; cases "m = self") auto
  then show thesis
  proof cases
    case 1
    then show thesis by (intro fail) (simp add: updates_head_def get_unknown)
  next
    case (2 s)
    then show thesis
      by (intro head [of "[\<lparr>smu_id = m, smu_state = s\<rparr>]"]) (auto simp: updates_head_def get_known)
  next
    case (3 s)
    then show thesis by (intro fail) (simp add: updates_head_def get_known get_unknown)
  next
    case (4 s t)
    then show thesis
      by (intro head [of "[\<lparr>smu_id = m, smu_state = s\<rparr>, \<lparr>smu_id = self, smu_state = t\<rparr>]"])
        (auto simp: updates_head_def get_known)
  qed
qed

lemma updates_send_cases:
  assumes inv: "inv w" and snd: "swim_updates_send ops m to w = (rc, w')"
  shows "(rc \<in> {EINVAL, ENOMEM, DER_NONEXIST} \<and> sw_ctx w' = sw_ctx w \<and> sw_data w' = sw_data w \<and>
      swim_ping_timeout w' = swim_ping_timeout w \<and> sw_clock w' = sw_clock w) \<or>
    (\<exists>upds q. message_ok (mem w) (sc_self (sw_ctx w)) m upds \<and>
      send_message ops (sc_self (sw_ctx w)) to upds (sw_data w) = (rc, sw_data w') \<and>
      distinct (ids q) \<and> sw_ctx w' = (sw_ctx w)\<lparr>sc_updates := q\<rparr> \<and>
      swim_ping_timeout w' = swim_ping_timeout w \<and> sw_clock w' = sw_clock w)"
proof (cases "m = SWIM_ID_INVALID \<or> to = SWIM_ID_INVALID \<or> \<not> sw_alloc w (sw_nalloc w)")
  case True
  then show ?thesis using snd by (auto simp: swim_updates_send_def swim_alloc_def Let_def split: if_splits)
next
  case False
  let ?self = "sc_self (sw_ctx w)"
  let ?n = "SWIM_PIGGYBACK_ENTRIES + (if m \<noteq> ?self then 2 else 1)"
  show ?thesis
  proof (cases rule: updates_head_cases [of "sw_data w" m ?self])
    case fail
    then show ?thesis using snd False
      by (auto simp: swim_updates_send_def swim_alloc_def Let_def swim_self_get_def)
  next
    case (head upds0)
    obtain rc1 upds q where lp: "updates_loop ops (sw_data w) (sc_piggyback_tx_max (sw_ctx w)) m ?self ?n
        (updates w) upds0 = (rc1, upds, q)"
      by (metis prod_cases3)
    have d: "distinct (ids (updates w))" using inv by (simp add: swim_inv_def)
    from updates_loop_message [OF lp _ head(5) d _ _ head(7)] head(3,4,6)
    have m: "rc1 = DER_SUCCESS" "length upds \<le> ?n" "distinct (map smu_id upds)"
        "\<exists>new. upds = upds0 @ new" "\<forall>u\<in>set upds. mem w (smu_id u) = Some (smu_state u)"
      by auto
    then have "message_ok (mem w) ?self m upds"
      using head(2-4) by (auto simp: message_ok_def hd_append image_Un)
    moreover have "distinct (ids q)" using updates_loop_queue [OF lp] d by simp
    ultimately show ?thesis using snd False head(1) lp m(1)
      by (intro disjI2 exI [of _ upds] exI [of _ q]) (auto simp: swim_updates_send_def swim_alloc_def Let_def swim_self_get_def set_updates_def
          split: prod.splits)
  qed
qed

lemma send_evolves:
  assumes "inv w"
  shows "evo w (snd (swim_updates_send ops m to w)) \<and> kept w (snd (swim_updates_send ops m to w)) \<and>
    suspects (snd (swim_updates_send ops m to w)) = suspects w"
proof -
  obtain rc w' where w': "swim_updates_send ops m to w = (rc, w')" by fastforce
  from updates_send_cases [OF assms w']
  show ?thesis
  proof (elim disjE exE conjE, goal_cases)
    case 1
    then show ?case using assms w' by (auto intro!: evolves_frame simp: kept_def)
  next
    case (2 upds q)
    have okw: "ok (sw_data w)" using assms by (simp add: swim_inv_def)
    let ?self = "sc_self (sw_ctx w)"
    from send [OF okw 2(1), of to] 2(2)
    have g: "ok (sw_data w')" "mem w' = mem w \<or> (\<exists>m s. mem w m = Some s \<and>
        mem w' = (mem w)(m \<mapsto> \<lparr>sms_incarnation = sms_incarnation s + 1, sms_status = SWIM_MEMBER_DEAD\<rparr>))"
      by auto
    then have "msteps ?self (mem w) (mem w')" using mstep_fail [of "mem w" _ _ ?self] by fastforce
    moreover have "suspects_timed (mem w') (suspects w)"
      using g(2) assms by (auto simp: swim_inv_def suspects_timed_def split: if_splits)
    ultimately have "evo w w'" "kept w w'" "suspects w' = suspects w"
      using assms 2 g(1) by (auto simp: evolves_def swim_inv_def kept_def)
    then show ?case by (simp add: w')
  qed
qed

end
section \<open>Expiry of suspicions\<close>

text \<open>
  What the walk over the suspicions does to one entry, and to the table: an own suspicion that has
  expired kills the member, an expired suspicion of another member is taken over for one more ping
  timeout. The entry of a member that is dead already stays.
\<close>

definition expire :: "membership \<Rightarrow> u64 \<Rightarrow> swim_id_t \<Rightarrow> u64 \<Rightarrow> swim_item \<Rightarrow> swim_item list" where
  "expire T now self tmo item =
    (if \<not> now > si_u item then [item]
     else if si_from item \<noteq> self then [item\<lparr>si_from := self, si_u := si_u item + tmo\<rparr>]
     else (case T (si_id item) of
             None \<Rightarrow> []
           | Some s \<Rightarrow> if sms_status s = SWIM_MEMBER_DEAD then [item] else []))"

definition expired_own :: "u64 \<Rightarrow> swim_id_t \<Rightarrow> swim_item list \<Rightarrow> swim_id_t set" where
  "expired_own now self xs = {m. \<exists>item\<in>set xs. si_id item = m \<and> now > si_u item \<and> si_from item = self}"

definition killed :: "membership \<Rightarrow> swim_id_t set \<Rightarrow> membership" where
  "killed T A = (\<lambda>m. if m \<in> A then map_option (\<lambda>s. s\<lparr>sms_status := SWIM_MEMBER_DEAD\<rparr>) (T m) else T m)"

definition suspects_expired :: "membership \<Rightarrow> u64 \<Rightarrow> swim_id_t \<Rightarrow> u64 \<Rightarrow> swim_item list \<Rightarrow> swim_item list" where
  "suspects_expired T now self tmo xs = concat (map (expire T now self tmo) xs)"

lemma suspects_expired_simps [simp]:
  "suspects_expired T now self tmo [] = []"
  "suspects_expired T now self tmo (x # xs) = expire T now self tmo x @ suspects_expired T now self tmo xs"
  by (simp_all add: suspects_expired_def)

lemma suspects_expired_cong:
  "(\<And>m. m \<in> set (ids xs) \<Longrightarrow> T m = T' m) \<Longrightarrow>
   suspects_expired T now self tmo xs = suspects_expired T' now self tmo xs"
  by (induction xs) (auto simp: expire_def)

lemma expired_own_simps:
  "expired_own now self [] = {}"
  "expired_own now self (x # xs) =
    (if now > si_u x \<and> si_from x = self then {si_id x} else {}) \<union> expired_own now self xs"
  by (auto simp: expired_own_def)

lemma expired_own_ids: "expired_own now self xs \<subseteq> set (ids xs)"
  by (auto simp: expired_own_def ids_def)

lemma killed_empty [simp]: "killed T {} = T"
  by (simp add: killed_def)

lemma killed_insert:
  "m \<notin> A \<Longrightarrow> killed (killed T {m}) A = killed T (insert m A)"
  by (auto simp: killed_def)

lemma killed_None: "T m = None \<Longrightarrow> killed T {m} = T"
  by (auto simp: killed_def)

lemma killed_Some: "T m = Some s \<Longrightarrow> killed T {m} = T(m \<mapsto> s\<lparr>sms_status := SWIM_MEMBER_DEAD\<rparr>)"
  by (auto simp: killed_def)

lemma remove_item_middle:
  "distinct (ids (pre @ x # rest)) \<Longrightarrow> remove_item (si_id x) (pre @ x # rest) = pre @ rest"
  by (induction pre) auto

lemma suspects_timed_killed:
  "suspects_timed T (pre @ x # rest) \<Longrightarrow> T (si_id x) = None \<Longrightarrow> suspects_timed T (pre @ rest)"
  by (auto simp: suspects_timed_def)

text \<open>Messages that cannot be delivered only ever declare members dead.\<close>

definition only_failures :: "membership \<Rightarrow> membership \<Rightarrow> bool" where
  "only_failures T T' \<longleftrightarrow> dom T' = dom T \<and>
    (\<forall>m. T' m = T m \<or> (\<exists>s. T' m = Some s \<and> sms_status s = SWIM_MEMBER_DEAD))"

lemma only_failures_refl [simp]: "only_failures T T"
  by (simp add: only_failures_def)

lemma only_failures_trans: "only_failures T U \<Longrightarrow> only_failures U V \<Longrightarrow> only_failures T V"
  unfolding only_failures_def by metis

definition gone :: "membership \<Rightarrow> swim_id_t \<Rightarrow> bool" where
  "gone T m \<longleftrightarrow> T m = None \<or> (\<exists>s. T m = Some s \<and> sms_status s = SWIM_MEMBER_DEAD)"

lemma only_failures_gone: "only_failures T T' \<Longrightarrow> gone T m \<Longrightarrow> gone T' m"
  unfolding only_failures_def gone_def by metis

lemma killed_gone: "m \<in> A \<Longrightarrow> gone (killed T A) m"
  by (cases "T m") (simp_all add: killed_def gone_def)

context swim_group
begin

text \<open>An expired own suspicion: the member dies, or was dead or unknown before.\<close>

lemma expire_own_step:
  assumes "inv w" "suspects w = pre @ x # rest" "now > si_u x" "si_from x = self"
    "self = sc_self (sw_ctx w)"
  shows "\<exists>v. (\<exists>e. suspects_loop ops now self (x # rest) rc targets w = suspects_loop ops now self rest e targets v) \<and>
    evo w v \<and> kept w v \<and> swim_ping_timeout v = swim_ping_timeout w \<and>
    suspects v = pre @ expire (mem w) now self (swim_ping_timeout w) x @ rest \<and> mem v = killed (mem w) {si_id x}"
proof (cases rule: get_cases [of w "si_id x"])
  case (known s)
  have loop: "\<exists>e. suspects_loop ops now self (x # rest) rc targets w =
      suspects_loop ops now self rest e targets (snd (swim_member_dead ops self (si_id x) (sms_incarnation s) w))"
    using assms(3,4) known(2) by (auto simp: Let_def split: prod.splits)
  show ?thesis
  proof (cases "sms_status s = SWIM_MEMBER_DEAD")
    case True
    then have "snd (swim_member_dead ops self (si_id x) (sms_incarnation s) w) = w"
      using dead_ignored [of w "si_id x" "sms_incarnation s" self] known(1) by auto
    moreover have "killed (mem w) {si_id x} = mem w"
      using known(1) True by (cases s) (auto simp: killed_def)
    ultimately show ?thesis using loop assms known(1) True evolves_refl [OF assms(1)]
      by (intro exI [of _ w]) (auto simp: expire_def)
  next
    case False
    then obtain v where v: "swim_member_dead ops self (si_id x) (sms_incarnation s) w = (DER_SUCCESS, v)"
        "evo w v" "kept w v"
        "mem v = (mem w)(si_id x \<mapsto> \<lparr>sms_incarnation = sms_incarnation s, sms_status = SWIM_MEMBER_DEAD\<rparr>)"
        "suspects v = remove_item (si_id x) (suspects w)"
      using dead_effect [OF assms(1) known(1), of "sms_incarnation s" self] by auto
    have "swim_ping_timeout v = swim_ping_timeout w"
      using v(1) by (auto simp: swim_member_dead_def swim_updates_notify_def Let_def swim_alloc_def
          set_updates_def set_suspects_def split: sum.splits if_splits prod.splits)
    moreover have "mem v = killed (mem w) {si_id x}"
      using v(4) known(1) by (cases s) (auto simp: killed_Some)
    moreover have "suspects v = pre @ rest"
      using v(5) assms(1,2) remove_item_middle [of pre x rest] by (simp add: swim_inv_def)
    ultimately show ?thesis using loop v assms known(1) False
      by (intro exI [of _ v]) (auto simp: expire_def)
  qed
next
  case unknown
  let ?v = "set_suspects (pre @ rest) w"
  have "\<exists>e. suspects_loop ops now self (x # rest) rc targets w = suspects_loop ops now self rest e targets ?v"
    using assms(2-4) unknown(2) by (auto simp: Let_def)
  moreover have "evo w ?v"
    using assms(1,2) suspects_timed_killed [of "mem w" pre x rest] unknown(1)
    by (auto simp: evolves_def swim_inv_def swim_simps)
  ultimately show ?thesis using assms unknown(1)
    by (intro exI [of _ ?v]) (auto simp: swim_simps expire_def killed_None)
qed

lemma suspects_loop_effect:
  assumes "suspects_loop ops now self rest rc targets w = (rc', targets', w')" "inv w"
    "suspects w = pre @ rest" "self = sc_self (sw_ctx w)"
  shows "evo w w' \<and> kept w w' \<and>
    suspects w' = pre @ suspects_expired (mem w) now self (swim_ping_timeout w) rest \<and>
    mem w' = killed (mem w) (expired_own now self rest)"
  using assms
proof (induction rest arbitrary: pre rc targets w)
  case Nil
  then show ?case by (simp add: evolves_refl expired_own_simps)
next
  case (Cons x rest)
  have d: "distinct (ids (pre @ x # rest))" using Cons.prems by (simp add: swim_inv_def)
  have "\<exists>v e ts. suspects_loop ops now self (x # rest) rc targets w = suspects_loop ops now self rest e ts v \<and>
      evo w v \<and> kept w v \<and> swim_ping_timeout v = swim_ping_timeout w \<and>
      suspects v = pre @ expire (mem w) now self (swim_ping_timeout w) x @ rest \<and>
      mem v = killed (mem w) (expired_own now self [x])"
  proof (cases "now > si_u x \<and> si_from x = self")
    case True
    then show ?thesis
      using expire_own_step [of w pre x rest now self rc targets] Cons.prems
      by (simp add: expired_own_simps del: suspects_loop.simps) blast
  next
    case False
    let ?x = "x\<lparr>si_from := self, si_u := si_u x + swim_ping_timeout w\<rparr>"
    let ?v = "snd (swim_alloc (set_suspects (pre @ ?x # rest) w))"
    show ?thesis
    proof (cases "now > si_u x")
      case True
      have "\<exists>e ts. suspects_loop ops now self (x # rest) rc targets w = suspects_loop ops now self rest e ts ?v"
        using True False Cons.prems(3) by (auto simp: Let_def swim_alloc_def)
      moreover have "evo w ?v"
        using Cons.prems(2,3) by (auto simp: evolves_def swim_inv_def swim_simps suspects_timed_def)
      moreover have "kept w ?v" by (simp add: kept_def swim_simps) (simp add: swim_alloc_def set_suspects_def)
      ultimately show ?thesis using True False
        by (intro exI [of _ ?v]) (simp add: swim_simps expire_def expired_own_simps del: suspects_loop.simps)
    next
      case False
      then show ?thesis using Cons.prems evolves_refl [of ok members w]
        by (intro exI [of _ w] exI [of _ rc] exI [of _ targets]) (auto simp: expire_def expired_own_simps)
    qed
  qed
  then obtain v e ts where v: "suspects_loop ops now self rest e ts v = (rc', targets', w')" "evo w v" "kept w v"
      "swim_ping_timeout v = swim_ping_timeout w"
      "suspects v = (pre @ expire (mem w) now self (swim_ping_timeout w) x) @ rest"
      "mem v = killed (mem w) (expired_own now self [x])"
    using Cons.prems(1) by auto
  have inv: "inv v" "self = sc_self (sw_ctx v)" using v(2) Cons.prems(4) by (auto simp: evolves_def)
  have x: "si_id x \<notin> set (ids rest)" using d by simp
  have "suspects_expired (mem v) now self tmo rest = suspects_expired (mem w) now self tmo rest" for tmo
    by (rule suspects_expired_cong) (use x in \<open>auto simp: v(6) killed_def expired_own_simps split: if_splits\<close>)
  moreover have "killed (mem v) (expired_own now self rest) = killed (mem w) (expired_own now self (x # rest))"
    using expired_own_ids [of now self rest] x by (auto simp: v(6) expired_own_simps intro!: killed_insert)
  ultimately show ?case
    using Cons.IH [OF v(1) inv(1) v(5) inv(2)] v(2-4) evolves_trans [of ok members w v w'] kept_trans [of w v w']
    by simp
qed

lemma send_failures:
  assumes "inv w"
  shows "only_failures (mem w) (mem (snd (swim_updates_send ops m to w))) \<and>
    swim_ping_timeout (snd (swim_updates_send ops m to w)) = swim_ping_timeout w"
proof -
  obtain rc w' where w': "swim_updates_send ops m to w = (rc, w')" by fastforce
  have okw: "ok (sw_data w)" using assms by (simp add: swim_inv_def)
  from updates_send_cases [OF assms w'] show ?thesis
  proof (elim disjE exE conjE, goal_cases)
    case (2 upds q)
    from send [OF okw 2(1), of to] 2(2,5) show ?case
      by (auto simp: w' only_failures_def split: if_splits)
  qed (simp add: w')
qed

lemma confirm_loop_effect:
  assumes "confirm_loop ops targets rc w = (rc', w')" "inv w"
  shows "evo w w' \<and> kept w w' \<and> suspects w' = suspects w \<and> only_failures (mem w) (mem w') \<and>
    swim_ping_timeout w' = swim_ping_timeout w"
  using assms
proof (induction targets arbitrary: rc w)
  case Nil
  then show ?case by (simp add: evolves_refl)
next
  case (Cons x targets)
  let ?v = "snd (swim_updates_send ops (si_id x) (si_from x) w)"
  have v: "evo w ?v" "kept w ?v" "suspects ?v = suspects w" "only_failures (mem w) (mem ?v)"
      "swim_ping_timeout ?v = swim_ping_timeout w"
    using send_evolves [OF Cons.prems(2)] send_failures [OF Cons.prems(2)] by blast+
  have "confirm_loop ops targets (fst (swim_updates_send ops (si_id x) (si_from x) w)) ?v = (rc', w')"
    using Cons.prems(1) by (auto split: prod.splits)
  from Cons.IH [OF this evolvesD [OF v(1)]] v show ?case
    using evolves_trans [of ok members w ?v w'] kept_trans [of w ?v w'] only_failures_trans by simp
qed

lemma update_suspected_effect:
  assumes "swim_member_update_suspected ops now w = (rc, w')" "inv w"
  shows "evo w w' \<and> kept w w' \<and>
    suspects w' = suspects_expired (mem w) now (sc_self (sw_ctx w)) (swim_ping_timeout w) (suspects w) \<and>
    only_failures (killed (mem w) (expired_own now (sc_self (sw_ctx w)) (suspects w))) (mem w')"
proof -
  let ?self = "sc_self (sw_ctx w)"
  obtain rc1 targets v where v: "suspects_loop ops now ?self (suspects w) DER_SUCCESS [] w = (rc1, targets, v)"
    by (metis prod_cases3)
  then have c: "confirm_loop ops targets rc1 v = (rc, w')"
    using assms(1) by (simp add: swim_member_update_suspected_def swim_self_get_def)
  note l = suspects_loop_effect [OF v assms(2), of "[]", simplified]
  note r = confirm_loop_effect [OF c evolvesD [of ok members w v]]
  from l r show ?thesis
    using evolves_trans [of ok members w v w'] kept_trans [of w v w'] by simp
qed

lemma expired_own_gone:
  assumes "swim_member_update_suspected ops now w = (rc, w')" "inv w"
    "item \<in> set (suspects w)" "now > si_u item" "si_from item = sc_self (sw_ctx w)"
  shows "gone (mem w') (si_id item)"
proof -
  have "si_id item \<in> expired_own now (sc_self (sw_ctx w)) (suspects w)"
    using assms(3-5) by (auto simp: expired_own_def)
  then have "gone (killed (mem w) (expired_own now (sc_self (sw_ctx w)) (suspects w))) (si_id item)"
    by (rule killed_gone)
  then show ?thesis using update_suspected_effect [OF assms(1,2)] only_failures_gone by blast
qed

end

end
