(* ===== verification/Swim_Run.thy ===== *)
theory Swim_Run
  imports Swim_Inv
begin

text \<open>
  The two entry points of the SWIM protocol under the contract of the group layer: every round of the
  state machine and every received message keeps the invariant and refines the abstract membership
  machine, and a call of \<open>swim_progress\<close> with the timeout the library uses returns.
\<close>

section \<open>Rounds of the state machine\<close>

lemma state_set_proj [swim_simps]:
  "sc_subgroup (swim_state_set c st) = sc_subgroup c" "sc_suspects (swim_state_set c st) = sc_suspects c"
  "sc_updates (swim_state_set c st) = sc_updates c" "sc_ipings (swim_state_set c st) = sc_ipings c"
  "sc_self (swim_state_set c st) = sc_self c" "sc_state (swim_state_set c st) = st"
  "sc_target (swim_state_set c st) = sc_target c"
  "sc_piggyback_tx_max (swim_state_set c st) = sc_piggyback_tx_max c"
  by (simp_all add: swim_state_set_def)

text \<open>How many more rounds can end in the state that forces another one.\<close>

definition rounds_left :: "'g swim_world \<Rightarrow> nat" where
  "rounds_left w =
    (let n = (if subgroup w = [] then SWIM_SUBGROUP_SIZE else length (subgroup w)) in
     case sc_state (sw_ctx w) of SCS_DPINGED \<Rightarrow> Suc n | SCS_TIMEDOUT \<Rightarrow> n | _ \<Rightarrow> 0)"

lemma rounds_left_kept: "kept w w' \<Longrightarrow> rounds_left w' = rounds_left w"
  by (simp add: rounds_left_def kept_def)

text \<open>The clock and the pending work that a step of the round leaves behind.\<close>

definition switched :: "'g swim_world \<Rightarrow> swim_move \<Rightarrow> 'g swim_world \<Rightarrow> bool" where
  "switched w move w' \<longleftrightarrow> sw_clock w' = sw_clock w \<and>
    (\<forall>send. move = Inr (SCS_TIMEDOUT, send) \<longrightarrow>
      rounds_left (w'\<lparr>sw_ctx := swim_state_set (sw_ctx w') SCS_TIMEDOUT\<rparr>) < rounds_left w)"

context swim_group
begin

lemma subgroup_loop_effect:
  assumes "inv w"
  shows "\<exists>rc w'. subgroup_loop ops n w = Some (rc, w') \<and> evo w w' \<and>
    length (subgroup w') \<le> length (subgroup w) + n \<and> sc_state (sw_ctx w') = sc_state (sw_ctx w) \<and>
    sw_clock w' = sw_clock w"
  using assms
proof (induction n arbitrary: w)
  case 0
  then show ?case by (simp add: evolves_refl)
next
  case (Suc n)
  have "ok (sw_data w)" using Suc.prems by (simp add: swim_inv_def)
  from iping [OF this, of "sc_self (sw_ctx w)"] obtain m g where
    g: "get_iping_target ops (sc_self (sw_ctx w)) (sw_data w) = Some (m, g)" "ok g" "members g = mem w"
    by auto
  let ?w1 = "w\<lparr>sw_data := g\<rparr>"
  let ?w2 = "snd (swim_alloc ?w1)"
  let ?w3 = "set_subgroup (subgroup ?w2 @ [\<lparr>si_id = m, si_from = 0, si_u = 0\<rparr>]) ?w2"
  have e: "evo w ?w1" "evo w ?w2" "evo w ?w3"
    using Suc.prems g(2,3) by (auto simp: evolves_def swim_inv_def swim_simps)
  have f: "sw_clock ?w2 = sw_clock w" "sw_clock ?w3 = sw_clock w"
    "sc_state (sw_ctx ?w3) = sc_state (sw_ctx w)" "length (subgroup ?w3) = Suc (length (subgroup w))"
    by (simp_all add: swim_alloc_def set_subgroup_def)
  consider "m = SWIM_ID_INVALID" | "m \<noteq> SWIM_ID_INVALID" "\<not> fst (swim_alloc ?w1)"
    | "m \<noteq> SWIM_ID_INVALID" "fst (swim_alloc ?w1)" by blast
  then show ?case
  proof cases
    case 1
    then show ?thesis using g e(1) by (simp add: Let_def)
  next
    case 2
    then show ?thesis using g e(2) f(1) by (simp add: Let_def case_prod_beta)
  next
    case 3
    from Suc.IH [OF evolvesD [OF e(3)]] obtain rc w' where
      w': "subgroup_loop ops n ?w3 = Some (rc, w')" "evo ?w3 w'"
        "length (subgroup w') \<le> length (subgroup ?w3) + n"
        "sc_state (sw_ctx w') = sc_state (sw_ctx ?w3)" "sw_clock w' = sw_clock ?w3"
      by blast
    have "subgroup_loop ops (Suc n) w = Some (rc, w')"
      using 3 g(1) w'(1) by (simp add: Let_def case_prod_beta)
    then show ?thesis using w' f evolves_trans [OF e(3) w'(2)] by auto
  qed
qed

lemma progress_next_effect:
  assumes "inv w"
  shows "\<exists>move w'. progress_next ops w = Some (move, w') \<and> evo w w' \<and> switched w move w'"
proof -
  have "ok (sw_data w)" using assms by (simp add: swim_inv_def)
  from dping [OF this, of "sc_self (sw_ctx w)"] obtain m g where
    g: "get_dping_target ops (sc_self (sw_ctx w)) (sw_data w) = Some (m, g)" "ok g" "members g = mem w"
    by auto
  then show ?thesis using assms
    by (auto simp: progress_next_def Let_def evolves_def swim_inv_def switched_def)
qed

lemma progress_begin_effect:
  "inv w \<Longrightarrow> evo w (snd (progress_begin now w)) \<and>
    switched w (fst (progress_begin now w)) (snd (progress_begin now w))"
  by (auto simp: progress_begin_def Let_def switched_def intro!: evolves_frame)

lemma progress_dpinged_effect:
  assumes "inv w" "sc_state (sw_ctx w) = SCS_DPINGED"
  shows "evo w (snd (progress_dpinged ops now st w)) \<and>
    switched w (fst (progress_dpinged ops now st w)) (snd (progress_dpinged ops now st w))"
proof -
  let ?v = "snd (swim_member_suspect ops (sc_self (sw_ctx w)) (sc_target (sw_ctx w)) (sms_incarnation st) w)"
  have v: "evo w ?v" "kept w ?v" using suspect_evolves [OF assms(1)] by blast+
  then have "rounds_left (?v\<lparr>sw_ctx := swim_state_set (sw_ctx ?v) SCS_TIMEDOUT\<rparr>) < rounds_left w"
    using assms(2) by (simp add: rounds_left_def kept_def swim_simps)
  then show ?thesis using v evolves_refl [OF assms(1)]
    by (auto simp: progress_dpinged_def Let_def switched_def kept_def)
qed

lemma progress_ipinged_effect:
  assumes "inv w"
  shows "evo w (snd (progress_ipinged ops now st w)) \<and>
    switched w (fst (progress_ipinged ops now st w)) (snd (progress_ipinged ops now st w))"
proof -
  let ?v = "snd (swim_member_dead ops (sc_self (sw_ctx w)) (sc_target (sw_ctx w)) (sms_incarnation st) w)"
  have "evo w ?v" "kept w ?v" using dead_evolves [OF assms] by blast+
  then show ?thesis using evolves_refl [OF assms]
    by (auto simp: progress_ipinged_def Let_def switched_def kept_def)
qed

lemma progress_timedout_effect:
  assumes "inv w" "sc_state (sw_ctx w) = SCS_TIMEDOUT"
  shows "\<exists>move w'. progress_timedout ops now w = Some (move, w') \<and> evo w w' \<and> switched w move w'"
proof -
  have "\<exists>rc v. (if subgroup w = [] then swim_subgroup_init ops w else Some (DER_SUCCESS, w)) = Some (rc, v) \<and>
      evo w v \<and> length (subgroup v) \<le> rounds_left w \<and> sw_clock v = sw_clock w"
    using subgroup_loop_effect [OF assms(1), of SWIM_SUBGROUP_SIZE] assms
    by (auto simp: swim_subgroup_init_def evolves_refl rounds_left_def)
  then obtain rc v where
    v: "(if subgroup w = [] then swim_subgroup_init ops w else Some (DER_SUCCESS, w)) = Some (rc, v)"
      "evo w v" "length (subgroup v) \<le> rounds_left w" "sw_clock v = sw_clock w"
    by blast
  consider (err) "rc \<noteq> DER_SUCCESS" | (none) "rc = DER_SUCCESS" "subgroup v = []"
    | (some) item rest where "rc = DER_SUCCESS" "subgroup v = item # rest"
    by (cases "subgroup v") auto
  then show ?thesis
  proof cases
    case err
    then show ?thesis using v by (simp add: progress_timedout_def switched_def)
  next
    case none
    with v(1) have "progress_timedout ops now w = progress_next ops v" by (simp add: progress_timedout_def)
    moreover obtain move w' where n: "progress_next ops v = Some (move, w')" "evo v w'" "switched v move w'"
      using progress_next_effect [OF evolvesD [OF v(2)]] by blast
    moreover have "\<nexists>send. move = Inr (SCS_TIMEDOUT, send)"
      using n(1) by (auto simp: progress_next_def Let_def split: option.splits prod.splits if_splits)
    ultimately show ?thesis using v evolves_trans [OF v(2) n(2)] by (auto simp: switched_def)
  next
    case some
    let ?x = "set_subgroup rest v"
    have "evo w ?x" by (rule evolves_trans [OF v(2)], rule evolves_frame [OF evolvesD [OF v(2)]])
        (simp_all add: swim_simps)
    moreover have "evo w (?x\<lparr>sw_ctx := (sw_ctx ?x)\<lparr>sc_iping_deadline := now + 2 * swim_ping_timeout ?x\<rparr>\<rparr>)"
      by (rule evolves_trans [OF \<open>evo w ?x\<close>], rule evolves_frame [OF evolvesD [OF \<open>evo w ?x\<close>]]) simp_all
    moreover have "rest \<noteq> [] \<Longrightarrow> rounds_left (?x\<lparr>sw_ctx := swim_state_set (sw_ctx ?x) SCS_TIMEDOUT\<rparr>) < rounds_left w"
      using v(3) some(2) by (simp add: rounds_left_def [of "_\<lparr>sw_ctx := _\<rparr>"] swim_simps)
    moreover have "sw_clock ?x = sw_clock w" using v(4) by (simp add: set_subgroup_def)
    ultimately show ?thesis using v(1) some by (auto simp: progress_timedout_def Let_def switched_def)
  qed
qed

lemma progress_switch_effect:
  assumes "inv w"
  shows "\<exists>move w'. progress_switch ops now w = Some (move, w') \<and> evo w w' \<and> switched w move w'"
proof -
  let ?w1 = "w\<lparr>sw_ctx := (sw_ctx w)\<lparr>sc_target := SWIM_ID_INVALID\<rparr>\<rparr>"
  have e: "evo w ?w1" by (rule evolves_frame [OF assms]) simp_all
  have r: "rounds_left ?w1 = rounds_left w" by (simp add: rounds_left_def)
  have t: "sc_state (sw_ctx w) = SCS_TIMEDOUT \<Longrightarrow> ?thesis" if "sc_target (sw_ctx w) \<noteq> SWIM_ID_INVALID"
      "get_member_state ops (sc_target (sw_ctx w)) (sw_data w) = Inr s" for s
    using progress_timedout_effect [OF assms] that by (simp add: progress_switch_def swim_state_get_def)
  show ?thesis
  proof (cases "sc_target (sw_ctx w) = SWIM_ID_INVALID")
    case True
    then show ?thesis using progress_next_effect [OF assms] by (simp add: progress_switch_def)
  next
    case False
    show ?thesis
    proof (cases rule: get_cases [of w "sc_target (sw_ctx w)"])
      case (known s)
      then show ?thesis
        using False t progress_next_effect [OF assms] progress_begin_effect [OF assms]
          progress_dpinged_effect [OF assms] progress_ipinged_effect [OF assms]
        by (cases "sc_state (sw_ctx w)") (auto simp: progress_switch_def swim_state_get_def prod_eq_iff)
    next
      case unknown
      obtain move w' where n: "progress_next ops ?w1 = Some (move, w')" "evo ?w1 w'" "switched ?w1 move w'"
        using progress_next_effect [OF evolvesD [OF e]] by blast
      then have "progress_switch ops now w = Some (move, w')"
        using False unknown by (simp add: progress_switch_def)
      then show ?thesis using n evolves_trans [OF e n(2)] r by (auto simp: switched_def)
    qed
  qed
qed

lemma swim_round_effect:
  assumes "inv w"
  shows "\<exists>r w'. swim_round ops now w = Some (r, w') \<and> evo w w' \<and> sw_clock w' = sw_clock w \<and>
    (r = Inr SCS_TIMEDOUT \<longrightarrow> rounds_left w' < rounds_left w)"
proof -
  obtain rc w1 where u: "swim_member_update_suspected ops now w = (rc, w1)" by fastforce
  have e1: "evo w w1" "kept w w1" using update_suspected_effect [OF u assms] by blast+
  let ?w2 = "set_ipings (filter (\<lambda>item. \<not> now > si_u item) (ipings w1)) w1"
  have e2: "evo w ?w2"
    by (rule evolves_trans [OF e1(1)], rule evolves_frame [OF evolvesD [OF e1(1)]]) (simp_all add: swim_simps)
  have r2: "rounds_left ?w2 = rounds_left w" "sw_clock ?w2 = sw_clock w"
    using e1(2) by (simp_all add: rounds_left_def kept_def set_ipings_def)
  obtain move w3 where s: "progress_switch ops now ?w2 = Some (move, w3)" "evo ?w2 w3" "switched ?w2 move w3"
    using progress_switch_effect [OF evolvesD [OF e2]] by blast
  have e3: "evo w w3" using evolves_trans [OF e2 s(2)] .
  have clk: "sw_clock w3 = sw_clock w" using s(3) r2 by (simp add: switched_def)
  show ?thesis
  proof (cases "rc = DER_SUCCESS")
    case False
    then show ?thesis using u e1 by (simp add: swim_round_def Let_def kept_def)
  next
    case True
    show ?thesis
    proof (cases move)
      case (Inl e)
      then show ?thesis using u True s e3 clk by (simp add: swim_round_def Let_def swim_ipings_update_def)
    next
      case (Inr p)
      obtain st send where p: "p = (st, send)" by fastforce
      let ?w4 = "w3\<lparr>sw_ctx := swim_state_set (sw_ctx w3) st\<rparr>"
      have e4: "evo w ?w4"
        by (rule evolves_trans [OF e3], rule evolves_frame [OF evolvesD [OF e3]]) (simp_all add: swim_simps)
      have r4: "st = SCS_TIMEDOUT \<Longrightarrow> rounds_left ?w4 < rounds_left w"
        using s(3) r2(1) Inr p by (simp add: switched_def)
      show ?thesis
      proof (cases send)
        case None
        then show ?thesis using u True s(1) Inr p e4 r4 clk
          by (simp add: swim_round_def Let_def swim_ipings_update_def)
      next
        case (Some q)
        obtain tgt to where q: "q = (tgt, to)" by fastforce
        let ?w5 = "snd (swim_updates_send ops tgt to ?w4)"
        have e5: "evo ?w4 ?w5" "kept ?w4 ?w5" using send_evolves [OF evolvesD [OF e4]] by blast+
        have "swim_round ops now w = Some (if fst (swim_updates_send ops tgt to ?w4) \<noteq> DER_SUCCESS
            then Inl (fst (swim_updates_send ops tgt to ?w4)) else Inr st, ?w5)"
          using u True s(1) Inr p Some q
          by (simp add: swim_round_def Let_def swim_ipings_update_def split_def)
        moreover have "sw_clock ?w5 = sw_clock w" using e5(2) clk by (simp add: kept_def)
        moreover have "rounds_left ?w5 = rounds_left ?w4" using e5(2) by (rule rounds_left_kept)
        ultimately show ?thesis using evolves_trans [OF e4 e5(1)] r4 by simp
      qed
    qed
  qed
qed

text \<open>With no time to spend, the loop ends as soon as the state does not force another round.\<close>

lemma progress_loop_returns:
  assumes "inv w" "\<And>n. sw_clock w n \<noteq> 0" "now \<noteq> 0"
  shows "\<exists>rc now' w'. swim_progress_loop ops 0 now st w = Some (rc, now', w') \<and> evo w w'"
  using assms
proof (induction "rounds_left w" arbitrary: w now st rule: less_induct)
  case less
  have now: "\<not> now \<le> 0" using less.prems(3) by simp
  show ?case
  proof (cases "st = SCS_TIMEDOUT")
    case False
    then show ?thesis using now evolves_refl [OF less.prems(1)] by (simp add: swim_progress_loop.simps)
  next
    case True
    obtain r w1 where r: "swim_round ops now w = Some (r, w1)" "evo w w1" "sw_clock w1 = sw_clock w"
        "r = Inr SCS_TIMEDOUT \<longrightarrow> rounds_left w1 < rounds_left w"
      using swim_round_effect [OF less.prems(1)] by blast
    let ?w2 = "snd (swim_now_ms w1)"
    have e2: "evo w ?w2"
      by (rule evolves_trans [OF r(2)], rule evolves_frame [OF evolvesD [OF r(2)]]) (simp_all add: swim_simps)
    have c2: "sw_clock ?w2 n \<noteq> 0" "fst (swim_now_ms w1) \<noteq> 0" for n
      using less.prems(2) r(3) by (simp_all add: swim_now_ms_def)
    have m2: "rounds_left ?w2 = rounds_left w1" by (simp add: rounds_left_def swim_simps)
    have loop: "swim_progress_loop ops 0 now st w = (case r of Inl rc \<Rightarrow> Some (rc, now, w1)
        | Inr st' \<Rightarrow> swim_progress_loop ops 0 (fst (swim_now_ms w1)) st' ?w2)"
      using True r(1) by (subst swim_progress_loop.simps) simp
    show ?thesis
    proof (cases r)
      case (Inl rc)
      then show ?thesis using loop r(2) by simp
    next
      case (Inr st')
      have "\<exists>rc now' w'. swim_progress_loop ops 0 (fst (swim_now_ms w1)) st' ?w2 = Some (rc, now', w') \<and> evo ?w2 w'"
      proof (cases "st' = SCS_TIMEDOUT")
        case True
        then show ?thesis using less.hyps [OF _ evolvesD [OF e2] c2] r(4) Inr m2 by simp
      next
        case False
        then have "swim_progress_loop ops 0 (fst (swim_now_ms w1)) st' ?w2 =
            Some (ETIMEDOUT, fst (swim_now_ms w1), ?w2)"
          using c2(2) by (subst swim_progress_loop.simps) (auto simp: word_neq_0_conv)
        then show ?thesis using evolves_refl [OF evolvesD [OF e2]] by blast
      qed
      then show ?thesis using loop Inr evolves_trans [OF e2] by auto
    qed
  qed
qed

lemma progress_returns:
  assumes "inv w" "\<And>n. sw_clock w n \<noteq> 0"
  shows "\<exists>rc w'. swim_progress ops 0 (Some w) = Some (rc, Some w') \<and> evo w w'"
proof (cases "sc_self (sw_ctx w) = SWIM_ID_INVALID")
  case True
  then show ?thesis using evolves_refl [OF assms(1)] by (simp add: swim_progress_def)
next
  case False
  let ?w1 = "snd (swim_now_ms w)"
  have e: "evo w ?w1" by (rule evolves_frame [OF assms(1)]) (simp_all add: swim_simps)
  obtain rc now' w2 where l: "swim_progress_loop ops 0 (fst (swim_now_ms w)) SCS_TIMEDOUT ?w1 = Some (rc, now', w2)"
      "evo ?w1 w2"
    using progress_loop_returns [OF evolvesD [OF e], of "fst (swim_now_ms w)" SCS_TIMEDOUT] assms(2)
    by (auto simp: swim_now_ms_def)
  let ?w3 = "w2\<lparr>sw_ctx := (sw_ctx w2)\<lparr>sc_expect_progress_time := now' + SWIM_PROTOCOL_PERIOD_LEN div 2\<rparr>\<rparr>"
  have "evo w2 ?w3" by (rule evolves_frame [OF evolvesD [OF l(2)]]) simp_all
  then have "evo w ?w3" using evolves_trans [OF evolves_trans [OF e l(2)]] by blast
  moreover have "swim_progress ops 0 (Some w) = Some (rc, Some ?w3)"
    using False l(1) by (simp add: swim_progress_def Let_def split_def)
  ultimately show ?thesis by blast
qed

text \<open>For any timeout, a call that returns has only made steps of the membership machine.\<close>

lemma progress_loop_evolves:
  assumes "swim_progress_loop ops end_time now st w = Some (rc, now', w')" "inv w"
  shows "evo w w'"
proof -
  have "ops = ops \<longrightarrow> inv w \<longrightarrow> evo w (snd (snd (rc, now', w')))"
  proof (rule swim_progress_loop.raw_induct [OF _ assms(1),
        where P = "\<lambda>ops' e n s v r. ops' = ops \<longrightarrow> inv v \<longrightarrow> evo v (snd (snd r))"], intro impI, goal_cases)
    case (1 f ops' e n s v r)
    show ?case
    proof (cases "n \<le> e \<or> s = SCS_TIMEDOUT")
      case False
      then show ?thesis using 1(2) evolves_refl [OF 1(4)] by auto
    next
      case True
      obtain q v1 where q: "swim_round ops n v = Some (q, v1)" "evo v v1"
        using swim_round_effect [OF 1(4)] by blast
      have e: "evo v (snd (swim_now_ms v1))"
        by (rule evolves_trans [OF q(2)], rule evolves_frame [OF evolvesD [OF q(2)]]) (simp_all add: swim_simps)
      show ?thesis
      proof (cases q)
        case (Inl e')
        then show ?thesis using 1(2,3) True q by auto
      next
        case (Inr st')
        then have "f ops e (fst (swim_now_ms v1)) st' (snd (swim_now_ms v1)) = Some r"
          using 1(2,3) True q(1) by simp
        from 1(1) [OF this] evolvesD [OF e] evolves_trans [OF e] show ?thesis by blast
      qed
    qed
  qed
  then show ?thesis using assms(2) by simp
qed

lemma progress_evolves:
  assumes "swim_progress ops timeout (Some w) = Some (rc, wo)" "inv w"
  shows "\<exists>w'. wo = Some w' \<and> evo w w'"
proof (cases "sc_self (sw_ctx w) = SWIM_ID_INVALID")
  case True
  then show ?thesis using assms evolves_refl by (auto simp: swim_progress_def)
next
  case False
  let ?w1 = "snd (swim_now_ms w)"
  have e: "evo w ?w1" by (rule evolves_frame [OF assms(2)]) (simp_all add: swim_simps)
  from assms(1) False obtain now' w2 end_time where
    l: "swim_progress_loop ops end_time (fst (swim_now_ms w)) SCS_TIMEDOUT ?w1 = Some (rc, now', w2)"
      "wo = Some (w2\<lparr>sw_ctx := (sw_ctx w2)\<lparr>sc_expect_progress_time := now' + SWIM_PROTOCOL_PERIOD_LEN div 2\<rparr>\<rparr>)"
    by (fastforce simp: swim_progress_def Let_def split_def split: option.splits)
  note e2 = progress_loop_evolves [OF l(1) evolvesD [OF e]]
  have "evo w2 (the wo)" unfolding l(2) option.sel by (rule evolves_frame [OF evolvesD [OF e2]]) simp_all
  then show ?thesis using l(2) evolves_trans [OF evolves_trans [OF e e2]] by auto
qed

section \<open>Received messages\<close>

lemma refute_effect:
  assumes "inv w" "mem w (sc_self (sw_ctx w)) = Some s"
  shows "\<exists>w'. swim_updates_notify ops (sc_self (sw_ctx w)) (sc_self (sw_ctx w))
      (s\<lparr>sms_incarnation := sms_incarnation s + 1\<rparr>) w = (DER_SUCCESS, w') \<and> evo w w' \<and> kept w w' \<and>
    mem w' = (mem w)(sc_self (sw_ctx w) \<mapsto> s\<lparr>sms_incarnation := sms_incarnation s + 1\<rparr>)"
proof -
  let ?self = "sc_self (sw_ctx w)"
  let ?t = "s\<lparr>sms_incarnation := sms_incarnation s + 1\<rparr>"
  have i: "distinct (ids (suspects w))" "ping_timeout_ok (swim_ping_timeout w)"
      "suspects_timed (mem w) (suspects w)"
    using assms(1) by (simp_all add: swim_inv_def)
  then have "suspects_timed ((mem w)(?self \<mapsto> ?t)) (suspects w)"
    using assms(2) by (intro suspects_timed_mono) (auto simp: suspects_timed_def)
  from notify_evolves [OF assms(1) refl refl refl kept_refl i(1,2) this assms(2) mstep_refute [of "mem w", OF assms(2)]]
  show ?thesis by blast
qed

lemma parse_update_effect:
  assumes "inv w" "self = sc_self (sw_ctx w)"
  shows "evo w (snd (parse_update ops self from upd st w)) \<and> kept w (snd (parse_update ops self from upd st w))"
proof (cases "sms_status (smu_state upd) = SWIM_MEMBER_SUSPECT \<and> smu_id upd = self")
  case True
  show ?thesis
  proof (cases rule: get_cases [of w self])
    case (known s)
    then show ?thesis
      using True assms(2) evolves_refl [OF assms(1)] refute_effect [OF assms(1), of s]
      by (auto simp: parse_update_def Let_def)
  next
    case unknown
    then show ?thesis using True evolves_refl [OF assms(1)] by (simp add: parse_update_def Let_def)
  qed
next
  case False
  then show ?thesis
    using evolves_refl [OF assms(1)] alive_evolves [OF assms(1)] dead_evolves [OF assms(1)]
      suspect_evolves [OF assms(1)]
    by (cases "sms_status (smu_state upd)") (auto simp: parse_update_def Let_def)
qed

lemma parse_loop_effect:
  assumes "inv w" "self = sc_self (sw_ctx w)"
  shows "evo w (snd (parse_loop ops self from upds st w)) \<and> kept w (snd (parse_loop ops self from upds st w))"
  using assms
proof (induction upds arbitrary: st w)
  case Nil
  then show ?case by (simp add: evolves_refl)
next
  case (Cons u upds)
  obtain r v where v: "parse_update ops self from u st w = (r, v)" by fastforce
  have e: "evo w v" "kept w v" using parse_update_effect [OF Cons.prems, of "from" u st] v by simp_all
  then have v2: "inv v" "self = sc_self (sw_ctx v)" using Cons.prems(2) by (auto simp: evolves_def)
  show ?case
  proof (cases r)
    case (Inl a)
    then show ?thesis using v e by simp
  next
    case (Inr st')
    then show ?thesis using v e Cons.IH [OF v2, of st'] evolves_trans [OF e(1)] kept_trans [OF e(2)] by simp
  qed
qed

lemma parse_answer_effect:
  assumes "inv w"
  shows "evo w (snd (snd (parse_answer self from upd w)))"
  by (rule evolves_frame [OF assms])
    (auto simp: parse_answer_def Let_def swim_alloc_def swim_now_ms_def set_ipings_def split: option.splits)

lemma answer_loop_effect:
  "inv w \<Longrightarrow> evo w (snd (answer_loop ops self from to tgt sendto w))"
proof (induction "length (ipings w)" arbitrary: w tgt sendto rule: less_induct)
  case less
  obtain rc v where v: "swim_updates_send ops tgt sendto w = (rc, v)" by fastforce
  have e: "evo w v" "ipings v = ipings w"
    using send_evolves [OF less.prems, of tgt sendto] updates_send_ipings [of ops tgt sendto w] v by simp_all
  show ?case
  proof (cases "to \<noteq> self \<and> to = from \<and> find_item from (ipings v) \<noteq> None")
    case True
    then obtain item where item: "find_item from (ipings v) = Some item" by auto
    let ?x = "set_ipings (remove_item from (ipings v)) v"
    have x: "evo w ?x"
      by (rule evolves_trans [OF e(1)], rule evolves_frame [OF evolvesD [OF e(1)]]) (simp_all add: swim_simps)
    have "length (ipings ?x) < length (ipings w)"
      using remove_item_shorter [of "from" "ipings v"] True e(2) by (simp add: swim_simps)
    from less.hyps [OF this evolvesD [OF x]] evolves_trans [OF x]
    have "evo w (snd (answer_loop ops self from to to (si_from item) ?x))" by blast
    then show ?thesis using v True item answer_loop.simps [of ops self "from" to tgt sendto w] by auto
  next
    case False
    then show ?thesis using v e(1) by (subst answer_loop.simps) (auto simp: Let_def)
  qed
qed

lemma parse_message_evolves:
  assumes "inv w"
  shows "evo w (snd (swim_parse_message ops from upds w))"
proof (cases "sc_self (sw_ctx w) = SWIM_ID_INVALID \<or> upds = []")
  case True
  then show ?thesis using evolves_refl [OF assms] by (simp add: swim_parse_message_def swim_self_get_def)
next
  case False
  let ?self = "sc_self (sw_ctx w)"
  let ?st = "if from = sc_target (sw_ctx w) \<and> (sc_state (sw_ctx w) = SCS_BEGIN \<or> sc_state (sw_ctx w) = SCS_DPINGED)
    then SCS_ACKED else sc_state (sw_ctx w)"
  obtain r w1 where p: "parse_loop ops ?self from upds ?st w = (r, w1)" by fastforce
  have e1: "evo w w1" using parse_loop_effect [OF assms refl, of "from" upds ?st] p by simp
  obtain send rc w2 where a: "parse_answer ?self from (hd upds) w1 = (send, rc, w2)" by (metis prod_cases3)
  have e2: "evo w w2"
    using parse_answer_effect [OF evolvesD [OF e1], of ?self "from" "hd upds"] a evolves_trans [OF e1] by simp
  have e3: "evo w (w2\<lparr>sw_ctx := swim_state_set (sw_ctx w2) st'\<rparr>)" for st'
    by (rule evolves_trans [OF e2], rule evolves_frame [OF evolvesD [OF e2]]) (simp_all add: swim_simps)
  have e4: "evo w (snd (answer_loop ops ?self from to tgt sendto (w2\<lparr>sw_ctx := swim_state_set (sw_ctx w2) st'\<rparr>)))"
    for to tgt sendto st'
    using answer_loop_effect [OF evolvesD [OF e3]] evolves_trans [OF e3] by blast
  show ?thesis
    using False p a e1 e3 e4
    by (cases r; cases send)
      (auto simp: swim_parse_message_def swim_self_get_def swim_state_get_def Let_def)
qed

end

end
