(* ===== verification/Crt_Swim.thy ===== *)
theory Crt_Swim
  imports Swim_Run Ctx_Life Crt_Tree
begin

text \<open>
  The group management layer below the SWIM protocol (\<^verbatim>\<open>src/cart/crt_swim.c\<close>): the circular list of
  members with the current ping target, the callbacks it hands to the protocol, the handlers of SWIM
  messages and of their completion, and the life cycle of the service. The position of the current
  target in the list replaces the pointer to it. The RPC layer appears through the results of its
  calls: the \<open>n\<close>-th request is created with the code \<open>gs_create n\<close>, its timeout set with \<open>gs_timeout n\<close>,
  and \<open>gs_send n\<close> is the code with which the completion callback runs before \<^verbatim>\<open>crt_req_send\<close> returns, or
  \<open>DER_SUCCESS\<close> when the request is on its way. As the request has a callback, \<^verbatim>\<open>crt_req_send\<close> itself
  returns zero.
\<close>

section \<open>State\<close>

record crt_swim_target =
  cst_id :: swim_id_t
  cst_state :: swim_member_state

datatype crt_event_type = CRT_EVT_ALIVE | CRT_EVT_DEAD

record swim_rpc =
  sr_src :: swim_id_t
  sr_to :: d_rank_t
  sr_opc :: nat
  sr_upds :: "swim_member_update list"

record grp_swim =
  gs_size :: u32
  gs_self :: d_rank_t
  gs_membs :: "d_rank_t list option"
  csm_head :: "crt_swim_target list"
  csm_target :: "nat option"
  csm_crt_ctx_idx :: int
  gs_event_cbs :: "nat list"
  gs_events :: "(nat \<times> d_rank_t \<times> crt_event_type) list"
  gs_world :: crt_world
  gs_create :: "nat \<Rightarrow> rc"
  gs_timeout :: "nat \<Rightarrow> rc"
  gs_send :: "nat \<Rightarrow> rc"
  gs_nreq :: nat
  gs_sent :: "swim_rpc list"

text \<open>\<open>csm_live\<close> is false while \<open>csm_ctx\<close> is \<open>NULL\<close>; the context in \<open>cs_swim\<close> is then not in use.\<close>

record crt_swim =
  cs_swim :: "grp_swim swim_world"
  csm_live :: bool
  cg_swim_inited :: bool
  cs_initialized :: bool
  cs_service :: bool
  cs_rand :: "nat \<Rightarrow> nat"
  cs_nrand :: nat

section \<open>Callbacks of the protocol\<close>

definition crt_swim_notify_rank_state :: "d_rank_t \<Rightarrow> swim_member_state \<Rightarrow> grp_swim \<Rightarrow> grp_swim" where
  "crt_swim_notify_rank_state rank st g =
    (case sms_status st of
       SWIM_MEMBER_ALIVE \<Rightarrow> g\<lparr>gs_events := gs_events g @ map (\<lambda>cb. (cb, rank, CRT_EVT_ALIVE)) (gs_event_cbs g)\<rparr>
     | SWIM_MEMBER_DEAD \<Rightarrow> g\<lparr>gs_events := gs_events g @ map (\<lambda>cb. (cb, rank, CRT_EVT_DEAD)) (gs_event_cbs g)\<rparr>
     | _ \<Rightarrow> g)"

definition crt_swim_get_member_state :: "swim_id_t \<Rightarrow> grp_swim \<Rightarrow> rc + swim_member_state" where
  "crt_swim_get_member_state mid g =
    (case List.find (\<lambda>cst. cst_id cst = mid) (csm_head g) of
       Some cst \<Rightarrow> Inr (cst_state cst)
     | None \<Rightarrow> Inl DER_NONEXIST)"

fun set_cst :: "swim_id_t \<Rightarrow> swim_member_state \<Rightarrow> crt_swim_target list \<Rightarrow> crt_swim_target list" where
  "set_cst mid st [] = []"
| "set_cst mid st (cst # xs) = (if cst_id cst = mid then cst\<lparr>cst_state := st\<rparr> # xs else cst # set_cst mid st xs)"

definition crt_swim_set_member_state :: "swim_id_t \<Rightarrow> swim_member_state \<Rightarrow> grp_swim \<Rightarrow> rc \<times> grp_swim" where
  "crt_swim_set_member_state mid st g =
    (if List.find (\<lambda>cst. cst_id cst = mid) (csm_head g) \<noteq> None then
       (DER_SUCCESS, crt_swim_notify_rank_state (ucast mid) st (g\<lparr>csm_head := set_cst mid st (csm_head g)\<rparr>))
     else (DER_NONEXIST, g))"

text \<open>The next position in the circular list; a position outside of it would be a dangling pointer.\<close>

definition loop_next :: "nat \<Rightarrow> nat \<Rightarrow> nat option" where
  "loop_next n i = (if i < n then Some (if Suc i = n then 0 else Suc i) else None)"

text \<open>
  The loop of both selections; \<open>bad\<close> holds of the statuses it passes over. The counter is a 32-bit
  word, so the loop need not end when it cannot exceed the group size.
\<close>

partial_function (option) target_loop :: "(swim_member_status \<Rightarrow> bool) \<Rightarrow> swim_id_t \<Rightarrow> u32 \<Rightarrow> grp_swim
    \<Rightarrow> (swim_id_t \<times> grp_swim) option" where
  "target_loop bad self_id cnt g =
    (if cnt > gs_size g then Some (SWIM_ID_INVALID, g)
     else
       case csm_target g of
         None \<Rightarrow> None
       | Some i \<Rightarrow>
           (case loop_next (length (csm_head g)) i of
              None \<Rightarrow> None
            | Some i' \<Rightarrow>
                let g' = g\<lparr>csm_target := Some i'\<rparr>; cst = csm_head g ! i' in
                if cst_id cst = self_id \<or> bad (sms_status (cst_state cst)) then target_loop bad self_id (cnt + 1) g'
                else Some (cst_id cst, g')))"

definition crt_swim_get_dping_target :: "swim_id_t \<Rightarrow> grp_swim \<Rightarrow> (swim_id_t \<times> grp_swim) option" where
  "crt_swim_get_dping_target self_id g =
    (if csm_target g = None then None else target_loop (\<lambda>st. st = SWIM_MEMBER_DEAD) self_id 0 g)"

definition crt_swim_get_iping_target :: "swim_id_t \<Rightarrow> grp_swim \<Rightarrow> (swim_id_t \<times> grp_swim) option" where
  "crt_swim_get_iping_target self_id g =
    (if csm_target g = None then None else target_loop (\<lambda>st. st \<noteq> SWIM_MEMBER_ALIVE) self_id 0 g)"

text \<open>
  The completion of a message: \<open>opc\<close> is the low half of the opcode, zero for a one way message, and
  \<open>rank\<close> the receiver.
\<close>

definition crt_swim_cli_cb :: "rc \<Rightarrow> nat \<Rightarrow> d_rank_t \<Rightarrow> grp_swim \<Rightarrow> grp_swim" where
  "crt_swim_cli_cb cci_rc opc rank g =
    (if cci_rc \<noteq> DER_SUCCESS \<and> opc \<noteq> 0 then
       (case crt_swim_get_member_state (ucast rank) g of
          Inl _ \<Rightarrow> g
        | Inr id_state \<Rightarrow>
            snd (crt_swim_set_member_state (ucast rank)
                   (id_state\<lparr>sms_incarnation := sms_incarnation id_state + 1, sms_status := SWIM_MEMBER_DEAD\<rparr>) g))
     else g)"

definition crt_swim_send_message :: "swim_id_t \<Rightarrow> swim_id_t \<Rightarrow> swim_member_update list \<Rightarrow> grp_swim
    \<Rightarrow> rc \<times> grp_swim" where
  "crt_swim_send_message self_id to upds g =
    (let ctx_idx = csm_crt_ctx_idx g in
     if crt_context_lookup ctx_idx (gs_world g) = None then (DER_UNINIT, g)
     else
       let rank = ucast to :: d_rank_t;
           opc_idx = (if upds \<noteq> [] \<and> sms_status (smu_state (hd upds)) = SWIM_MEMBER_INACTIVE then 1 else 0);
           n = gs_nreq g;
           g1 = g\<lparr>gs_nreq := Suc n\<rparr>
       in
       if gs_create g n \<noteq> DER_SUCCESS then (gs_create g n, g1)
       else if opc_idx = 0 \<and> gs_timeout g n \<noteq> DER_SUCCESS then (gs_timeout g n, g1)
       else
         let g2 = g1\<lparr>gs_sent := gs_sent g1 @ [\<lparr>sr_src = self_id, sr_to = rank, sr_opc = opc_idx, sr_upds = upds\<rparr>]\<rparr>
         in (DER_SUCCESS, if gs_send g n \<noteq> DER_SUCCESS then crt_swim_cli_cb (gs_send g n) opc_idx rank g2 else g2))"

definition crt_swim_ops :: "grp_swim swim_ops" where
  "crt_swim_ops = \<lparr>send_message = crt_swim_send_message, get_dping_target = crt_swim_get_dping_target,
    get_iping_target = crt_swim_get_iping_target, get_member_state = crt_swim_get_member_state,
    set_member_state = crt_swim_set_member_state\<rparr>"

section \<open>Message and progress handlers\<close>

abbreviation grp :: "crt_swim \<Rightarrow> grp_swim" where
  "grp s \<equiv> sw_data (cs_swim s)"

definition upd_grp :: "(grp_swim \<Rightarrow> grp_swim) \<Rightarrow> crt_swim \<Rightarrow> crt_swim" where
  "upd_grp f s = s\<lparr>cs_swim := (cs_swim s)\<lparr>sw_data := f (grp s)\<rparr>\<rparr>"

definition csm_ctx :: "crt_swim \<Rightarrow> swim_context option" where
  "csm_ctx s = (if csm_live s then Some (sw_ctx (cs_swim s)) else None)"

definition self_set :: "swim_id_t \<Rightarrow> crt_swim \<Rightarrow> crt_swim" where
  "self_set self_id s =
    (case swim_self_set (csm_ctx s) self_id of
       None \<Rightarrow> s
     | Some c \<Rightarrow> s\<lparr>cs_swim := (cs_swim s)\<lparr>sw_ctx := c\<rparr>\<rparr>)"

text \<open>The reply of an acknowledged message is the second component; \<^verbatim>\<open>crt_reply_send\<close> only logs its code.\<close>

definition crt_swim_srv_cb :: "nat \<Rightarrow> swim_id_t \<Rightarrow> swim_member_update list \<Rightarrow> crt_swim
    \<Rightarrow> (rc option \<times> crt_swim) option" where
  "crt_swim_srv_cb opc src upds s =
    (if \<not> cs_service s then None
     else
       let (rc, s') =
             (if swim_self_get (csm_ctx s) \<noteq> SWIM_ID_INVALID then
                (case swim_parse_message crt_swim_ops src upds (cs_swim s) of
                   (rc, w) \<Rightarrow>
                     let s1 = s\<lparr>cs_swim := w\<rparr> in
                     (rc, if rc = ESHUTDOWN then self_set SWIM_ID_INVALID s1 else s1))
              else (ENOTCONN, s))
       in Some (if opc \<noteq> 0 then Some rc else None, s'))"

definition CRT_SWIM_PROGRESS_TIMEOUT :: int where
  "CRT_SWIM_PROGRESS_TIMEOUT = 0"

definition crt_swim_progress_cb :: "crt_swim \<Rightarrow> crt_swim option" where
  "crt_swim_progress_cb s =
    (if swim_self_get (csm_ctx s) = SWIM_ID_INVALID then Some s
     else
       (case swim_progress crt_swim_ops CRT_SWIM_PROGRESS_TIMEOUT
               (if csm_live s then Some (cs_swim s) else None) of
          None \<Rightarrow> None
        | Some (rc, None) \<Rightarrow> Some s
        | Some (rc, Some w) \<Rightarrow>
            let s1 = s\<lparr>cs_swim := w\<rparr> in
            Some (if rc = ESHUTDOWN then self_set SWIM_ID_INVALID s1 else s1)))"

section \<open>Members joining and leaving\<close>

fun pos_of :: "swim_id_t \<Rightarrow> crt_swim_target list \<Rightarrow> nat option" where
  "pos_of mid [] = None"
| "pos_of mid (cst # xs) = (if cst_id cst = mid then Some 0 else map_option Suc (pos_of mid xs))"

text \<open>
  Removing the entry at position \<open>j\<close>: the target moves on when it is the removed entry, and keeps
  its entry otherwise.
\<close>

definition crt_swim_rank_del :: "d_rank_t \<Rightarrow> crt_swim \<Rightarrow> (rc \<times> crt_swim) option" where
  "crt_swim_rank_del rank s =
    (if \<not> cs_initialized s then None
     else if \<not> cs_service s then Some (DER_SUCCESS, s)
     else
       let head = csm_head (grp s) in
       (case pos_of (ucast rank) head of
          None \<Rightarrow> Some (DER_NONEXIST, s)
        | Some j \<Rightarrow>
            (case csm_target (grp s) of
               None \<Rightarrow> None
             | Some i \<Rightarrow>
                 (case loop_next (length head) i of
                    None \<Rightarrow> None
                  | Some nxt \<Rightarrow>
                      let head' = take j head @ drop (Suc j) head;
                          i' = (if i = j then nxt else i);
                          i'' = (if j < i' then i' - 1 else i')
                      in
                      Some (DER_SUCCESS,
                        if head' = [] then
                          upd_grp (\<lambda>g. g\<lparr>csm_head := head', csm_target := None\<rparr>) (self_set SWIM_ID_INVALID s)
                        else upd_grp (\<lambda>g. g\<lparr>csm_head := head', csm_target := Some i''\<rparr>) s)))))"

fun advance :: "nat \<Rightarrow> nat \<Rightarrow> nat \<Rightarrow> nat option" where
  "advance len 0 i = Some i"
| "advance len (Suc n) i = (case loop_next len i of None \<Rightarrow> None | Some i' \<Rightarrow> advance len n i')"

definition rank_cst :: "d_rank_t \<Rightarrow> swim_member_status \<Rightarrow> crt_swim_target" where
  "rank_cst rank st = \<lparr>cst_id = ucast rank, cst_state = \<lparr>sms_incarnation = 0, sms_status = st\<rparr>\<rparr>"

text \<open>
  Inserting a rank behind the target and moving the target a random number of steps. The number of
  steps is reduced modulo the group size plus one in 32-bit arithmetic.
\<close>

definition rank_insert :: "d_rank_t \<Rightarrow> crt_swim \<Rightarrow> crt_swim option" where
  "rank_insert rank s =
    (let head = csm_head (grp s); m = gs_size (grp s) + 1 in
     case csm_target (grp s) of
       None \<Rightarrow> None
     | Some i \<Rightarrow>
         if \<not> i < length head \<or> m = 0 then None
         else
           let head' = take (Suc i) head @ rank_cst rank SWIM_MEMBER_INACTIVE # drop (Suc i) head;
               n = 1 + cs_rand s (cs_nrand s) mod unat m
           in
           (case advance (length head') n i of
              None \<Rightarrow> None
            | Some i' \<Rightarrow>
                Some (upd_grp (\<lambda>g. g\<lparr>csm_head := head', csm_target := Some i'\<rparr>) (s\<lparr>cs_nrand := Suc (cs_nrand s)\<rparr>))))"

definition cs_alloc :: "crt_swim \<Rightarrow> bool \<times> crt_swim" where
  "cs_alloc s = (case swim_alloc (cs_swim s) of (b, w) \<Rightarrow> (b, s\<lparr>cs_swim := w\<rparr>))"

definition check_self :: "crt_swim \<Rightarrow> crt_swim" where
  "check_self s =
    (if swim_self_get (csm_ctx s) \<noteq> ucast (gs_self (grp s)) then self_set (ucast (gs_self (grp s))) s else s)"

definition crt_swim_rank_add :: "d_rank_t \<Rightarrow> crt_swim \<Rightarrow> (rc \<times> crt_swim) option" where
  "crt_swim_rank_add rank s =
    (let self = gs_self (grp s) in
     if \<not> cs_initialized s then None
     else if \<not> cs_service s then Some (DER_SUCCESS, s)
     else if self = CRT_NO_RANK then Some (DER_INVAL, s)
     else
       let (ok1, s1) = cs_alloc s in
       if \<not> ok1 then Some (DER_NOMEM, s1)
       else if csm_head (grp s1) = [] then
         let s2 = upd_grp (\<lambda>g. g\<lparr>csm_head := [rank_cst self SWIM_MEMBER_ALIVE], csm_target := Some 0\<rparr>) s1 in
         if rank = self then Some (DER_SUCCESS, check_self s2)
         else
           let (ok2, s3) = cs_alloc s2 in
           if \<not> ok2 then map_option (\<lambda>(_, s4). (DER_NOMEM, s4)) (crt_swim_rank_del self s3)
           else map_option (\<lambda>s4. (DER_SUCCESS, check_self s4)) (rank_insert rank s3)
       else if pos_of (ucast rank) (csm_head (grp s1)) \<noteq> None then Some (DER_ALREADY, check_self s1)
       else if rank = self then Some (DER_SUCCESS, check_self s1)
       else map_option (\<lambda>s2. (DER_SUCCESS, check_self s2)) (rank_insert rank s1))"

definition crt_swim_rank_del_all :: "crt_swim \<Rightarrow> crt_swim" where
  "crt_swim_rank_del_all s =
    (if \<not> cs_initialized s \<or> \<not> cs_service s then s
     else upd_grp (\<lambda>g. g\<lparr>csm_head := [], csm_target := None\<rparr>) (self_set SWIM_ID_INVALID s))"

section \<open>Life cycle\<close>

text \<open>
  \<open>pcb\<close> is the address of \<^verbatim>\<open>crt_swim_progress_cb\<close>; its registration is the one of the context layer.
  \<open>Some s\<close> as the argument of a continuation is a call that returned.
\<close>

definition progress_cb_add :: "nat \<Rightarrow> int \<Rightarrow> crt_swim \<Rightarrow> (rc \<times> crt_swim) option" where
  "progress_cb_add pcb idx s =
    (case crt_register_progress_cb pcb idx 0 (gs_world (grp s)) of
       None \<Rightarrow> None
     | Some (rc, w) \<Rightarrow> Some (rc, upd_grp (\<lambda>g. g\<lparr>gs_world := w\<rparr>) s))"

definition progress_cb_del :: "nat \<Rightarrow> int \<Rightarrow> crt_swim \<Rightarrow> (rc \<times> crt_swim) option" where
  "progress_cb_del pcb idx s =
    (case crt_unregister_progress_cb pcb idx 0 (gs_world (grp s)) of
       None \<Rightarrow> None
     | Some (rc, w) \<Rightarrow> Some (rc, upd_grp (\<lambda>g. g\<lparr>gs_world := w\<rparr>) s))"

definition crt_swim_fini :: "nat \<Rightarrow> crt_swim \<Rightarrow> crt_swim option" where
  "crt_swim_fini pcb s =
    (if \<not> cg_swim_inited s then Some s
     else
       let s1 = crt_swim_rank_del_all s in
       if \<not> csm_live s1 then Some (s1\<lparr>cg_swim_inited := False\<rparr>)
       else
         (case (if csm_crt_ctx_idx (grp s1) \<noteq> - 1 then progress_cb_del pcb (csm_crt_ctx_idx (grp s1)) s1
                else Some (DER_SUCCESS, s1)) of
            None \<Rightarrow> None
          | Some (_, s2) \<Rightarrow>
              Some ((upd_grp (\<lambda>g. g\<lparr>csm_crt_ctx_idx := - 1\<rparr>) s2)\<lparr>csm_live := False, cg_swim_inited := False\<rparr>)))"

fun add_ranks :: "d_rank_t list \<Rightarrow> crt_swim \<Rightarrow> (rc \<times> crt_swim) option" where
  "add_ranks [] s = Some (DER_SUCCESS, s)"
| "add_ranks (r # rs) s =
    (case crt_swim_rank_add r s of
       None \<Rightarrow> None
     | Some (rc, s') \<Rightarrow> if rc \<noteq> DER_SUCCESS \<and> rc \<noteq> DER_ALREADY then Some (rc, s') else add_ranks rs s')"

text \<open>The clean-up loop runs over \<open>n\<close> ranks of the list and reads past its end when the list is shorter.\<close>

fun del_ranks :: "nat \<Rightarrow> d_rank_t list \<Rightarrow> crt_swim \<Rightarrow> crt_swim option" where
  "del_ranks 0 rs s = Some s"
| "del_ranks (Suc n) [] s = None"
| "del_ranks (Suc n) (r # rs) s =
    (case crt_swim_rank_del r s of None \<Rightarrow> None | Some (_, s') \<Rightarrow> del_ranks n rs s')"

definition init_cleanup :: "rc \<Rightarrow> crt_swim \<Rightarrow> (rc \<times> crt_swim) option" where
  "init_cleanup rc s =
    (case (case gs_membs (grp s) of
             Some rs \<Rightarrow> if gs_self (grp s) \<noteq> CRT_NO_RANK then del_ranks (unat (gs_size (grp s))) rs s else Some s
           | None \<Rightarrow> Some s) of
       None \<Rightarrow> None
     | Some s' \<Rightarrow> Some (rc, (upd_grp (\<lambda>g. g\<lparr>csm_crt_ctx_idx := - 1\<rparr>) s')\<lparr>csm_live := False\<rparr>))"

definition init_members :: "crt_swim \<Rightarrow> (rc \<times> crt_swim) option" where
  "init_members s =
    (case gs_membs (grp s) of
       Some rs \<Rightarrow>
         if gs_self (grp s) \<noteq> CRT_NO_RANK then
           if length rs \<noteq> unat (gs_size (grp s)) then Some (DER_INVAL, s) else add_ranks rs s
         else Some (DER_SUCCESS, s)
     | None \<Rightarrow> Some (DER_SUCCESS, s))"

text \<open>\<open>proto_rc\<close> is the code of \<^verbatim>\<open>crt_proto_register\<close>.\<close>

definition init_register :: "nat \<Rightarrow> int \<Rightarrow> rc \<Rightarrow> crt_swim \<Rightarrow> (rc \<times> crt_swim) option" where
  "init_register pcb crt_ctx_idx proto_rc s =
    (if proto_rc \<noteq> DER_SUCCESS then init_cleanup proto_rc s
     else
       (case progress_cb_add pcb crt_ctx_idx s of
          None \<Rightarrow> None
        | Some (rc, s') \<Rightarrow>
            if rc \<noteq> DER_SUCCESS then init_cleanup rc s'
            else Some (DER_SUCCESS, s'\<lparr>cg_swim_inited := True\<rparr>)))"

text \<open>\<open>mutex_ok\<close> is the result of creating the mutex of the context.\<close>

definition crt_swim_init :: "nat \<Rightarrow> int \<Rightarrow> bool \<Rightarrow> rc \<Rightarrow> crt_swim \<Rightarrow> (rc \<times> crt_swim) option" where
  "crt_swim_init pcb crt_ctx_idx mutex_ok proto_rc s =
    (if cg_swim_inited s then Some (DER_ALREADY, s)
     else
       (case cs_alloc (upd_grp (\<lambda>g. g\<lparr>csm_crt_ctx_idx := crt_ctx_idx\<rparr>) s) of
          (alloc_ok, s2) \<Rightarrow>
            (case swim_init SWIM_ID_INVALID
                    (Some (Some crt_swim_send_message, Some crt_swim_get_dping_target, Some crt_swim_get_iping_target,
                           Some crt_swim_get_member_state, Some crt_swim_set_member_state)) alloc_ok mutex_ok of
               None \<Rightarrow> Some (DER_NOMEM, s2\<lparr>csm_live := False\<rparr>)
             | Some (_, c) \<Rightarrow>
                 (case init_members (s2\<lparr>cs_swim := (cs_swim s2)\<lparr>sw_ctx := c\<rparr>, csm_live := True\<rparr>) of
                    None \<Rightarrow> None
                  | Some (rc, s4) \<Rightarrow>
                      if rc \<noteq> DER_SUCCESS then init_cleanup rc s4
                      else init_register pcb crt_ctx_idx proto_rc s4))))"

definition crt_swim_enable :: "nat \<Rightarrow> int \<Rightarrow> crt_swim \<Rightarrow> (rc \<times> crt_swim) option" where
  "crt_swim_enable pcb crt_ctx_idx s =
    (if \<not> cs_initialized s \<or> \<not> cs_service s then Some (DER_SUCCESS, s)
     else if gs_self (grp s) = CRT_NO_RANK then Some (DER_INVAL, s)
     else if crt_ctx_idx < 0 then Some (DER_INVAL, s)
     else
       let old_ctx_idx = (if csm_crt_ctx_idx (grp s) \<noteq> crt_ctx_idx then csm_crt_ctx_idx (grp s) else - 1);
           s1 = check_self (upd_grp (\<lambda>g. g\<lparr>csm_crt_ctx_idx := crt_ctx_idx\<rparr>) s)
       in
       (case (if old_ctx_idx \<noteq> - 1 then progress_cb_del pcb old_ctx_idx s1 else Some (DER_SUCCESS, s1)) of
          None \<Rightarrow> None
        | Some (rc, s2) \<Rightarrow>
            if old_ctx_idx \<noteq> crt_ctx_idx then progress_cb_add pcb crt_ctx_idx s2 else Some (rc, s2)))"

definition crt_swim_disable :: "nat \<Rightarrow> int \<Rightarrow> crt_swim \<Rightarrow> (rc \<times> crt_swim) option" where
  "crt_swim_disable pcb crt_ctx_idx s =
    (if \<not> cs_initialized s \<or> \<not> cs_service s then Some (DER_SUCCESS, s)
     else if crt_ctx_idx < 0 then Some (DER_SUCCESS, self_set SWIM_ID_INVALID s)
     else if csm_crt_ctx_idx (grp s) = crt_ctx_idx then
       progress_cb_del pcb crt_ctx_idx
         (self_set SWIM_ID_INVALID (upd_grp (\<lambda>g. g\<lparr>csm_crt_ctx_idx := - 1\<rparr>) s))
     else Some (DER_NONEXIST, s))"

definition crt_swim_disable_all :: "nat \<Rightarrow> crt_swim \<Rightarrow> crt_swim option" where
  "crt_swim_disable_all pcb s =
    (if \<not> cs_initialized s \<or> \<not> cs_service s then Some s
     else
       let old_ctx_idx = csm_crt_ctx_idx (grp s);
           s1 = self_set SWIM_ID_INVALID (upd_grp (\<lambda>g. g\<lparr>csm_crt_ctx_idx := - 1\<rparr>) s)
       in if old_ctx_idx \<noteq> - 1 then map_option snd (progress_cb_del pcb old_ctx_idx s1) else Some s1)"

text \<open>
  \<open>grp_ok\<close> and \<open>state_ok\<close> say that the group and the result pointer are given. Without a context,
  \<^verbatim>\<open>swim_data\<close> yields \<open>NULL\<close> and the lookup of the member dereferences it.
\<close>

definition crt_rank_state_get :: "bool \<Rightarrow> bool \<Rightarrow> bool \<Rightarrow> d_rank_t \<Rightarrow> crt_swim
    \<Rightarrow> (rc + swim_member_state) option" where
  "crt_rank_state_get grp_ok state_ok primary rank s =
    (if \<not> grp_ok then Some (Inl DER_INVAL)
     else if \<not> state_ok then Some (Inl DER_INVAL)
     else if rank = CRT_NO_RANK then Some (Inl DER_INVAL)
     else if \<not> primary then Some (Inl DER_INVAL)
     else if \<not> csm_live s then None
     else Some (crt_swim_get_member_state (ucast rank) (grp s)))"

end
