(* ===== verification/Swim_Service.thy ===== *)
theory Swim_Service
  imports Crt_Swim
begin

text \<open>
  The group layer of \<^verbatim>\<open>crt_swim.c\<close> meets the contract of the SWIM protocol: an interpretation of
  \<open>swim_group\<close> on its callbacks. From it follow the properties of the running service: the invariant of
  every reachable state, the refinement of the membership machine, the return of the progress callback,
  the round robin order of direct pings, the shape of every message and the end of every suspicion.
\<close>

section \<open>The member list as a table\<close>

definition members :: "grp_swim \<Rightarrow> membership" where
  "members g = map_of (map (\<lambda>c. (cst_id c, cst_state c)) (csm_head g))"

text \<open>A message on its way: its array is not empty, fits, names the sender and no member twice.\<close>

definition sent_ok :: "swim_rpc \<Rightarrow> bool" where
  "sent_ok r \<longleftrightarrow> sr_upds r \<noteq> [] \<and> length (sr_upds r) \<le> SWIM_PIGGYBACK_ENTRIES + 2 \<and>
    sr_src r \<in> set (map smu_id (sr_upds r)) \<and> distinct (map smu_id (sr_upds r)) \<and>
    (sr_opc r = 1 \<longleftrightarrow> sms_status (smu_state (hd (sr_upds r))) = SWIM_MEMBER_INACTIVE)"

definition group_ok :: "grp_swim \<Rightarrow> bool" where
  "group_ok g \<longleftrightarrow> distinct (map cst_id (csm_head g)) \<and> gs_size g \<noteq> - 1 \<and>
    (\<forall>r\<in>set (gs_sent g). sent_ok r) \<and> (\<exists>i < length (csm_head g). csm_target g = Some i)"

lemma find_map_of:
  "map_of (map (\<lambda>c. (cst_id c, cst_state c)) xs) m = map_option cst_state (List.find (\<lambda>c. cst_id c = m) xs)"
  by (induction xs) auto

lemma get_member_state_members:
  "crt_swim_get_member_state m g = (case members g m of None \<Rightarrow> Inl DER_NONEXIST | Some s \<Rightarrow> Inr s)"
  by (auto simp: crt_swim_get_member_state_def members_def find_map_of split: option.splits)

lemma set_cst_ids [simp]: "map cst_id (set_cst m st xs) = map cst_id xs"
  by (induction xs) auto

lemma set_cst_length [simp]: "length (set_cst m st xs) = length xs"
  by (induction xs) auto

lemma set_cst_table:
  "List.find (\<lambda>c. cst_id c = m) xs \<noteq> None \<Longrightarrow>
   map_of (map (\<lambda>c. (cst_id c, cst_state c)) (set_cst m st xs)) =
   (map_of (map (\<lambda>c. (cst_id c, cst_state c)) xs))(m \<mapsto> st)"
  by (induction xs) (auto simp: fun_upd_twist)

lemma notify_rank_state_proj [simp]:
  "csm_head (crt_swim_notify_rank_state r st g) = csm_head g"
  "csm_target (crt_swim_notify_rank_state r st g) = csm_target g"
  "gs_size (crt_swim_notify_rank_state r st g) = gs_size g"
  "gs_self (crt_swim_notify_rank_state r st g) = gs_self g"
  "gs_sent (crt_swim_notify_rank_state r st g) = gs_sent g"
  by (simp_all add: crt_swim_notify_rank_state_def split: swim_member_status.splits)

lemma set_member_state_known:
  assumes "members g m = Some s" "group_ok g"
  shows "\<exists>g'. crt_swim_set_member_state m t g = (DER_SUCCESS, g') \<and> group_ok g' \<and>
    members g' = (members g)(m \<mapsto> t) \<and> gs_sent g' = gs_sent g"
proof -
  have "List.find (\<lambda>c. cst_id c = m) (csm_head g) \<noteq> None"
    using assms(1) by (auto simp: members_def find_map_of)
  then show ?thesis using assms(2)
    by (auto simp: crt_swim_set_member_state_def members_def group_ok_def set_cst_table)
qed

section \<open>Selection of targets\<close>

abbreviation passes :: "(swim_member_status \<Rightarrow> bool) \<Rightarrow> swim_id_t \<Rightarrow> crt_swim_target \<Rightarrow> bool" where
  "passes bad self c \<equiv> cst_id c = self \<or> bad (sms_status (cst_state c))"

lemma loop_next_mod: "i < n \<Longrightarrow> loop_next n i = Some (Suc i mod n)"
  by (auto simp: loop_next_def)

lemma target_loop_step:
  assumes "csm_target g = Some i" "i < length (csm_head g)" "\<not> cnt > gs_size g"
  shows "target_loop bad self cnt g =
    (let j = Suc i mod length (csm_head g) in
     if passes bad self (csm_head g ! j) then target_loop bad self (cnt + 1) (g\<lparr>csm_target := Some j\<rparr>)
     else Some (cst_id (csm_head g ! j), g\<lparr>csm_target := Some j\<rparr>))"
  using assms by (subst target_loop.simps) (simp add: loop_next_mod Let_def)

lemma count_next: "(cnt :: u32) \<le> n \<Longrightarrow> n \<noteq> - 1 \<Longrightarrow> unat (cnt + 1) = Suc (unat cnt)"
proof -
  assume "cnt \<le> n" "n \<noteq> - 1"
  then have "1 + cnt \<noteq> 0"
    by (metis add.commute eq_neg_iff_add_eq_0 word_n1_ge word_order.extremum_unique)
  then show ?thesis by (metis add.commute unatSuc)
qed

lemma target_loop_total:
  assumes "group_ok g"
  shows "\<exists>m i. target_loop bad self cnt g = Some (m, g\<lparr>csm_target := Some i\<rparr>) \<and> i < length (csm_head g) \<and>
    (m \<noteq> SWIM_ID_INVALID \<longrightarrow> m = cst_id (csm_head g ! i) \<and> \<not> passes bad self (csm_head g ! i))"
  using assms
proof (induction "Suc (unat (gs_size g)) - unat cnt" arbitrary: cnt g rule: less_induct)
  case less
  obtain i where i: "csm_target g = Some i" "i < length (csm_head g)" using less.prems by (auto simp: group_ok_def)
  show ?case
  proof (cases "cnt > gs_size g")
    case True
    moreover have "g\<lparr>csm_target := Some i\<rparr> = g" using i(1) by simp
    ultimately show ?thesis using i by (metis target_loop.simps)
  next
    case False
    let ?j = "Suc i mod length (csm_head g)"
    let ?g = "g\<lparr>csm_target := Some ?j\<rparr>"
    have j: "?j < length (csm_head g)" using i(2) by (metis gr_zeroI mod_less_divisor not_less_zero)
    note st = target_loop_step [OF i False, of bad self]
    show ?thesis
    proof (cases "passes bad self (csm_head g ! ?j)")
      case True
      have "cnt \<le> gs_size g" using False by simp
      then have "unat (cnt + 1) = Suc (unat cnt)" "unat cnt \<le> unat (gs_size g)"
        using count_next [of cnt "gs_size g"] less.prems by (auto simp: group_ok_def word_le_nat_alt)
      then have "Suc (unat (gs_size ?g)) - unat (cnt + 1) < Suc (unat (gs_size g)) - unat cnt" by simp
      moreover have "group_ok ?g" using less.prems j by (simp add: group_ok_def)
      ultimately show ?thesis using less.hyps [of ?g "cnt + 1"] st True by simp
    next
      case False
      then show ?thesis using st j by (intro exI [of _ "cst_id (csm_head g ! ?j)"] exI [of _ ?j]) (simp add: Let_def)
    qed
  qed
qed

text \<open>With a candidate within reach, the loop takes the first one behind the current target.\<close>

lemma target_loop_first:
  assumes "csm_target g = Some i" "i < length (csm_head g)" "gs_size g \<noteq> - 1" "0 < k"
    "unat cnt + k \<le> Suc (unat (gs_size g))"
    "\<And>j. 0 < j \<Longrightarrow> j < k \<Longrightarrow> passes bad self (csm_head g ! ((i + j) mod length (csm_head g)))"
    "\<not> passes bad self (csm_head g ! ((i + k) mod length (csm_head g)))"
  shows "target_loop bad self cnt g = Some (cst_id (csm_head g ! ((i + k) mod length (csm_head g))),
    g\<lparr>csm_target := Some ((i + k) mod length (csm_head g))\<rparr>)"
  using assms
proof (induction k arbitrary: i cnt g)
  case (Suc k)
  let ?n = "length (csm_head g)"
  let ?j = "Suc i mod ?n"
  have le: "\<not> cnt > gs_size g" using Suc.prems(5) by (simp add: word_less_nat_alt)
  note st = target_loop_step [OF Suc.prems(1,2) le, of bad self]
  show ?case
  proof (cases "k = 0")
    case True
    then show ?thesis using Suc.prems(7) st by (simp add: Let_def)
  next
    case False
    let ?g = "g\<lparr>csm_target := Some ?j\<rparr>"
    have j: "?j < ?n" using Suc.prems(2) by (metis gr_zeroI mod_less_divisor not_less_zero)
    have sum: "(?j + m) mod ?n = (i + Suc m) mod ?n" for m by (simp add: mod_add_left_eq)
    have c: "unat (cnt + 1) = Suc (unat cnt)" using count_next [of cnt "gs_size g"] le Suc.prems(3) by simp
    have "passes bad self (csm_head g ! ?j)" using Suc.prems(6) [of 1] False by simp
    then have "target_loop bad self cnt g = target_loop bad self (cnt + 1) ?g" using st by (simp add: Let_def)
    also have "\<dots> = Some (cst_id (csm_head ?g ! ((?j + k) mod length (csm_head ?g))),
        ?g\<lparr>csm_target := Some ((?j + k) mod length (csm_head ?g))\<rparr>)"
      by (rule Suc.IH) (use Suc.prems(3,5,7) Suc.prems(6) [of "Suc _"] j False c in \<open>simp_all add: sum\<close>)
    finally show ?thesis by (simp add: sum)
  qed
qed simp

section \<open>The contract holds\<close>

lemma nth_member:
  "distinct (map cst_id (csm_head g)) \<Longrightarrow> i < length (csm_head g) \<Longrightarrow>
   members g (cst_id (csm_head g ! i)) = Some (cst_state (csm_head g ! i))"
  unfolding members_def by (rule map_of_is_SomeI) (auto simp: comp_def)

lemma cli_cb_table:
  assumes "group_ok g"
  shows "group_ok (crt_swim_cli_cb rc opc rank g) \<and> gs_sent (crt_swim_cli_cb rc opc rank g) = gs_sent g \<and>
    (members (crt_swim_cli_cb rc opc rank g) = members g \<or>
     (\<exists>m s. members g m = Some s \<and> members (crt_swim_cli_cb rc opc rank g) =
       (members g)(m \<mapsto> \<lparr>sms_incarnation = sms_incarnation s + 1, sms_status = SWIM_MEMBER_DEAD\<rparr>)))"
proof (cases "rc \<noteq> DER_SUCCESS \<and> opc \<noteq> 0 \<and> members g (ucast rank) \<noteq> None")
  case True
  then obtain s where s: "members g (ucast rank) = Some s" by auto
  let ?t = "\<lparr>sms_incarnation = sms_incarnation s + 1, sms_status = SWIM_MEMBER_DEAD\<rparr>"
  obtain g' where g': "crt_swim_set_member_state (ucast rank) ?t g = (DER_SUCCESS, g')"
      "group_ok g'" "members g' = (members g)(ucast rank \<mapsto> ?t)" "gs_sent g' = gs_sent g"
    using set_member_state_known [OF s assms] by blast
  then have "crt_swim_cli_cb rc opc rank g = g'"
    using True s by (cases s) (simp add: crt_swim_cli_cb_def get_member_state_members)
  then show ?thesis using g' s by (intro conjI disjI2 exI [of _ "ucast rank"] exI [of _ s]) simp_all
next
  case False
  then show ?thesis using assms
    by (auto simp: crt_swim_cli_cb_def get_member_state_members split: option.splits)
qed

lemma members_frame: "csm_head g' = csm_head g \<Longrightarrow> members g' = members g"
  by (simp add: members_def)

lemma send_message_table:
  assumes "group_ok g" "message_ok (members g) self m0 upds"
  shows "\<exists>rc g'. crt_swim_send_message self to upds g = (rc, g') \<and> group_ok g' \<and>
    (members g' = members g \<or> (\<exists>m s. members g m = Some s \<and> members g' =
       (members g)(m \<mapsto> \<lparr>sms_incarnation = sms_incarnation s + 1, sms_status = SWIM_MEMBER_DEAD\<rparr>)))"
proof -
  let ?opc = "if upds \<noteq> [] \<and> sms_status (smu_state (hd upds)) = SWIM_MEMBER_INACTIVE then 1 else 0 :: nat"
  let ?r = "\<lparr>sr_src = self, sr_to = ucast to, sr_opc = ?opc, sr_upds = upds\<rparr>"
  let ?g1 = "g\<lparr>gs_nreq := Suc (gs_nreq g)\<rparr>"
  let ?g2 = "?g1\<lparr>gs_sent := gs_sent ?g1 @ [?r]\<rparr>"
  have "sent_ok ?r" using assms(2) by (auto simp: sent_ok_def message_ok_def split: if_splits)
  then have f: "group_ok ?g1" "members ?g1 = members g" "group_ok ?g2" "members ?g2 = members g"
    using assms(1) by (auto simp: group_ok_def members_def)
  have "snd (crt_swim_send_message self to upds g) \<in> {g, ?g1, ?g2} \<or>
      (\<exists>rc. snd (crt_swim_send_message self to upds g) = crt_swim_cli_cb rc ?opc (ucast to) ?g2)"
    unfolding crt_swim_send_message_def Let_def by auto
  moreover note cli_cb_table [OF f(3)]
  ultimately show ?thesis
    using assms(1) f by (cases "crt_swim_send_message self to upds g") fastforce
qed

interpretation crt: swim_group crt_swim_ops group_ok members
proof
  show "members g m = Some s \<Longrightarrow> get_member_state crt_swim_ops m g = Inr s" for g m s
    by (simp add: crt_swim_ops_def get_member_state_members)
  show "members g m = None \<Longrightarrow> get_member_state crt_swim_ops m g = Inl DER_NONEXIST" for g m
    by (simp add: crt_swim_ops_def get_member_state_members)
  show "group_ok g \<Longrightarrow> members g m = Some s \<Longrightarrow> \<exists>g'. set_member_state crt_swim_ops m t g = (DER_SUCCESS, g') \<and>
      group_ok g' \<and> members g' = (members g)(m \<mapsto> t)" for g m s t
    using set_member_state_known [of g m s t] by (auto simp: crt_swim_ops_def)
  show "group_ok g \<Longrightarrow> message_ok (members g) self m0 upds \<Longrightarrow> \<exists>rc g'. send_message crt_swim_ops self to upds g = (rc, g') \<and> group_ok g' \<and>
      (members g' = members g \<or> (\<exists>m s. members g m = Some s \<and> members g' =
        (members g)(m \<mapsto> \<lparr>sms_incarnation = sms_incarnation s + 1, sms_status = SWIM_MEMBER_DEAD\<rparr>)))" for g self m0 to upds
    using send_message_table [of g self m0 upds to] by (simp add: crt_swim_ops_def)
  have tgt: "\<exists>m g'. target_loop bad self 0 g = Some (m, g') \<and> group_ok g' \<and> members g' = members g \<and>
      (m \<noteq> SWIM_ID_INVALID \<longrightarrow> m \<noteq> self \<and> (\<exists>s. members g m = Some s \<and> \<not> bad (sms_status s)))"
    if ok: "group_ok g" for bad self g
  proof -
    obtain m i where t: "target_loop bad self 0 g = Some (m, g\<lparr>csm_target := Some i\<rparr>)" "i < length (csm_head g)"
        "m \<noteq> SWIM_ID_INVALID \<longrightarrow> m = cst_id (csm_head g ! i) \<and> \<not> passes bad self (csm_head g ! i)"
      using target_loop_total [OF ok] by blast
    have "group_ok (g\<lparr>csm_target := Some i\<rparr>)" using ok t(2) by (simp add: group_ok_def)
    moreover have "members (g\<lparr>csm_target := Some i\<rparr>) = members g" by (simp add: members_def)
    ultimately show ?thesis using t nth_member [of g i] ok by (auto simp: group_ok_def)
  qed
  show "group_ok g \<Longrightarrow> \<exists>m g'. get_dping_target crt_swim_ops self g = Some (m, g') \<and> group_ok g' \<and>
      members g' = members g \<and> (m \<noteq> SWIM_ID_INVALID \<longrightarrow> m \<noteq> self \<and>
        (\<exists>s. members g m = Some s \<and> sms_status s \<noteq> SWIM_MEMBER_DEAD))" for g self
    using tgt [of g "\<lambda>st. st = SWIM_MEMBER_DEAD" self]
    by (auto simp: crt_swim_ops_def crt_swim_get_dping_target_def group_ok_def)
  show "group_ok g \<Longrightarrow> \<exists>m g'. get_iping_target crt_swim_ops self g = Some (m, g') \<and> group_ok g' \<and>
      members g' = members g \<and> (m \<noteq> SWIM_ID_INVALID \<longrightarrow> m \<noteq> self \<and>
        (\<exists>s. members g m = Some s \<and> sms_status s = SWIM_MEMBER_ALIVE))" for g self
    using tgt [of g "\<lambda>st. st \<noteq> SWIM_MEMBER_ALIVE" self]
    by (auto simp: crt_swim_ops_def crt_swim_get_iping_target_def group_ok_def)
qed

section \<open>The running service\<close>

text \<open>
  The invariant of the service while it has a SWIM context: the member list is a circle without
  duplicates in which the target stands, the own identifier is set only while the list is not empty,
  and the context keeps the invariant of the protocol.
\<close>

definition group_wf :: "grp_swim \<Rightarrow> bool" where
  "group_wf g \<longleftrightarrow> distinct (map cst_id (csm_head g)) \<and> gs_size g \<noteq> - 1 \<and>
    (\<forall>r\<in>set (gs_sent g). sent_ok r) \<and> (case csm_target g of None \<Rightarrow> csm_head g = [] | Some i \<Rightarrow> i < length (csm_head g))"

definition service_inv :: "crt_swim \<Rightarrow> bool" where
  "service_inv s \<longleftrightarrow> csm_live s \<and> cs_initialized s \<and> cs_service s \<and>
    swim_inv group_wf members (cs_swim s) \<and>
    (sc_self (sw_ctx (cs_swim s)) \<noteq> SWIM_ID_INVALID \<longrightarrow> csm_head (grp s) \<noteq> [])"

text \<open>One event of the service; \<open>pcb\<close> is the address of the progress callback.\<close>

inductive swim_event :: "nat \<Rightarrow> crt_swim \<Rightarrow> crt_swim \<Rightarrow> bool" for pcb where
  ev_progress: "crt_swim_progress_cb s = Some s' \<Longrightarrow> swim_event pcb s s'"
| ev_message: "crt_swim_srv_cb opc src upds s = Some (reply, s') \<Longrightarrow> swim_event pcb s s'"
| ev_complete: "swim_event pcb s (upd_grp (crt_swim_cli_cb rc opc rank) s)"
| ev_add: "crt_swim_rank_add rank s = Some (rc, s') \<Longrightarrow> swim_event pcb s s'"
| ev_del: "crt_swim_rank_del rank s = Some (rc, s') \<Longrightarrow> swim_event pcb s s'"
| ev_del_all: "swim_event pcb s (crt_swim_rank_del_all s)"
| ev_enable: "csm_head (grp s) \<noteq> [] \<Longrightarrow> crt_swim_enable pcb idx s = Some (rc, s') \<Longrightarrow> swim_event pcb s s'"
| ev_disable: "crt_swim_disable pcb idx s = Some (rc, s') \<Longrightarrow> swim_event pcb s s'"
| ev_disable_all: "crt_swim_disable_all pcb s = Some s' \<Longrightarrow> swim_event pcb s s'"
| ev_resize: "n \<noteq> - 1 \<Longrightarrow> swim_event pcb s (upd_grp (\<lambda>g. g\<lparr>gs_size := n\<rparr>) s)"

lemma group_ok_wf: "group_ok g \<longleftrightarrow> group_wf g \<and> csm_head g \<noteq> []"
  by (auto simp: group_ok_def group_wf_def split: option.splits)

lemma swim_inv_ok: "swim_inv group_ok members w \<longleftrightarrow> swim_inv group_wf members w \<and> csm_head (sw_data w) \<noteq> []"
  by (auto simp: swim_inv_def group_ok_wf)

lemma service_invD:
  "service_inv s \<Longrightarrow> sc_self (sw_ctx (cs_swim s)) \<noteq> SWIM_ID_INVALID \<Longrightarrow> swim_inv group_ok members (cs_swim s)"
  by (simp add: service_inv_def swim_inv_ok)

text \<open>A change of the own identifier: the rest of the invariant does not depend on it.\<close>

lemma self_set_live: "csm_live s \<Longrightarrow>
  self_set m s = s\<lparr>cs_swim := (cs_swim s)\<lparr>sw_ctx := (sw_ctx (cs_swim s))\<lparr>sc_self := m\<rparr>\<rparr>\<rparr>"
  by (simp add: self_set_def csm_ctx_def swim_self_set_def)

lemma self_set_inv:
  "service_inv s \<Longrightarrow> m \<noteq> SWIM_ID_INVALID \<longrightarrow> csm_head (grp s) \<noteq> [] \<Longrightarrow> service_inv (self_set m s)"
  by (auto simp: self_set_live service_inv_def swim_inv_def)

lemma check_self_inv: "service_inv s \<Longrightarrow> csm_head (grp s) \<noteq> [] \<Longrightarrow> service_inv (check_self s)"
  by (simp add: check_self_def self_set_inv)

lemma service_inv_world:
  "service_inv s \<Longrightarrow> swim_inv group_ok members w \<Longrightarrow> service_inv (s\<lparr>cs_swim := w\<rparr>)"
  by (simp add: service_inv_def swim_inv_ok)

text \<open>A change of the group data that keeps or lowers the number of suspected members.\<close>

lemma upd_grp_inv:
  assumes "service_inv s" "group_wf (f (grp s))" "csm_head (grp s) \<noteq> [] \<longrightarrow> csm_head (f (grp s)) \<noteq> []"
    "\<And>m t. members (f (grp s)) m = Some t \<Longrightarrow> sms_status t = SWIM_MEMBER_SUSPECT \<Longrightarrow> members (grp s) m = Some t"
  shows "service_inv (upd_grp f s)"
  using assms by (auto simp: service_inv_def swim_inv_def upd_grp_def suspects_timed_def)

section \<open>Every event keeps the invariant\<close>

lemma progress_cb_inv:
  assumes "service_inv s" "crt_swim_progress_cb s = Some s'"
  shows "service_inv s'"
proof (cases "sc_self (sw_ctx (cs_swim s)) = SWIM_ID_INVALID")
  case True
  then show ?thesis using assms
    by (auto simp: crt_swim_progress_cb_def csm_ctx_def swim_self_get_def service_inv_def)
next
  case False
  have live: "csm_live s" using assms(1) by (simp add: service_inv_def)
  obtain rc wo where p: "swim_progress crt_swim_ops CRT_SWIM_PROGRESS_TIMEOUT (Some (cs_swim s)) = Some (rc, wo)"
      "case wo of None \<Rightarrow> s' = s | Some w \<Rightarrow> s' = (if rc = ESHUTDOWN then self_set SWIM_ID_INVALID (s\<lparr>cs_swim := w\<rparr>)
        else s\<lparr>cs_swim := w\<rparr>)"
    using assms(2) False live
    by (auto simp: crt_swim_progress_cb_def csm_ctx_def swim_self_get_def Let_def split: option.splits if_splits)
  from crt.progress_evolves [OF p(1) service_invD [OF assms(1) False]]
  obtain w where w: "wo = Some w" "swim_inv group_ok members w" by (auto simp: evolves_def)
  then show ?thesis using p(2) service_inv_world [OF assms(1) w(2)] self_set_inv by auto
qed

lemma srv_cb_inv:
  assumes "service_inv s" "crt_swim_srv_cb opc src upds s = Some (reply, s')"
  shows "service_inv s'"
proof (cases "sc_self (sw_ctx (cs_swim s)) = SWIM_ID_INVALID")
  case True
  then show ?thesis using assms
    by (auto simp: crt_swim_srv_cb_def csm_ctx_def swim_self_get_def service_inv_def split: if_splits)
next
  case False
  obtain rc w where w: "swim_parse_message crt_swim_ops src upds (cs_swim s) = (rc, w)" by fastforce
  have inv: "swim_inv group_ok members w"
    using crt.parse_message_evolves [OF service_invD [OF assms(1) False], of src upds] w by (simp add: evolves_def)
  have "s' = s\<lparr>cs_swim := w\<rparr> \<or> s' = self_set SWIM_ID_INVALID (s\<lparr>cs_swim := w\<rparr>)"
    using assms False w
    by (auto simp: crt_swim_srv_cb_def csm_ctx_def swim_self_get_def service_inv_def Let_def split: if_splits)
  then show ?thesis using service_inv_world [OF assms(1) inv] self_set_inv by auto
qed

lemma cli_cb_inv:
  assumes "service_inv s"
  shows "service_inv (upd_grp (crt_swim_cli_cb rc opc rank) s)"
proof (cases "csm_head (grp s) = []")
  case True
  then have "crt_swim_cli_cb rc opc rank (grp s) = grp s"
    by (simp add: crt_swim_cli_cb_def crt_swim_get_member_state_def)
  then show ?thesis using assms by (simp add: upd_grp_def)
next
  case False
  then have "group_ok (grp s)" using assms by (simp add: group_ok_wf service_inv_def swim_inv_def)
  from cli_cb_table [OF this, of rc opc rank] show ?thesis
    by (intro upd_grp_inv [OF assms]) (auto simp: group_ok_wf split: if_splits)
qed

lemma members_del:
  assumes "distinct (map cst_id (csm_head g))" "j < length (csm_head g)"
    "members (g\<lparr>csm_head := take j (csm_head g) @ drop (Suc j) (csm_head g), csm_target := t\<rparr>) m = Some st"
  shows "members g m = Some st"
proof -
  let ?xs = "map (\<lambda>c. (cst_id c, cst_state c)) (csm_head g)"
  have "(m, st) \<in> set (take j ?xs @ drop (Suc j) ?xs)"
    using assms(3) by (auto simp: members_def take_map drop_map dest!: map_of_SomeD)
  then have "(m, st) \<in> set ?xs" using in_set_takeD [of "(m, st)" j ?xs] in_set_dropD [of "(m, st)" "Suc j" ?xs] by auto
  then show ?thesis using assms(1) unfolding members_def by (intro map_of_is_SomeI) (simp_all add: comp_def)
qed

lemma pos_of_less: "pos_of m xs = Some j \<Longrightarrow> j < length xs"
  by (induction xs arbitrary: j) (auto split: if_splits)

lemma pos_of_None: "pos_of m xs = None \<longleftrightarrow> m \<notin> set (map cst_id xs)"
  by (induction xs) auto

lemma distinct_del: "distinct xs \<Longrightarrow> distinct (take j xs @ drop (Suc j) xs)"
  using set_take_disj_set_drop_if_distinct [of xs j "Suc j"] by simp

lemma rank_del_inv:
  assumes "service_inv s" "crt_swim_rank_del rank s = Some (rc, s')"
  shows "service_inv s'"
proof (cases "pos_of (ucast rank) (csm_head (grp s))")
  case None
  then show ?thesis using assms by (auto simp: crt_swim_rank_del_def Let_def split: if_splits)
next
  case (Some j)
  let ?head = "csm_head (grp s)"
  let ?new = "take j ?head @ drop (Suc j) ?head"
  have j: "j < length ?head" using pos_of_less [OF Some] .
  have wf: "group_wf (grp s)" and flags: "cs_initialized s" "cs_service s" "csm_live s"
    using assms(1) by (simp_all add: service_inv_def swim_inv_def)
  then obtain i where i: "csm_target (grp s) = Some i" "i < length ?head"
    using j by (auto simp: group_wf_def split: option.splits)
  have d: "distinct (map cst_id ?new)" "gs_size (grp s) \<noteq> - 1" "\<forall>r\<in>set (gs_sent (grp s)). sent_ok r"
    using wf distinct_del [of "map cst_id ?head" j] by (simp_all add: group_wf_def take_map drop_map)
  have m: "members (grp s\<lparr>csm_head := ?new, csm_target := t\<rparr>) m = Some st \<Longrightarrow> members (grp s) m = Some st" for t m st
    using members_del [of "grp s" j t m st] wf j by (simp add: group_wf_def)
  show ?thesis
  proof (cases "?new = []")
    case True
    have "service_inv (upd_grp (\<lambda>g. g\<lparr>csm_head := ?new, csm_target := None\<rparr>) (self_set SWIM_ID_INVALID s))"
      using assms(1) True d flags m [of None]
      by (auto simp: service_inv_def self_set_live upd_grp_def swim_inv_def group_wf_def suspects_timed_def members_def)
    then show ?thesis using assms(2) Some i True flags
      by (auto simp: crt_swim_rank_del_def Let_def loop_next_mod)
  next
    case False
    then have len: "length ?new = length ?head - 1" "length ?head \<noteq> 1" using j by auto
    define i' where "i' = (if i = j then (if Suc i = length ?head then 0 else Suc i) else i)"
    define k where "k = (if j < i' then i' - 1 else i')"
    have "k < length ?new" using i(2) j len by (auto simp: k_def i'_def)
    then have "service_inv (upd_grp (\<lambda>g. g\<lparr>csm_head := ?new, csm_target := Some k\<rparr>) s)"
      using False d m by (intro upd_grp_inv [OF assms(1)]) (auto simp: group_wf_def)
    moreover have "s' = upd_grp (\<lambda>g. g\<lparr>csm_head := ?new, csm_target := Some k\<rparr>) s"
      using assms(2) Some i False flags
      by (auto simp: crt_swim_rank_del_def Let_def loop_next_def k_def i'_def split: if_splits)
    ultimately show ?thesis by simp
  qed
qed

lemma advance_less: "advance n k i = Some i' \<Longrightarrow> i < n \<Longrightarrow> i' < n"
  by (induction k arbitrary: i) (auto simp: loop_next_def split: if_splits)

lemma rank_insert_inv:
  assumes "service_inv s" "rank_insert rank s = Some s'" "pos_of (ucast rank) (csm_head (grp s)) = None"
  shows "service_inv s' \<and> csm_head (grp s') \<noteq> []"
proof -
  let ?head = "csm_head (grp s)"
  let ?c = "rank_cst rank SWIM_MEMBER_INACTIVE"
  from assms(2) obtain i i' where i: "csm_target (grp s) = Some i" "i < length ?head"
      "advance (length (take (Suc i) ?head @ ?c # drop (Suc i) ?head))
        (1 + cs_rand s (cs_nrand s) mod unat (gs_size (grp s) + 1)) i = Some i'"
      "s' = upd_grp (\<lambda>g. g\<lparr>csm_head := take (Suc i) ?head @ ?c # drop (Suc i) ?head, csm_target := Some i'\<rparr>)
        (s\<lparr>cs_nrand := Suc (cs_nrand s)\<rparr>)"
    by (auto simp: rank_insert_def Let_def split: option.splits if_splits)
  let ?new = "take (Suc i) ?head @ ?c # drop (Suc i) ?head"
  have wf: "group_wf (grp s)" using assms(1) by (simp add: service_inv_def swim_inv_def)
  have i': "i' < length ?new" by (rule advance_less [OF i(3)]) (use i(2) in simp)
  have perm: "mset ?new = add_mset ?c (mset ?head)" by (metis append_take_drop_id mset.simps(2) mset_append union_mset_add_mset_right)
  then have "mset (map cst_id ?new) = add_mset (cst_id ?c) (mset (map cst_id ?head))" by (simp only: mset_map image_mset_add_mset)
  moreover have "distinct (map cst_id (?c # ?head))"
    using wf assms(3) by (simp add: group_wf_def pos_of_None rank_cst_def)
  ultimately have d: "distinct (map cst_id ?new)" by (metis list.simps(9) mset.simps(2) mset_eq_imp_distinct_iff)
  have st: "set ?new = set (?c # ?head)" using arg_cong [OF perm, of set_mset] by simp
  have m: "members (grp s) m = Some t"
    if "members (grp s\<lparr>csm_head := ?new, csm_target := Some i'\<rparr>) m = Some t" "sms_status t = SWIM_MEMBER_SUSPECT" for m t
  proof -
    have "(m, t) \<in> set (map (\<lambda>c. (cst_id c, cst_state c)) ?new)"
      using that(1) unfolding members_def by (auto simp del: map_append dest!: map_of_SomeD)
    then have "(m, t) \<in> set (map (\<lambda>c. (cst_id c, cst_state c)) (?c # ?head))"
      unfolding set_map st by (simp only: set_map list.set)
    then have "(m, t) \<in> set (map (\<lambda>c. (cst_id c, cst_state c)) ?head)" using that(2) by (auto simp: rank_cst_def)
    then show ?thesis using wf unfolding members_def by (intro map_of_is_SomeI) (simp_all add: comp_def group_wf_def)
  qed
  have "service_inv (s\<lparr>cs_nrand := Suc (cs_nrand s)\<rparr>)" using assms(1) by (simp add: service_inv_def)
  then have "service_inv s'" unfolding i(4)
    by (rule upd_grp_inv) (use wf d i' m in \<open>auto simp: group_wf_def\<close>)
  then show ?thesis using i(4) by (simp add: upd_grp_def)
qed

lemma cs_alloc_inv: "cs_alloc s = (b, s') \<Longrightarrow> service_inv s \<Longrightarrow> service_inv s' \<and> grp s' = grp s \<and> csm_live s'"
  by (auto simp: cs_alloc_def swim_alloc_def service_inv_def swim_inv_def)

lemma first_member_inv:
  assumes "service_inv s" "csm_head (grp s) = []"
  shows "service_inv (upd_grp (\<lambda>g. g\<lparr>csm_head := [rank_cst self SWIM_MEMBER_ALIVE], csm_target := Some 0\<rparr>) s)"
  using assms by (intro upd_grp_inv) (auto simp: service_inv_def swim_inv_def group_wf_def members_def rank_cst_def split: if_splits)

lemma rank_id_inj: "(ucast (a :: u32) :: u64) = ucast b \<longleftrightarrow> a = b"
proof
  assume "(ucast a :: u64) = ucast b"
  then have "unat (ucast a :: u64) = unat (ucast b :: u64)" by simp
  moreover have "unat (ucast x :: u64) = unat x" for x :: u32
    using unat_u32_less [of x] by (simp add: unsigned_ucast_eq take_bit_nat_eq_self)
  ultimately show "a = b" by (simp add: word_unat_eq_iff)
qed simp

lemma rank_add_inv:
  assumes inv: "service_inv s" and add: "crt_swim_rank_add rank s = Some (rc, s')"
  shows "service_inv s'"
proof -
  let ?self = "gs_self (grp s)"
  obtain b1 s1 where a1: "cs_alloc s = (b1, s1)" by fastforce
  have i1: "service_inv s1" "grp s1 = grp s" using cs_alloc_inv [OF a1 inv] by blast+
  have flags: "cs_initialized s" "cs_service s" using inv by (simp_all add: service_inv_def)
  let ?s2 = "upd_grp (\<lambda>g. g\<lparr>csm_head := [rank_cst ?self SWIM_MEMBER_ALIVE], csm_target := Some 0\<rparr>) s1"
  obtain b2 s3 where a2: "cs_alloc ?s2 = (b2, s3)" by fastforce
  consider "?self = CRT_NO_RANK \<or> \<not> b1"
    | "?self \<noteq> CRT_NO_RANK" "b1" "csm_head (grp s) = []"
    | "?self \<noteq> CRT_NO_RANK" "b1" "csm_head (grp s) \<noteq> []"
    by blast
  then show ?thesis
  proof cases
    case 1
    then show ?thesis using add flags inv i1 a1 by (auto simp: crt_swim_rank_add_def Let_def split: if_splits)
  next
    case 2
    have i2: "service_inv ?s2" "csm_head (grp ?s2) \<noteq> []"
      using first_member_inv [OF i1(1)] 2(3) i1(2) by (simp_all add: upd_grp_def)
    have i3: "service_inv s3" "grp s3 = grp ?s2" using cs_alloc_inv [OF a2 i2(1)] by blast+
    consider "rank = ?self" "s' = check_self ?s2"
      | rc' where "rank \<noteq> ?self" "crt_swim_rank_del ?self s3 = Some (rc', s')"
      | s4 where "rank \<noteq> ?self" "rank_insert rank s3 = Some s4" "s' = check_self s4"
      using add flags 2 a1 a2 i1(2) by (auto simp: crt_swim_rank_add_def Let_def split: if_splits)
    then show ?thesis
    proof cases
      case 1
      then show ?thesis using check_self_inv [OF i2] by simp
    next
      case 2
      then show ?thesis using rank_del_inv [OF i3(1)] by blast
    next
      case 3
      have "(ucast rank :: u64) \<noteq> ucast ?self"
        using 3(1) by (simp add: rank_id_inj)
      then have "pos_of (ucast rank) (csm_head (grp s3)) = None"
        using i3(2) by (simp add: upd_grp_def rank_cst_def)
      then show ?thesis using rank_insert_inv [OF i3(1) 3(2)] 3(3) check_self_inv by blast
    qed
  next
    case 3
    consider "s' = check_self s1"
      | s2 where "pos_of (ucast rank) (csm_head (grp s1)) = None" "rank_insert rank s1 = Some s2" "s' = check_self s2"
      using add flags 3 a1 i1(2) by (auto simp: crt_swim_rank_add_def Let_def split: if_splits)
    then show ?thesis
    proof cases
      case 1
      then show ?thesis using check_self_inv [OF i1(1)] 3(3) i1(2) by simp
    next
      case 2
      then show ?thesis using rank_insert_inv [OF i1(1) 2(2) 2(1)] check_self_inv by blast
    qed
  qed
qed

text \<open>Changes of the group data outside of the member list.\<close>

lemma upd_grp_frame_inv:
  assumes "service_inv s" "csm_head (f (grp s)) = csm_head (grp s)" "csm_target (f (grp s)) = csm_target (grp s)"
    "gs_size (f (grp s)) \<noteq> - 1" "gs_sent (f (grp s)) = gs_sent (grp s)"
  shows "service_inv (upd_grp f s) \<and> csm_head (grp (upd_grp f s)) = csm_head (grp s)"
proof -
  have "group_wf (grp s)" using assms(1) by (simp add: service_inv_def swim_inv_def)
  then have "service_inv (upd_grp f s)"
    using assms members_frame [OF assms(2)] by (intro upd_grp_inv) (auto simp: group_wf_def split: option.splits)
  then show ?thesis using assms(2) by (simp add: upd_grp_def)
qed

lemma service_inv_size: "service_inv s \<Longrightarrow> gs_size (grp s) \<noteq> - 1"
  by (simp add: service_inv_def swim_inv_def group_wf_def)

lemma set_world_inv: "service_inv s \<Longrightarrow> service_inv (upd_grp (\<lambda>g. g\<lparr>gs_world := w\<rparr>) s)"
  using upd_grp_frame_inv [of s "\<lambda>g. g\<lparr>gs_world := w\<rparr>"] service_inv_size [of s] by simp

lemma progress_cb_add_inv: "service_inv s \<Longrightarrow> progress_cb_add pcb idx s = Some (rc, s') \<Longrightarrow> service_inv s'"
  using set_world_inv [of s]
  by (auto simp: progress_cb_add_def split: option.splits)

lemma progress_cb_del_inv: "service_inv s \<Longrightarrow> progress_cb_del pcb idx s = Some (rc, s') \<Longrightarrow> service_inv s'"
  using set_world_inv [of s]
  by (auto simp: progress_cb_del_def split: option.splits)

lemma set_idx_inv: "service_inv s \<Longrightarrow> service_inv (upd_grp (\<lambda>g. g\<lparr>csm_crt_ctx_idx := idx\<rparr>) s) \<and>
    csm_head (grp (upd_grp (\<lambda>g. g\<lparr>csm_crt_ctx_idx := idx\<rparr>) s)) = csm_head (grp s)"
  using service_inv_size [of s] by (intro upd_grp_frame_inv) simp_all

lemma enable_inv:
  assumes "service_inv s" "csm_head (grp s) \<noteq> []" "crt_swim_enable pcb idx s = Some (rc, s')"
  shows "service_inv s'"
proof -
  have i: "service_inv (check_self (upd_grp (\<lambda>g. g\<lparr>csm_crt_ctx_idx := idx\<rparr>) s))"
    using check_self_inv set_idx_inv [OF assms(1), of idx] assms(2) by simp
  show ?thesis
    using assms(1,3) i
    by (auto simp: crt_swim_enable_def Let_def split: if_splits option.splits
        intro: progress_cb_add_inv progress_cb_del_inv)
qed

lemma leave_inv:
  "service_inv s \<Longrightarrow> service_inv (self_set SWIM_ID_INVALID (upd_grp (\<lambda>g. g\<lparr>csm_crt_ctx_idx := - 1\<rparr>) s))"
  using set_idx_inv [of s "- 1"] by (simp add: self_set_inv)

lemma disable_inv: "service_inv s \<Longrightarrow> crt_swim_disable pcb idx s = Some (rc, s') \<Longrightarrow> service_inv s'"
  using leave_inv [of s] progress_cb_del_inv self_set_inv [of s SWIM_ID_INVALID]
  by (auto simp: crt_swim_disable_def split: if_splits)

lemma disable_all_inv: "service_inv s \<Longrightarrow> crt_swim_disable_all pcb s = Some s' \<Longrightarrow> service_inv s'"
  using leave_inv [of s] progress_cb_del_inv
  by (auto simp: crt_swim_disable_all_def Let_def split: if_splits)

lemma rank_del_all_inv: "service_inv s \<Longrightarrow> service_inv (crt_swim_rank_del_all s)"
  by (auto simp: crt_swim_rank_del_all_def self_set_live upd_grp_def service_inv_def swim_inv_def group_wf_def
      suspects_timed_def members_def)

lemma event_inv: "swim_event pcb s s' \<Longrightarrow> service_inv s \<Longrightarrow> service_inv s'"
proof (induction rule: swim_event.induct)
  case (ev_resize n s)
  then show ?case using upd_grp_frame_inv [of s "\<lambda>g. g\<lparr>gs_size := n\<rparr>"] by simp
qed (blast intro: progress_cb_inv srv_cb_inv cli_cb_inv rank_add_inv rank_del_inv rank_del_all_inv enable_inv
    disable_inv disable_all_inv)+

section \<open>The start of the service\<close>

definition fresh_service :: "crt_swim \<Rightarrow> bool" where
  "fresh_service s \<longleftrightarrow> cs_initialized s \<and> cs_service s \<and> group_wf (grp s) \<and> csm_head (grp s) = [] \<and>
    ping_timeout_ok (swim_ping_timeout (cs_swim s))"

lemma add_ranks_inv: "service_inv s \<Longrightarrow> add_ranks rs s = Some (rc, s') \<Longrightarrow> service_inv s'"
  by (induction rs arbitrary: s) (auto split: option.splits if_splits dest: rank_add_inv)

lemma fresh_context_inv:
  assumes "fresh_service s" "sw_data w = grp s" "swim_ping_timeout w = swim_ping_timeout (cs_swim s)"
    "sc_suspects (sw_ctx w) = []" "sc_updates (sw_ctx w) = []" "sc_self (sw_ctx w) = SWIM_ID_INVALID"
    "t = s\<lparr>cs_swim := w, csm_live := True\<rparr>"
  shows "service_inv t"
  using assms by (simp add: service_inv_def fresh_service_def swim_inv_def suspects_timed_def members_def)

lemma init_inv:
  assumes "fresh_service s" "crt_swim_init pcb idx mutex_ok proto_rc s = Some (DER_SUCCESS, s')"
  shows "service_inv s'"
proof -
  define s1 where "s1 = upd_grp (\<lambda>g. g\<lparr>csm_crt_ctx_idx := idx\<rparr>) s"
  obtain b s2 where a: "cs_alloc s1 = (b, s2)" by fastforce
  have not_cleanup: "init_cleanup rc t \<noteq> Some (DER_SUCCESS, s')" if "rc \<noteq> DER_SUCCESS" for rc t
    using that by (auto simp: init_cleanup_def split: option.splits)
  have cu: "cg_swim_inited s = False" using assms(2) by (auto simp: crt_swim_init_def)
  from assms(2) a cu obtain ops c s3 s4 where
    i: "swim_init SWIM_ID_INVALID
          (Some (Some crt_swim_send_message, Some crt_swim_get_dping_target, Some crt_swim_get_iping_target,
                 Some crt_swim_get_member_state, Some crt_swim_set_member_state)) b mutex_ok = Some (ops, c)"
      "s3 = s2\<lparr>cs_swim := (cs_swim s2)\<lparr>sw_ctx := c\<rparr>, csm_live := True\<rparr>"
      "init_members s3 = Some (DER_SUCCESS, s4)" "init_register pcb idx proto_rc s4 = Some (DER_SUCCESS, s')"
    unfolding crt_swim_init_def s1_def [symmetric]
    by (auto simp: not_cleanup split: if_splits option.splits)
  have f1: "fresh_service s1"
    using assms(1) by (auto simp: fresh_service_def s1_def upd_grp_def group_wf_def split: option.splits)
  have "s2 = s1\<lparr>cs_swim := (cs_swim s1)\<lparr>sw_nalloc := Suc (sw_nalloc (cs_swim s1))\<rparr>\<rparr>"
    using a by (simp add: cs_alloc_def swim_alloc_def)
  then have f2: "fresh_service s2" using f1 by (simp add: fresh_service_def)
  have "service_inv s3" using i(1)
    by (intro fresh_context_inv [OF f2 _ _ _ _ _ i(2)]) (auto simp: swim_init_def split: if_splits)
  then have "service_inv s4"
    using i(3) by (auto simp: init_members_def split: option.splits if_splits intro: add_ranks_inv)
  then show ?thesis
    using i(4) not_cleanup progress_cb_add_inv [of s4 pcb idx]
    by (auto simp: init_register_def service_inv_def split: option.splits if_splits)
qed

lemma events_inv: "(swim_event pcb)\<^sup>*\<^sup>* s s' \<Longrightarrow> service_inv s \<Longrightarrow> service_inv s'"
  by (induction rule: rtranclp_induct) (auto intro: event_inv)

section \<open>Behaviours to know about\<close>

text \<open>Enabling SWIM on the context it already runs on registers the progress callback once more.\<close>

lemma enable_registers_again:
  assumes "cs_initialized s" "cs_service s" "gs_self (grp s) \<noteq> CRT_NO_RANK" "csm_crt_ctx_idx (grp s) = idx"
    "0 \<le> idx" "idx < CRT_SRV_CONTEXT_NUM" "ok (gs_world (grp s)) (nalloc (gs_world (grp s)))"
  shows "\<exists>s'. crt_swim_enable pcb idx s = Some (DER_SUCCESS, s') \<and>
    cpg_prog_cbs (gs_world (grp s')) (nat idx) = cpg_prog_cbs (gs_world (grp s)) (nat idx) @ [(pcb, 0)]"
proof -
  have "gs_world (grp (self_set m t)) = gs_world (grp t)" for m t
    by (simp add: self_set_def split: option.splits)
  then have "gs_world (grp (check_self t)) = gs_world (grp t)" for t by (simp add: check_self_def)
  then show ?thesis using assms
    by (auto simp: crt_swim_enable_def Let_def progress_cb_add_def crt_register_progress_cb_def alloc1_def upd_grp_def)
qed

text \<open>
  A member list shorter than the group size makes the initialisation fail, and its clean-up then reads
  past the end of the list.
\<close>

lemma del_ranks_overrun: "length rs < n \<Longrightarrow> del_ranks n rs s = None"
  by (induction n rs s rule: del_ranks.induct) (auto split: option.splits)

lemma init_overruns_members:
  assumes "\<not> cg_swim_inited s" "gs_membs (grp s) = Some rs" "gs_self (grp s) \<noteq> CRT_NO_RANK"
    "length rs < unat (gs_size (grp s))" "sw_alloc (cs_swim s) (sw_nalloc (cs_swim s))"
  shows "crt_swim_init pcb idx True proto_rc s = None"
  using assms del_ranks_overrun [OF assms(4)]
  by (simp add: crt_swim_init_def swim_init_def cs_alloc_def swim_alloc_def upd_grp_def init_members_def
      init_cleanup_def)

text \<open>
  A member that a failed message declared dead keeps its suspicion, and each later expiry leaves the
  entry where it is.
\<close>

lemma stale_suspicion_stays:
  "T (si_id item) = Some st \<Longrightarrow> sms_status st = SWIM_MEMBER_DEAD \<Longrightarrow> si_from item = self \<Longrightarrow>
   expire T now self tmo item = [item]"
  by (simp add: expire_def)

section \<open>A small service\<close>

definition demo_grp :: grp_swim where
  "demo_grp = \<lparr>gs_size = 3, gs_self = 0, gs_membs = Some [0, 1, 2], csm_head = [], csm_target = None,
     csm_crt_ctx_idx = - 1, gs_event_cbs = [], gs_events = [], gs_world = demo_world,
     gs_create = \<lambda>_. DER_SUCCESS, gs_timeout = \<lambda>_. DER_SUCCESS, gs_send = \<lambda>_. DER_SUCCESS, gs_nreq = 0,
     gs_sent = []\<rparr>"

definition demo_context :: swim_context where
  "demo_context = \<lparr>sc_subgroup = [], sc_suspects = [], sc_updates = [], sc_ipings = [], sc_state = SCS_BEGIN,
     sc_target = SWIM_ID_INVALID, sc_self = SWIM_ID_INVALID, sc_expect_progress_time = 0, sc_next_tick_time = 0,
     sc_dping_deadline = 0, sc_iping_deadline = 0, sc_piggyback_tx_max = 50\<rparr>"

definition demo_start :: crt_swim where
  "demo_start = \<lparr>cs_swim = \<lparr>sw_ctx = demo_context, sw_data = demo_grp, swim_ping_timeout = 800,
       sw_clock = \<lambda>_. 5, sw_nclock = 0, sw_alloc = \<lambda>_. True, sw_nalloc = 0\<rparr>,
     csm_live = False, cg_swim_inited = False, cs_initialized = True, cs_service = True,
     cs_rand = \<lambda>_. 0, cs_nrand = 0\<rparr>"

text \<open>Three members, of which the third is suspected by the second.\<close>

definition demo_ring :: grp_swim where
  "demo_ring = demo_grp\<lparr>csm_head :=
      [\<lparr>cst_id = 0, cst_state = \<lparr>sms_incarnation = 0, sms_status = SWIM_MEMBER_ALIVE\<rparr>\<rparr>,
       \<lparr>cst_id = 1, cst_state = \<lparr>sms_incarnation = 0, sms_status = SWIM_MEMBER_DEAD\<rparr>\<rparr>,
       \<lparr>cst_id = 2, cst_state = \<lparr>sms_incarnation = 0, sms_status = SWIM_MEMBER_SUSPECT\<rparr>\<rparr>],
     csm_target := Some 0\<rparr>"

definition demo_service :: crt_swim where
  "demo_service = demo_start\<lparr>cs_swim := (cs_swim demo_start)\<lparr>sw_data := demo_ring,
      sw_ctx := demo_context\<lparr>sc_self := 0, sc_suspects := [\<lparr>si_id = 2, si_from = 1, si_u = 4\<rparr>]\<rparr>\<rparr>,
     csm_live := True\<rparr>"

lemmas demo_defs = demo_grp_def demo_context_def demo_start_def demo_ring_def demo_service_def

lemma demo_fresh: "fresh_service demo_start"
  by (simp add: fresh_service_def demo_defs group_wf_def ping_timeout_ok_def SWIM_PING_TIMEOUT_def)

lemma demo_service_inv: "service_inv demo_service"
  by (simp add: service_inv_def swim_inv_def demo_defs group_wf_def ping_timeout_ok_def SWIM_PING_TIMEOUT_def
      suspects_timed_def members_def)

lemma demo_self: "sc_self (sw_ctx (cs_swim demo_service)) \<noteq> SWIM_ID_INVALID"
  by (simp add: demo_defs SWIM_ID_INVALID_def)

lemmas start_eval = crt_swim_init_def swim_init_def init_members_def init_register_def cs_alloc_def swim_alloc_def
  upd_grp_def crt_swim_rank_add_def rank_insert_def check_self_def self_set_def csm_ctx_def swim_self_get_def
  swim_self_set_def progress_cb_add_def crt_register_progress_cb_def alloc1_def loop_next_def rank_cst_def
  CRT_NO_RANK_def CRT_SRV_CONTEXT_NUM_def Let_def SWIM_ID_INVALID_def

lemma demo_starts: "\<exists>s. crt_swim_init 1 0 True DER_SUCCESS demo_start = Some (DER_SUCCESS, s) \<and>
    map cst_id (csm_head (grp s)) = [0, 1, 2]"
  by (simp add: start_eval demo_world_def demo_grp_def demo_context_def demo_start_def)

section \<open>Properties\<close>





text \<open>
  Property C7. The progress callback of a service that satisfies its invariant returns, provided the clock does
  not read zero: the state machine forces at most a bounded number of rounds, and no assertion fails.
\<close>

theorem swim_progress_returns:
  assumes "service_inv s" "\<And>n. sw_clock (cs_swim s) n \<noteq> 0"
  shows "\<exists>s'. crt_swim_progress_cb s = Some s' \<and> service_inv s'"
proof (cases "sc_self (sw_ctx (cs_swim s)) = SWIM_ID_INVALID")
  case True
  then show ?thesis using assms(1)
    by (simp add: crt_swim_progress_cb_def csm_ctx_def swim_self_get_def service_inv_def)
next
  case False
  have live: "csm_live s" using assms(1) by (simp add: service_inv_def)
  obtain rc w where "swim_progress crt_swim_ops 0 (Some (cs_swim s)) = Some (rc, Some w)"
    using crt.progress_returns [OF service_invD [OF assms(1) False] assms(2)] by blast
  then obtain s' where "crt_swim_progress_cb s = Some s'"
    using live False
    by (auto simp: crt_swim_progress_cb_def csm_ctx_def swim_self_get_def CRT_SWIM_PROGRESS_TIMEOUT_def Let_def)
  then show ?thesis using progress_cb_inv [OF assms(1)] by blast
qed

theorem swim_progress_returns_witness:
  "\<exists>s'. crt_swim_progress_cb demo_service = Some s' \<and> service_inv s'"
proof -
  have "sw_clock (cs_swim demo_service) n \<noteq> 0" for n by (simp add: demo_defs)
  then show ?thesis by (rule swim_progress_returns [OF demo_service_inv])
qed

text \<open>
  Property C9. Direct pings go round robin: when the list holds a member that is neither dead nor the caller, and
  the group size covers the list, the selection returns the first such member behind the last target,
  and the target moves there.
\<close>

theorem dping_round_robin:
  assumes "group_ok g" "csm_target g = Some i" "length (csm_head g) \<le> Suc (unat (gs_size g))"
    "c \<in> set (csm_head g)" "cst_id c \<noteq> self" "sms_status (cst_state c) \<noteq> SWIM_MEMBER_DEAD"
  shows "\<exists>k > 0. k \<le> length (csm_head g) \<and>
    crt_swim_get_dping_target self g = Some (cst_id (csm_head g ! ((i + k) mod length (csm_head g))),
      g\<lparr>csm_target := Some ((i + k) mod length (csm_head g))\<rparr>) \<and>
    \<not> passes (\<lambda>st. st = SWIM_MEMBER_DEAD) self (csm_head g ! ((i + k) mod length (csm_head g))) \<and>
    (\<forall>j. 0 < j \<and> j < k \<longrightarrow> passes (\<lambda>st. st = SWIM_MEMBER_DEAD) self (csm_head g ! ((i + j) mod length (csm_head g))))"
proof -
  let ?n = "length (csm_head g)"
  let ?good = "\<lambda>k. 0 < k \<and> \<not> passes (\<lambda>st. st = SWIM_MEMBER_DEAD) self (csm_head g ! ((i + k) mod ?n))"
  obtain p where p: "p < ?n" "csm_head g ! p = c" using assms(4) by (auto simp: in_set_conv_nth)
  have i: "i < ?n" "gs_size g \<noteq> - 1" using assms(1,2) by (auto simp: group_ok_def)
  define k0 where "k0 = (if p > i then p - i else p + ?n - i)"
  have k0: "0 < k0" "k0 \<le> ?n" "(i + k0) mod ?n = p" using p(1) i(1) by (auto simp: k0_def)
  then have good: "?good k0" using p(2) assms(5,6) by simp
  define k where "k = (LEAST k. ?good k)"
  have k: "?good k" "k \<le> k0" unfolding k_def by (rule LeastI [of ?good, OF good], rule Least_le [of ?good, OF good])
  have before: "passes (\<lambda>st. st = SWIM_MEMBER_DEAD) self (csm_head g ! ((i + j) mod ?n))" if "0 < j" "j < k" for j
    using not_less_Least [of j ?good] that unfolding k_def by blast
  have "crt_swim_get_dping_target self g = Some (cst_id (csm_head g ! ((i + k) mod ?n)),
      g\<lparr>csm_target := Some ((i + k) mod ?n)\<rparr>)"
    using target_loop_first [OF assms(2) i, of k 0 self "\<lambda>st. st = SWIM_MEMBER_DEAD"] k k0(2) assms(2,3) before
    by (simp add: crt_swim_get_dping_target_def)
  then show ?thesis using k k0(2) before by (intro exI [of _ k]) auto
qed

theorem dping_round_robin_witness:
  "\<exists>k > 0. k \<le> 3 \<and> crt_swim_get_dping_target 0 demo_ring =
    Some (cst_id (csm_head demo_ring ! (k mod 3)), demo_ring\<lparr>csm_target := Some (k mod 3)\<rparr>)"
proof -
  let ?c = "\<lparr>cst_id = 2, cst_state = \<lparr>sms_incarnation = 0, sms_status = SWIM_MEMBER_SUSPECT\<rparr>\<rparr> :: crt_swim_target"
  have "group_ok demo_ring" "csm_target demo_ring = Some 0" "length (csm_head demo_ring) \<le> Suc (unat (gs_size demo_ring))"
    "?c \<in> set (csm_head demo_ring)" "cst_id ?c \<noteq> 0" "sms_status (cst_state ?c) \<noteq> SWIM_MEMBER_DEAD"
    by (simp_all add: demo_defs group_ok_def)
  from dping_round_robin [OF this] show ?thesis by (auto simp: demo_defs)
qed

text \<open>
  Property C10. A message that leaves the library describes its subject first, includes the sender, mentions every
  member at most once, has at most eight entries besides, and carries the current state of each member;
  otherwise the library sends nothing, returns an error and leaves its queues as they were.
\<close>

theorem swim_message_wellformed:
  assumes "service_inv s" "sc_self (sw_ctx (cs_swim s)) \<noteq> SWIM_ID_INVALID"
    "swim_updates_send crt_swim_ops m to (cs_swim s) = (rc, w')"
  shows "(rc \<in> {EINVAL, ENOMEM, DER_NONEXIST} \<and> sw_ctx w' = sw_ctx (cs_swim s) \<and> sw_data w' = grp s) \<or>
    (\<exists>upds. message_ok (members (grp s)) (sc_self (sw_ctx (cs_swim s))) m upds \<and>
      crt_swim_send_message (sc_self (sw_ctx (cs_swim s))) to upds (grp s) = (rc, sw_data w'))"
  using crt.updates_send_cases [OF service_invD [OF assms(1,2)] assms(3)]
  by (auto simp: crt_swim_ops_def)

theorem swim_message_wellformed_witness:
  "(let (rc, w') = swim_updates_send crt_swim_ops 2 1 (cs_swim demo_service) in
    (rc \<in> {EINVAL, ENOMEM, DER_NONEXIST} \<and> sw_ctx w' = sw_ctx (cs_swim demo_service) \<and>
      sw_data w' = grp demo_service) \<or>
    (\<exists>upds. message_ok (members (grp demo_service)) (sc_self (sw_ctx (cs_swim demo_service))) 2 upds \<and>
      crt_swim_send_message (sc_self (sw_ctx (cs_swim demo_service))) 1 upds (grp demo_service) = (rc, sw_data w')))"
  unfolding Let_def split_beta
  by (rule swim_message_wellformed [OF demo_service_inv demo_self]) simp

text \<open>
  Property C8. A suspicion does not outlive two expiries: after its deadline has passed once, and after the
  deadline extended by the ping timeout has passed at a later expiry, the suspected member is dead or has left.
\<close>

theorem suspicion_ends:
  assumes "service_inv s" "sc_self (sw_ctx (cs_swim s)) \<noteq> SWIM_ID_INVALID"
    "item \<in> set (suspects (cs_swim s))" "now1 > si_u item"
    "swim_member_update_suspected crt_swim_ops now1 (cs_swim s) = (rc1, w1)"
    "now2 > si_u item + swim_ping_timeout (cs_swim s)"
    "swim_member_update_suspected crt_swim_ops now2 w1 = (rc2, w2)"
  shows "gone (members (sw_data w2)) (si_id item)"
proof -
  note inv = service_invD [OF assms(1,2)]
  let ?self = "sc_self (sw_ctx (cs_swim s))"
  note e1 = crt.update_suspected_effect [OF assms(5) inv]
  have inv1: "swim_inv group_ok members w1" and self1: "sc_self (sw_ctx w1) = ?self"
    using e1 by (auto simp: evolves_def)
  show ?thesis
  proof (cases "si_from item = ?self")
    case True
    have "gone (members (sw_data w1)) (si_id item)"
      using crt.expired_own_gone [OF assms(5) inv assms(3,4) True] .
    then have "gone (killed (members (sw_data w1)) A) (si_id item)" for A
      by (auto simp: gone_def killed_def)
    then show ?thesis
      using crt.update_suspected_effect [OF assms(7) inv1] only_failures_gone by blast
  next
    case False
    let ?item = "item\<lparr>si_from := ?self, si_u := si_u item + swim_ping_timeout (cs_swim s)\<rparr>"
    have "?item \<in> set (expire (members (grp s)) now1 ?self (swim_ping_timeout (cs_swim s)) item)"
      using False assms(4) by (simp add: expire_def)
    then have "?item \<in> set (suspects w1)" using e1 assms(3) by (auto simp: suspects_expired_def)
    then show ?thesis
      using crt.expired_own_gone [OF assms(7) inv1, of ?item] assms(6) self1 by simp
  qed
qed

theorem suspicion_ends_witness:
  "gone (members (sw_data (snd (swim_member_update_suspected crt_swim_ops 2000
    (snd (swim_member_update_suspected crt_swim_ops 5 (cs_swim demo_service))))))) 2"
proof -
  let ?item = "\<lparr>si_id = 2, si_from = 1, si_u = 4\<rparr> :: swim_item"
  have "?item \<in> set (suspects (cs_swim demo_service))" "(5 :: u64) > si_u ?item"
    "(2000 :: u64) > si_u ?item + swim_ping_timeout (cs_swim demo_service)"
    by (simp_all add: demo_defs)
  from suspicion_ends [OF demo_service_inv demo_self this(1,2) prod.collapse [symmetric] this(3)
      prod.collapse [symmetric]]
  show ?thesis by simp
qed

end
