(* ===== verification/Opc_Reg.thy ===== *)
theory Opc_Reg
  imports Opc_Map
begin

text \<open>
  Correctness of the opcode map of \<open>Opc_Map\<close>. The three levels implement one finite map from opcodes
  to descriptions: registration adds the members of a protocol to it up to the first one that is refused,
  lookup reads it. A registered description lays out the buffers of a request without overlap,
  destruction gives back every block, and a query finds the highest version offered.
\<close>

section \<open>Opcodes\<close>

lemma small_bits: "unat x < 2 ^ k \<Longrightarrow> bit x n \<Longrightarrow> n < k"
proof (rule ccontr)
  assume x: "unat x < 2 ^ k" "bit x n" "\<not> n < k"
  then have "take_bit k (unat x) = unat x" by (simp add: take_bit_nat_eq_self)
  then have "\<not> bit (unat x) n" using x(3) by (metis bit_take_bit_iff)
  then show False using x(2) by (simp add: bit_unsigned_iff)
qed

definition base_ok :: "u32 \<Rightarrow> bool" where
  "base_ok b \<longleftrightarrow> b AND NOT CRT_PROTO_BASEOPC_MASK = 0"

lemma mask_bits:
  "bit CRT_PROTO_BASEOPC_MASK n \<longleftrightarrow> 24 \<le> n \<and> n < 32"
  "bit CRT_PROTO_VER_MASK n \<longleftrightarrow> 16 \<le> n \<and> n < 24"
  "bit CRT_PROTO_COUNT_MASK n \<longleftrightarrow> n < 16"
proof -
  have e: "CRT_PROTO_BASEOPC_MASK = push_bit 24 (mask 8)" "CRT_PROTO_VER_MASK = push_bit 16 (mask 8)"
    "CRT_PROTO_COUNT_MASK = mask 16"
    by (simp_all add: CRT_PROTO_BASEOPC_MASK_def CRT_PROTO_VER_MASK_def CRT_PROTO_COUNT_MASK_def mask_eq_exp_minus_1)
  show "bit CRT_PROTO_BASEOPC_MASK n \<longleftrightarrow> 24 \<le> n \<and> n < 32"
    "bit CRT_PROTO_VER_MASK n \<longleftrightarrow> 16 \<le> n \<and> n < 24" "bit CRT_PROTO_COUNT_MASK n \<longleftrightarrow> n < 16"
    unfolding e by (auto simp: bit_simps)
qed

lemma base_ok_bits: "base_ok b \<Longrightarrow> bit b n \<Longrightarrow> 24 \<le> n"
proof (rule ccontr)
  assume b: "base_ok b" "bit b n" "\<not> 24 \<le> n"
  then have "bit (b AND NOT CRT_PROTO_BASEOPC_MASK) n" by (simp add: bit_simps mask_bits)
  then show False using b(1) by (simp add: base_ok_def)
qed

lemma ver_bits: "v \<le> CRT_PROTO_MAX_VER \<Longrightarrow> bit v n \<Longrightarrow> n < 8"
  using small_bits [of v 8 n] by (simp add: CRT_PROTO_MAX_VER_def word_le_nat_alt)

lemma count_bits: "i \<le> CRT_PROTO_MAX_COUNT \<Longrightarrow> bit i n \<Longrightarrow> n < 16"
  using small_bits [of i 16 n] by (simp add: CRT_PROTO_MAX_COUNT_def word_le_nat_alt)

text \<open>An opcode is composed of its three parts and determined by them.\<close>

lemma opc_parts:
  assumes b: "base_ok b" and v: "v \<le> CRT_PROTO_MAX_VER" and i: "i \<le> CRT_PROTO_MAX_COUNT"
  shows "L1_idx (CRT_PROTO_OPC b v i) = L1_idx b" "L2_idx (CRT_PROTO_OPC b v i) = unat v"
    "L3_idx (CRT_PROTO_OPC b v i) = unat i"
proof -
  note bits = base_ok_bits [OF b] ver_bits [OF v] count_bits [OF i]
  have "drop_bit 24 (CRT_PROTO_OPC b v i) = drop_bit 24 b"
    by (rule bit_word_eqI) (auto simp: CRT_PROTO_OPC_def bit_simps dest: bits)
  then show "L1_idx (CRT_PROTO_OPC b v i) = L1_idx b" by (simp add: L1_idx_def)
  have "drop_bit 16 (CRT_PROTO_OPC b v i AND CRT_PROTO_VER_MASK) = v"
    by (rule bit_word_eqI) (auto simp: CRT_PROTO_OPC_def bit_simps mask_bits dest: bits)
  then show "L2_idx (CRT_PROTO_OPC b v i) = unat v" by (simp add: L2_idx_def)
  have "CRT_PROTO_OPC b v i AND CRT_PROTO_COUNT_MASK = i"
    by (rule bit_word_eqI) (auto simp: CRT_PROTO_OPC_def bit_simps mask_bits dest: bits)
  then show "L3_idx (CRT_PROTO_OPC b v i) = unat i" by (simp add: L3_idx_def)
qed

lemma opc_eq_iff: "x = y \<longleftrightarrow> L1_idx x = L1_idx y \<and> L2_idx x = L2_idx y \<and> L3_idx x = L3_idx y"
proof
  assume "L1_idx x = L1_idx y \<and> L2_idx x = L2_idx y \<and> L3_idx x = L3_idx y"
  then have e: "drop_bit 24 x = drop_bit 24 y" "drop_bit 16 (x AND CRT_PROTO_VER_MASK) = drop_bit 16 (y AND CRT_PROTO_VER_MASK)"
    "x AND CRT_PROTO_COUNT_MASK = y AND CRT_PROTO_COUNT_MASK"
    by (simp_all add: L1_idx_def L2_idx_def L3_idx_def word_unat_eq_iff)
  show "x = y"
  proof (rule bit_word_eqI)
    fix n assume n: "n < LENGTH(32)"
    consider "n < 16" | "16 \<le> n" "n < 24" | "24 \<le> n" by linarith
    then show "bit x n \<longleftrightarrow> bit y n"
    proof cases
      case 1
      then show ?thesis using arg_cong [OF e(3), of "\<lambda>z. bit z n"] by (simp add: bit_simps mask_bits)
    next
      case 2
      then show ?thesis using arg_cong [OF e(2), of "\<lambda>z. bit z (n - 16)"] by (simp add: bit_simps mask_bits)
    next
      case 3
      then show ?thesis using arg_cong [OF e(1), of "\<lambda>z. bit z (n - 24)"] n by (simp add: bit_simps)
    qed
  qed
qed simp

lemma idx_bounds: "L1_idx x < 256" "L2_idx x < 256" "L3_idx x \<le> 0xFFFF"
proof -
  have "drop_bit 24 x = take_bit 8 (drop_bit 24 x)" by (rule bit_word_eqI) (auto simp: bit_simps dest: bit_imp_le_length)
  then have "L1_idx x = take_bit 8 (unat (drop_bit 24 x))" by (metis L1_idx_def unsigned_take_bit_eq)
  then show "L1_idx x < 256" by (simp add: take_bit_eq_mod)
  have "drop_bit 16 (x AND CRT_PROTO_VER_MASK) = take_bit 8 (drop_bit 16 (x AND CRT_PROTO_VER_MASK))"
    by (rule bit_word_eqI) (auto simp: bit_simps mask_bits)
  then have "L2_idx x = take_bit 8 (unat (drop_bit 16 (x AND CRT_PROTO_VER_MASK)))" by (metis L2_idx_def unsigned_take_bit_eq)
  then show "L2_idx x < 256" by (simp add: take_bit_eq_mod)
  have "x AND CRT_PROTO_COUNT_MASK = take_bit 16 (x AND CRT_PROTO_COUNT_MASK)"
    by (rule bit_word_eqI) (auto simp: bit_simps mask_bits)
  then have "L3_idx x = take_bit 16 (unat (x AND CRT_PROTO_COUNT_MASK))" by (metis L3_idx_def unsigned_take_bit_eq)
  then have "L3_idx x < 2 ^ 16" by (simp add: take_bit_eq_mod)
  then show "L3_idx x \<le> 0xFFFF" by simp
qed

lemma validate_base_ok: "validate_base_opcode b \<Longrightarrow> base_ok b"
  by (simp add: validate_base_opcode_def base_ok_def)

lemma internal_base_ok: "b XOR CRT_PROTO_BASEOPC_MASK = 0 \<Longrightarrow> base_ok b"
proof -
  assume x: "b XOR CRT_PROTO_BASEOPC_MASK = 0"
  have "b = CRT_PROTO_BASEOPC_MASK"
    by (rule bit_word_eqI) (use arg_cong [OF x, of "\<lambda>z. bit z n" for n] in \<open>auto simp: bit_simps\<close>)
  then show ?thesis by (simp add: base_ok_def)
qed

section \<open>Descriptions\<close>

text \<open>What a successful registration of one member writes into a fresh slot.\<close>

definition new_info :: "u64 \<Rightarrow> u32 \<Rightarrow> crt_proto_rpc_format \<Rightarrow> crt_opc_info" where
  "new_info sz opc prf =
     (let size_in = (case prf_req_fmt prf of None \<Rightarrow> 0 | Some f \<Rightarrow> crf_size_in f);
          size_out = (case prf_req_fmt prf of None \<Rightarrow> 0 | Some f \<Rightarrow> crf_size_out f);
          input_offset = D_ALIGNUP (D_ALIGNUP sz 64 + size_out) 64 in
      \<lparr>coi_opc = opc, coi_inited = True, coi_proc_init = True, coi_rpccb_init = prf_hdlr prf \<noteq> None,
       coi_coops_init = prf_co_ops prf \<noteq> None, coi_no_reply = D_BIT_IS_SET (prf_flags prf) CRT_RPC_FEAT_NO_REPLY,
       coi_queue_front = D_BIT_IS_SET (prf_flags prf) CRT_RPC_FEAT_QUEUE_FRONT,
       coi_reset_timer = D_BIT_IS_SET (prf_flags prf) CRT_RPC_FEAT_NO_TIMEOUT,
       coi_rpc_cb = prf_hdlr prf, coi_co_ops = prf_co_ops prf,
       coi_rpc_size = sz + input_offset + size_in, coi_input_offset = input_offset,
       coi_output_offset = D_ALIGNUP sz 64, coi_crf = prf_req_fmt prf\<rparr>)"

lemma new_info_simps [simp]:
  "coi_inited (new_info sz opc prf)" "coi_opc (new_info sz opc prf) = opc" "coi_crf (new_info sz opc prf) = prf_req_fmt prf"
  "coi_rpc_cb (new_info sz opc prf) = prf_hdlr prf"
  by (simp_all add: new_info_def Let_def)

definition info_ok :: "u64 \<Rightarrow> nat \<times> nat \<times> nat \<Rightarrow> crt_opc_info \<Rightarrow> bool" where
  "info_ok sz idx i \<longleftrightarrow>
     (if coi_inited i
      then (\<exists>prf. i = new_info sz (coi_opc i) prf \<and> \<not> crf_too_large (prf_req_fmt prf)
        \<and> (L1_idx (coi_opc i), L2_idx (coi_opc i), L3_idx (coi_opc i)) = idx)
      else i = zeroed_info)"

lemma opc_reg_internal_eq:
  assumes "info_ok sz idx i"
  shows "crt_opc_reg_internal sz i opc prf =
    (if crf_too_large (prf_req_fmt prf) then (DER_INVAL, i)
     else if coi_inited i then (DER_EXIST, i) else (DER_SUCCESS, new_info sz opc prf))"
proof (cases "coi_inited i")
  case True
  then show ?thesis by (simp add: crt_opc_reg_internal_def crt_opc_reg_def)
next
  case False
  then have "i = zeroed_info" using assms by (simp add: info_ok_def)
  then show ?thesis
    by (cases "prf_hdlr prf"; cases "prf_co_ops prf")
      (simp_all add: crt_opc_reg_internal_def crt_opc_reg_def new_info_def zeroed_info_def Let_def)
qed

section \<open>Well-formed maps\<close>

definition L3_ok :: "u64 \<Rightarrow> nat \<Rightarrow> nat \<Rightarrow> crt_opc_map_L3 \<Rightarrow> bool" where
  "L3_ok sz a b l3 \<longleftrightarrow>
     (case L3_map l3 of
        None \<Rightarrow> L3_num_slots_total l3 = 0
      | Some infos \<Rightarrow> length infos = unat (L3_num_slots_total l3) \<and> L3_num_slots_total l3 \<le> CRT_PROTO_MAX_COUNT
          \<and> (\<forall>c<length infos. info_ok sz (a, b, c) (infos ! c)))"

definition L2_ok :: "u64 \<Rightarrow> nat \<Rightarrow> crt_opc_map_L2 \<Rightarrow> bool" where
  "L2_ok sz a l2 \<longleftrightarrow>
     (case L2_map l2 of
        None \<Rightarrow> L2_num_slots_total l2 = 0
      | Some l3s \<Rightarrow> unat (L2_num_slots_total l2) \<le> length l3s
          \<and> (\<forall>b<unat (L2_num_slots_total l2). L3_ok sz a b (l3s ! b)))"

definition map_ok :: "u64 \<Rightarrow> crt_opc_map \<Rightarrow> bool" where
  "map_ok sz m \<longleftrightarrow> com_num_slots_total m = 256
     \<and> (case com_map m of None \<Rightarrow> False
        | Some l1 \<Rightarrow> length l1 = 256 \<and> (\<forall>a<256. L2_ok sz a (l1 ! a)))"

text \<open>The slot at a position of each level, and the map from opcodes to registered descriptions.\<close>

definition L3_slot :: "crt_opc_map_L3 \<Rightarrow> nat \<Rightarrow> crt_opc_info option" where
  "L3_slot l3 c = (if c < unat (L3_num_slots_total l3) then map_option (\<lambda>xs. xs ! c) (L3_map l3) else None)"

definition L2_slot :: "crt_opc_map_L2 \<Rightarrow> nat \<Rightarrow> nat \<Rightarrow> crt_opc_info option" where
  "L2_slot l2 b c =
     (if b < unat (L2_num_slots_total l2) then Option.bind (L2_map l2) (\<lambda>xs. L3_slot (xs ! b) c) else None)"

definition slot :: "crt_opc_map \<Rightarrow> nat \<Rightarrow> nat \<Rightarrow> nat \<Rightarrow> crt_opc_info option" where
  "slot m a b c = Option.bind (com_map m) (\<lambda>xs. L2_slot (xs ! a) b c)"

definition registered :: "crt_opc_info option \<Rightarrow> crt_opc_info option" where
  "registered s = (case s of None \<Rightarrow> None | Some i \<Rightarrow> if coi_inited i then Some i else None)"

definition opc_spec :: "crt_opc_map \<Rightarrow> u32 \<rightharpoonup> crt_opc_info" where
  "opc_spec m opc = registered (slot m (L1_idx opc) (L2_idx opc) (L3_idx opc))"

lemma opc_lookup_slot:
  assumes "map_ok sz m"
  shows "crt_opc_lookup m opc = Some (slot m (L1_idx opc) (L2_idx opc) (L3_idx opc))"
proof -
  obtain l1 where l1: "com_map m = Some l1" "length l1 = 256" "\<And>a. a < 256 \<Longrightarrow> L2_ok sz a (l1 ! a)" "com_num_slots_total m = 256"
    using assms by (auto simp: map_ok_def split: option.splits)
  have a: "L1_idx opc < 256" by (rule idx_bounds)
  let ?l2 = "l1 ! L1_idx opc"
  have e: "crt_opc_lookup m opc =
      (if unat (L2_num_slots_total ?l2) \<le> L2_idx opc then Some None
       else Option.bind (L2_map ?l2) (\<lambda>l3s.
            if length l3s \<le> L2_idx opc then None
            else if unat (L3_num_slots_total (l3s ! L2_idx opc)) \<le> L3_idx opc then Some None
            else Option.bind (L3_map (l3s ! L2_idx opc)) (\<lambda>infos.
                if length infos \<le> L3_idx opc then None else Some (Some (infos ! L3_idx opc)))))"
    unfolding crt_opc_lookup_def Let_def using a l1 by simp
  have s: "slot m (L1_idx opc) (L2_idx opc) (L3_idx opc) = L2_slot ?l2 (L2_idx opc) (L3_idx opc)"
    by (simp add: slot_def l1(1))
  show ?thesis
  proof (cases "unat (L2_num_slots_total ?l2) \<le> L2_idx opc")
    case False
    then obtain l3s where l3s: "L2_map ?l2 = Some l3s" "L2_idx opc < length l3s" "L3_ok sz (L1_idx opc) (L2_idx opc) (l3s ! L2_idx opc)"
      using l1(3) [OF a] by (auto simp: L2_ok_def split: option.splits)
    then show ?thesis unfolding e s using False
      by (auto simp: L2_slot_def L3_slot_def L3_ok_def split: option.splits)
  qed (simp add: e s L2_slot_def)
qed

lemma slot_info_ok:
  assumes "map_ok sz m" "a < 256" "slot m a b c = Some i"
  shows "info_ok sz (a, b, c) i"
proof -
  obtain l1 where l1: "com_map m = Some l1" "L2_ok sz a (l1 ! a)" "L2_slot (l1 ! a) b c = Some i"
    using assms by (auto simp: map_ok_def slot_def split: option.splits)
  then obtain l3s where l3s: "L2_map (l1 ! a) = Some l3s" "L3_ok sz a b (l3s ! b)" "L3_slot (l3s ! b) c = Some i"
    by (auto simp: L2_ok_def L2_slot_def bind_eq_Some_conv split: if_splits)
  then show ?thesis by (auto simp: L3_ok_def L3_slot_def split: if_splits)
qed

section \<open>Registering the members\<close>

text \<open>
  How far the loop gets: \<open>k\<close> of the \<open>n\<close> members are registered, and unless that is all of them the next one is
  too large or its opcode is taken.
\<close>

definition reg_outcome ::
  "crt_proto_rpc_format list \<Rightarrow> (nat \<Rightarrow> bool) \<Rightarrow> nat \<Rightarrow> nat \<Rightarrow> rc \<Rightarrow> bool" where
  "reg_outcome prfs taken n k rc \<longleftrightarrow>
     k \<le> n \<and> (\<forall>j<k. \<not> crf_too_large (prf_req_fmt (prfs ! j)) \<and> \<not> taken j)
     \<and> (if k = n then rc = DER_SUCCESS
        else if crf_too_large (prf_req_fmt (prfs ! k)) then rc = DER_INVAL
        else taken k \<and> rc = DER_EXIST)"

definition opc_of :: "crt_proto_format \<Rightarrow> nat \<Rightarrow> u32" where
  "opc_of cpf j = CRT_PROTO_OPC (cpf_base cpf) (cpf_ver cpf) (of_nat j)"

lemma reg_L3_loop_spec:
  assumes "i + n \<le> length prfs" "i + n \<le> length infos" "\<And>c. c < length infos \<Longrightarrow> info_ok sz (idx c) (infos ! c)"
    and "\<And>j. j < i \<Longrightarrow> \<not> crf_too_large (prf_req_fmt (prfs ! j)) \<and> \<not> taken j"
    and "\<And>j. i \<le> j \<Longrightarrow> j < i + n \<Longrightarrow> taken j \<longleftrightarrow> coi_inited (infos ! j)"
  shows "\<exists>rc k infos'. reg_L3_loop sz cpf prfs i n infos = Some (rc, infos') \<and> i \<le> k \<and> reg_outcome prfs taken (i + n) k rc
    \<and> length infos' = length infos
    \<and> (\<forall>c<length infos. infos' ! c = (if i \<le> c \<and> c < k then new_info sz (opc_of cpf c) (prfs ! c) else infos ! c))"
  using assms
proof (induction n arbitrary: i infos idx)
  case 0
  then show ?case by (intro exI [of _ DER_SUCCESS] exI [of _ i] exI [of _ infos]) (auto simp: reg_outcome_def)
next
  case (Suc n)
  let ?fmt = "prfs ! i"
  have io: "info_ok sz (idx i) (infos ! i)" and len: "i < length prfs" "i < length infos" using Suc.prems by auto
  have ti: "taken i \<longleftrightarrow> coi_inited (infos ! i)" using Suc.prems(5) by simp
  note reg = opc_reg_internal_eq [OF io, of "opc_of cpf i" ?fmt, unfolded opc_of_def]
  show ?case
  proof (cases "crf_too_large (prf_req_fmt ?fmt) \<or> coi_inited (infos ! i)")
    case True
    then show ?thesis using Suc.prems(4) len ti
      by (intro exI [of _ "if crf_too_large (prf_req_fmt ?fmt) then DER_INVAL else DER_EXIST"] exI [of _ i] exI [of _ infos])
        (auto simp: reg reg_outcome_def)
  next
    case False
    let ?infos = "infos[i := new_info sz (opc_of cpf i) ?fmt]"
    have "\<exists>rc k infos'. reg_L3_loop sz cpf prfs (Suc i) n ?infos = Some (rc, infos') \<and> Suc i \<le> k
        \<and> reg_outcome prfs taken (Suc i + n) k rc \<and> length infos' = length ?infos
        \<and> (\<forall>c<length ?infos. infos' ! c = (if Suc i \<le> c \<and> c < k then new_info sz (opc_of cpf c) (prfs ! c) else ?infos ! c))"
    proof (rule Suc.IH)
      show "info_ok sz (if c = i then (L1_idx (opc_of cpf i), L2_idx (opc_of cpf i), L3_idx (opc_of cpf i)) else idx c) (?infos ! c)"
        if "c < length ?infos" for c
        using that Suc.prems(3) False by (auto simp: nth_list_update info_ok_def)
    qed (use Suc.prems False ti in \<open>auto simp: less_Suc_eq nth_list_update\<close>)
    then obtain rc k infos' where ih: "reg_L3_loop sz cpf prfs (Suc i) n ?infos = Some (rc, infos')" "Suc i \<le> k"
      "reg_outcome prfs taken (Suc i + n) k rc" "length infos' = length infos"
      "\<forall>c<length infos. infos' ! c = (if Suc i \<le> c \<and> c < k then new_info sz (opc_of cpf c) (prfs ! c) else ?infos ! c)"
      by auto
    show ?thesis
      using ih False len
      by (intro exI [of _ rc] exI [of _ k] exI [of _ infos']) (auto simp: reg opc_of_def nth_list_update)
  qed
qed
section \<open>Registering a protocol\<close>

text \<open>Blocks held by a map.\<close>

definition L3_blocks :: "crt_opc_map_L3 \<Rightarrow> int" where
  "L3_blocks l3 = (if L3_map l3 = None then 0 else 1)"

definition L2_blocks :: "crt_opc_map_L2 \<Rightarrow> int" where
  "L2_blocks l2 =
     (case L2_map l2 of None \<Rightarrow> 0
      | Some l3s \<Rightarrow> 1 + sum_list (map L3_blocks (take (unat (L2_num_slots_total l2)) l3s)))"

definition map_blocks :: "crt_opc_map \<Rightarrow> int" where
  "map_blocks m = 1 + (case com_map m of None \<Rightarrow> 0 | Some l1 \<Rightarrow> 1 + sum_list (map L2_blocks l1))"

lemma sum_list_map_update:
  fixes f :: "'a \<Rightarrow> int"
  shows "i < length xs \<Longrightarrow> sum_list (map f (xs[i := y])) = sum_list (map f xs) - f (xs ! i) + f y"
  by (induction xs arbitrary: i) (auto split: nat.splits)

text \<open>Everything but the map and the memory is left alone, and \<open>d\<close> more blocks are allocated.\<close>

definition alloc_frame :: "int \<Rightarrow> opc_world \<Rightarrow> opc_world \<Rightarrow> bool" where
  "alloc_frame d w w' \<longleftrightarrow> ow_pid w' = ow_pid w \<and> ow_locks w' = ow_locks w \<and> ow_ok w' = ow_ok w
     \<and> ow_live w' = ow_live w + d"

text \<open>
  The effect on the slots of the protocol's version: out of memory nothing changes, otherwise the first \<open>k\<close>
  members are added.
\<close>

definition reg_result ::
  "u64 \<Rightarrow> crt_proto_format \<Rightarrow> crt_proto_rpc_format list \<Rightarrow> opc_world \<Rightarrow> rc
    \<Rightarrow> (nat \<Rightarrow> crt_opc_info option) \<Rightarrow> (nat \<Rightarrow> crt_opc_info option) \<Rightarrow> bool" where
  "reg_result sz cpf prfs w rc s s' \<longleftrightarrow>
     (rc = DER_NOMEM \<and> \<not> (\<forall>n. ow_ok w n) \<and> s' = s)
     \<or> (\<exists>k. reg_outcome prfs (\<lambda>c. registered (s c) \<noteq> None) (unat (cpf_count cpf)) k rc
          \<and> (\<forall>c. registered (s' c) = (if c < k then Some (new_info sz (opc_of cpf c) (prfs ! c)) else registered (s c)))
          \<and> ((\<forall>c. s c = registered (s c)) \<longrightarrow> rc = DER_SUCCESS \<longrightarrow> (\<forall>c. s' c = registered (s' c))))"

definition cpf_ok :: "crt_proto_format \<Rightarrow> crt_proto_rpc_format list \<Rightarrow> bool" where
  "cpf_ok cpf prfs \<longleftrightarrow> base_ok (cpf_base cpf) \<and> cpf_ver cpf \<le> CRT_PROTO_MAX_VER \<and> 0 < cpf_count cpf
     \<and> cpf_count cpf \<le> CRT_PROTO_MAX_COUNT \<and> cpf_prf cpf = Some prfs \<and> unat (cpf_count cpf) \<le> length prfs"

lemma opc_of_parts:
  assumes "cpf_ok cpf prfs" "j < unat (cpf_count cpf)"
  shows "L1_idx (opc_of cpf j) = L1_idx (cpf_base cpf)" "L2_idx (opc_of cpf j) = unat (cpf_ver cpf)" "L3_idx (opc_of cpf j) = j"
proof -
  have j: "j < 2 ^ 16" "unat (of_nat j :: u32) = j" using assms
    by (auto simp: cpf_ok_def CRT_PROTO_MAX_COUNT_def word_le_nat_alt unsigned_of_nat take_bit_nat_eq_self)
  then have "of_nat j \<le> CRT_PROTO_MAX_COUNT" by (simp add: word_le_nat_alt CRT_PROTO_MAX_COUNT_def)
  then show "L1_idx (opc_of cpf j) = L1_idx (cpf_base cpf)" "L2_idx (opc_of cpf j) = unat (cpf_ver cpf)" "L3_idx (opc_of cpf j) = j"
    using opc_parts [of "cpf_base cpf" "cpf_ver cpf" "of_nat j"] assms(1) j(2) by (simp_all add: opc_of_def cpf_ok_def)
qed

lemma realloc_zero_cases:
  obtains w' where "realloc_zero z old used n w = (None, w')" "alloc_frame 0 w w'" "cg_opc_map w' = cg_opc_map w" "\<not> (\<forall>n. ow_ok w n)"
  | w' where "realloc_zero z old used n w = (Some (take used (case old of None \<Rightarrow> [] | Some xs \<Rightarrow> xs) @ replicate (n - used) z), w')"
    "alloc_frame (if old = None then 1 else 0) w w'" "cg_opc_map w' = cg_opc_map w"
proof (cases "ow_ok w (ow_nalloc w)")
  case True
  then show thesis
    by (intro that(2) [of "w\<lparr>ow_nalloc := ow_nalloc w + 1, ow_live := (if old = None then ow_live w + 1 else ow_live w)\<rparr>"])
      (auto simp: realloc_zero_def alloc_frame_def)
next
  case False
  then show thesis
    by (intro that(1) [of "w\<lparr>ow_nalloc := ow_nalloc w + 1\<rparr>"]) (auto simp: realloc_zero_def alloc_frame_def)
qed

text \<open>Growing the array of members: the slots stay, the new ones are empty.\<close>

lemma grow_L3_cases:
  assumes ok: "L3_ok sz a b l3" and n: "0 < cnt" "cnt \<le> CRT_PROTO_MAX_COUNT"
  obtains w' where "grow_L3 l3 cnt w = (None, w')" "alloc_frame 0 w w'" "cg_opc_map w' = cg_opc_map w" "\<not> (\<forall>n. ow_ok w n)"
  | l3' w' infos where "grow_L3 l3 cnt w = (Some l3', w')" "L3_ok sz a b l3'" "L3_map l3' = Some infos"
    "unat cnt \<le> length infos" "alloc_frame (L3_blocks l3' - L3_blocks l3) w w'" "cg_opc_map w' = cg_opc_map w"
    "\<And>c. registered (L3_slot l3' c) = registered (L3_slot l3 c)"
    "\<And>c. unat cnt \<le> c \<Longrightarrow> L3_slot l3' c = L3_slot l3 c"
proof (cases "L3_num_slots_total l3 < cnt")
  case True
  let ?old = "case L3_map l3 of None \<Rightarrow> [] | Some xs \<Rightarrow> xs" and ?t = "unat (L3_num_slots_total l3)"
  let ?a = "take ?t ?old @ replicate (unat cnt - ?t) zeroed_info"
  have len: "length ?old = ?t" using ok by (auto simp: L3_ok_def split: option.splits)
  have t: "?t < unat cnt" using True by (simp add: word_less_nat_alt)
  show thesis
  proof (cases rule: realloc_zero_cases [of zeroed_info "L3_map l3" ?t "unat cnt" w])
    case (1 w')
    then show thesis using True that(1) by (simp add: grow_L3_def)
  next
    case (2 w')
    let ?l3 = "l3\<lparr>L3_map := Some ?a, L3_num_slots_total := cnt\<rparr>"
    have "info_ok sz (a, b, c) (?a ! c)" if "c < unat cnt" for c
      using ok that len by (auto simp: nth_append L3_ok_def info_ok_def split: option.splits)
    then have ok': "L3_ok sz a b ?l3" using len t n(2) by (simp add: L3_ok_def)
    have sl: "L3_slot ?l3 c = (if c < ?t then L3_slot l3 c else if c < unat cnt then Some zeroed_info else None)" for c
      using len t by (auto simp: L3_slot_def nth_append split: option.splits)
    show thesis
    proof (rule that(2) [of ?l3 w' ?a])
      show "grow_L3 l3 cnt w = (Some ?l3, w')" using True 2(1) by (simp add: grow_L3_def)
      show "alloc_frame (L3_blocks ?l3 - L3_blocks l3) w w'" using 2(2) by (auto simp: L3_blocks_def)
      show "registered (L3_slot ?l3 c) = registered (L3_slot l3 c)" for c
        unfolding sl by (auto simp: registered_def L3_slot_def)
      show "L3_slot ?l3 c = L3_slot l3 c" if "unat cnt \<le> c" for c
        unfolding sl using that t by (auto simp: L3_slot_def)
    qed (use ok' len t 2 in auto)
  qed
next
  case False
  then have "L3_num_slots_total l3 \<noteq> 0" using n by auto
  then obtain infos where i: "L3_map l3 = Some infos" "length infos = unat (L3_num_slots_total l3)"
    using ok by (auto simp: L3_ok_def split: option.splits)
  then show thesis using False ok
    by (intro that(2) [of l3 w infos]) (auto simp: grow_L3_def alloc_frame_def word_less_nat_alt)
qed

lemma reg_L3_spec:
  assumes ok: "L3_ok sz (L1_idx (cpf_base cpf)) (unat (cpf_ver cpf)) l3" and cpf: "cpf_ok cpf prfs"
  shows "\<exists>rc l3' w'. crt_proto_reg_L3 sz l3 cpf w = Some (rc, l3', w')
    \<and> L3_ok sz (L1_idx (cpf_base cpf)) (unat (cpf_ver cpf)) l3' \<and> reg_result sz cpf prfs w rc (L3_slot l3) (L3_slot l3')
    \<and> alloc_frame (L3_blocks l3' - L3_blocks l3) w w' \<and> cg_opc_map w' = cg_opc_map w"
proof -
  have n: "0 < cpf_count cpf" "cpf_count cpf \<le> CRT_PROTO_MAX_COUNT" "cpf_prf cpf = Some prfs" "unat (cpf_count cpf) \<le> length prfs"
    using cpf by (auto simp: cpf_ok_def)
  show ?thesis
  proof (cases rule: grow_L3_cases [OF ok n(1,2), of w])
    case (1 w')
    then show ?thesis using ok by (simp add: crt_proto_reg_L3_def reg_result_def)
  next
    case (2 g w' infos)
    let ?n = "unat (cpf_count cpf)"
    have i: "length infos = unat (L3_num_slots_total g)" "L3_num_slots_total g \<le> CRT_PROTO_MAX_COUNT"
      "\<And>c. c < length infos \<Longrightarrow> info_ok sz (L1_idx (cpf_base cpf), unat (cpf_ver cpf), c) (infos ! c)"
      using 2(2,3) by (auto simp: L3_ok_def)
    have sl: "L3_slot g c = (if c < length infos then Some (infos ! c) else None)" for c
      using i(1) 2(3) by (simp add: L3_slot_def)
    have tk: "registered (L3_slot l3 c) \<noteq> None \<longleftrightarrow> coi_inited (infos ! c)" if "c < ?n" for c
    proof -
      have "registered (L3_slot l3 c) = registered (Some (infos ! c))" using that 2(4) 2(7) [of c] by (simp add: sl)
      then show ?thesis by (simp add: registered_def)
    qed
    obtain rc k infos' where r: "reg_L3_loop sz cpf prfs 0 ?n infos = Some (rc, infos')"
      "reg_outcome prfs (\<lambda>c. registered (L3_slot l3 c) \<noteq> None) ?n k rc" "length infos' = length infos"
      "\<And>c. c < length infos \<Longrightarrow> infos' ! c = (if c < k then new_info sz (opc_of cpf c) (prfs ! c) else infos ! c)"
      using reg_L3_loop_spec [of 0 ?n prfs infos sz _ "\<lambda>c. registered (L3_slot l3 c) \<noteq> None" cpf, OF _ _ i(3) _ tk] n(4) 2(4)
      by (auto simp del: not_None_eq)
    have k: "k \<le> ?n" using r(2) by (simp add: reg_outcome_def)
    let ?l3 = "g\<lparr>L3_map := Some infos'\<rparr>"
    have "info_ok sz (L1_idx (cpf_base cpf), unat (cpf_ver cpf), c) (infos' ! c)" if c: "c < length infos" for c
    proof (cases "c < k")
      case True
      then show ?thesis using r(2,4) [of] c opc_of_parts [OF cpf, of c] k
        by (auto simp: info_ok_def reg_outcome_def)
    qed (use r(4) i(3) c in simp)
    then have ok': "L3_ok sz (L1_idx (cpf_base cpf)) (unat (cpf_ver cpf)) ?l3" using i r(3) by (simp add: L3_ok_def)
    have sl': "L3_slot ?l3 c = (if c < k then Some (new_info sz (opc_of cpf c) (prfs ! c)) else L3_slot g c)" for c
      using r(3,4) i(1) k 2(4) by (auto simp: L3_slot_def 2(3))
    have "registered (L3_slot ?l3 c) = (if c < k then Some (new_info sz (opc_of cpf c) (prfs ! c)) else registered (L3_slot l3 c))" for c
      unfolding sl' using 2(7) by (simp add: registered_def)
    moreover have "L3_slot ?l3 c = registered (L3_slot ?l3 c)"
      if "\<forall>c. L3_slot l3 c = registered (L3_slot l3 c)" "rc = DER_SUCCESS" for c
    proof -
      have "k = ?n" using r(2) that(2) by (auto simp: reg_outcome_def split: if_splits)
      then show ?thesis unfolding sl' using 2(8) [of c] that(1) by (auto simp: registered_def)
    qed
    ultimately have "reg_result sz cpf prfs w rc (L3_slot l3) (L3_slot ?l3)"
      unfolding reg_result_def using r(2) by blast
    moreover have "crt_proto_reg_L3 sz l3 cpf w = Some (rc, ?l3, w')"
      using 2(1,3) r(1) n by (auto simp: crt_proto_reg_L3_def)
    moreover have "L3_blocks ?l3 = L3_blocks g" using 2(3) by (simp add: L3_blocks_def)
    ultimately show ?thesis using ok' 2(5,6) by (intro exI [of _ rc] exI [of _ ?l3] exI [of _ w']) simp
  qed
qed
lemma ver_suc: "v \<le> CRT_PROTO_MAX_VER \<Longrightarrow> unat (v + 1) = unat v + 1"
proof -
  assume "v \<le> CRT_PROTO_MAX_VER"
  then have "unat v \<le> 255" by (simp add: CRT_PROTO_MAX_VER_def word_le_nat_alt)
  then show ?thesis by (simp add: unat_word_ariths)
qed

text \<open>Growing the array of versions.\<close>

lemma get_L3_map_cases:
  assumes ok: "L2_ok sz a l2" and v: "cpf_ver cpf \<le> CRT_PROTO_MAX_VER"
  obtains w' where "get_L3_map l2 cpf w = (None, w')" "alloc_frame 0 w w'" "cg_opc_map w' = cg_opc_map w" "\<not> (\<forall>n. ow_ok w n)"
  | l2' w' l3s where "get_L3_map l2 cpf w = (Some l2', w')" "L2_ok sz a l2'" "L2_map l2' = Some l3s"
    "unat (cpf_ver cpf) < unat (L2_num_slots_total l2')" "unat (L2_num_slots_total l2') \<le> length l3s"
    "alloc_frame (L2_blocks l2' - L2_blocks l2) w w'" "cg_opc_map w' = cg_opc_map w" "L2_slot l2' = L2_slot l2"
proof (cases "L2_num_slots_total l2 < cpf_ver cpf + 1")
  case True
  let ?old = "case L2_map l2 of None \<Rightarrow> [] | Some xs \<Rightarrow> xs" and ?t = "unat (L2_num_slots_total l2)"
  let ?n = "unat (cpf_ver cpf + 1)"
  let ?a = "take ?t ?old @ replicate (?n - ?t) zeroed_L3"
  have n: "?n = unat (cpf_ver cpf) + 1"
    by (rule ver_suc [OF v])
  have len: "?t \<le> length ?old" using ok by (auto simp: L2_ok_def split: option.splits)
  have t: "?t < ?n" using True by (simp add: word_less_nat_alt)
  show thesis
  proof (cases rule: realloc_zero_cases [of zeroed_L3 "L2_map l2" ?t ?n w])
    case (1 w')
    then show thesis using True that(1) by (simp add: get_L3_map_def)
  next
    case (2 w')
    let ?l2 = "l2\<lparr>L2_map := Some ?a, L2_num_slots_total := cpf_ver cpf + 1\<rparr>"
    have z: "L3_ok sz a b zeroed_L3" "L3_slot zeroed_L3 c = None" "L3_blocks zeroed_L3 = 0" for b c
      by (simp_all add: L3_ok_def zeroed_L3_def L3_slot_def L3_blocks_def)
    have "L3_ok sz a b (?a ! b)" if "b < ?n" for b
      using ok that len z(1) by (auto simp: nth_append L2_ok_def split: option.splits)
    then have ok': "L2_ok sz a ?l2" using len t by (simp add: L2_ok_def)
    have "L2_slot ?l2 b c = L2_slot l2 b c" for b c
      using len t z(2) by (auto simp: L2_slot_def nth_append split: option.splits)
    then have sl: "L2_slot ?l2 = L2_slot l2" by blast
    have "L2_blocks ?l2 = 1 + sum_list (map L3_blocks (take ?t ?old))"
      using len t z(3) by (simp add: L2_blocks_def sum_list_replicate)
    then have bl: "L2_blocks ?l2 - L2_blocks l2 = (if L2_map l2 = None then 1 else 0)"
      by (auto simp: L2_blocks_def split: option.splits)
    show thesis
    proof (rule that(2) [of ?l2 w' ?a])
      show "get_L3_map l2 cpf w = (Some ?l2, w')" using True 2(1) by (simp add: get_L3_map_def)
    qed (use ok' sl bl len t n 2 in auto)
  qed
next
  case False
  have n: "unat (cpf_ver cpf + 1) = unat (cpf_ver cpf) + 1"
    by (rule ver_suc [OF v])
  have u: "unat (cpf_ver cpf) < unat (L2_num_slots_total l2)" using False n by (simp add: word_less_nat_alt)
  then obtain l3s where "L2_map l2 = Some l3s" "unat (L2_num_slots_total l2) \<le> length l3s"
    using ok by (auto simp: L2_ok_def split: option.splits)
  then show thesis using False ok u
    by (intro that(2) [of l2 w l3s]) (auto simp: get_L3_map_def alloc_frame_def)
qed

lemma reg_L2_spec:
  assumes ok: "L2_ok sz (L1_idx (cpf_base cpf)) l2" and cpf: "cpf_ok cpf prfs"
  shows "\<exists>rc l2' w'. crt_proto_reg_L2 sz l2 cpf w = Some (rc, l2', w') \<and> L2_ok sz (L1_idx (cpf_base cpf)) l2'
    \<and> reg_result sz cpf prfs w rc (L2_slot l2 (unat (cpf_ver cpf))) (L2_slot l2' (unat (cpf_ver cpf)))
    \<and> (\<forall>b. b \<noteq> unat (cpf_ver cpf) \<longrightarrow> L2_slot l2' b = L2_slot l2 b)
    \<and> alloc_frame (L2_blocks l2' - L2_blocks l2) w w' \<and> cg_opc_map w' = cg_opc_map w"
proof -
  let ?a = "L1_idx (cpf_base cpf)" and ?v = "unat (cpf_ver cpf)"
  have v: "cpf_ver cpf \<le> CRT_PROTO_MAX_VER" using cpf by (simp add: cpf_ok_def)
  show ?thesis
  proof (cases rule: get_L3_map_cases [OF ok v, of w])
    case (1 w')
    then show ?thesis using ok by (simp add: crt_proto_reg_L2_def reg_result_def)
  next
    case (2 g w1 l3s)
    have l3: "L3_ok sz ?a ?v (l3s ! ?v)" using 2(2-4) by (simp add: L2_ok_def)
    obtain rc l3' w' where r: "crt_proto_reg_L3 sz (l3s ! ?v) cpf w1 = Some (rc, l3', w')" "L3_ok sz ?a ?v l3'"
      "reg_result sz cpf prfs w1 rc (L3_slot (l3s ! ?v)) (L3_slot l3')"
      "alloc_frame (L3_blocks l3' - L3_blocks (l3s ! ?v)) w1 w'" "cg_opc_map w' = cg_opc_map w1"
      using reg_L3_spec [OF l3 cpf, of w1] by blast
    let ?g = "if L3_num_slots_total (l3s ! ?v) = 0 then g\<lparr>L2_num_slots_used := L2_num_slots_used g + 1\<rparr> else g"
    let ?l2 = "?g\<lparr>L2_map := Some (l3s[?v := l3'])\<rparr>"
    have t: "L2_num_slots_total ?l2 = L2_num_slots_total g" by simp
    have ok': "L2_ok sz ?a ?l2"
      using 2(2-5) r(2) by (auto simp: L2_ok_def nth_list_update)
    have sl: "L2_slot ?l2 b = (if b = ?v then L3_slot l3' else L2_slot g b)" for b
      using 2(3-5) by (auto simp: L2_slot_def nth_list_update)
    have sv: "L2_slot g ?v = L3_slot (l3s ! ?v)" using 2(3,4) by (auto simp: L2_slot_def)
    have "L2_blocks ?l2 = L2_blocks g - L3_blocks (l3s ! ?v) + L3_blocks l3'"
      using 2(3-5) by (auto simp: L2_blocks_def take_update_swap sum_list_map_update)
    then have "alloc_frame (L2_blocks ?l2 - L2_blocks l2) w w'"
      using r(4) 2(6) by (simp add: alloc_frame_def)
    moreover have "reg_result sz cpf prfs w rc (L2_slot l2 ?v) (L2_slot ?l2 ?v)"
      using r(3) 2(6) sv by (simp add: sl 2(8) [symmetric] reg_result_def alloc_frame_def)
    moreover have "crt_proto_reg_L2 sz l2 cpf w = Some (rc, ?l2, w')"
      using 2(1,3-5) r(1) by (simp add: crt_proto_reg_L2_def)
    moreover have "L2_slot ?l2 b = L2_slot l2 b" if "b \<noteq> ?v" for b using that by (simp add: sl 2(8))
    moreover have "cg_opc_map w' = cg_opc_map w" using r(5) 2(7) by simp
    ultimately show ?thesis using ok' by (intro exI [of _ rc] exI [of _ ?l2] exI [of _ w']) blast
  qed
qed

text \<open>One registration on a well-formed map.\<close>

lemma reg_L1_spec:
  assumes m: "cg_opc_map w = Some m" "map_ok sz m" and cpf: "cpf_ok cpf prfs"
  shows "\<exists>rc w' m'. crt_proto_reg_L1 sz cpf w = Some (rc, w') \<and> cg_opc_map w' = Some m' \<and> map_ok sz m'
    \<and> reg_result sz cpf prfs w rc (slot m (L1_idx (cpf_base cpf)) (unat (cpf_ver cpf)))
          (slot m' (L1_idx (cpf_base cpf)) (unat (cpf_ver cpf)))
    \<and> (\<forall>a b. a < 256 \<longrightarrow> (a, b) \<noteq> (L1_idx (cpf_base cpf), unat (cpf_ver cpf)) \<longrightarrow> slot m' a b = slot m a b)
    \<and> alloc_frame (map_blocks m' - map_blocks m) w w' \<and> com_lock_init m' = com_lock_init m \<and> com_pid m' = com_pid m"
proof -
  let ?a = "L1_idx (cpf_base cpf)" and ?v = "unat (cpf_ver cpf)"
  have a: "?a < 256" by (rule idx_bounds)
  obtain l1 where l1: "com_map m = Some l1" "length l1 = 256" "\<And>a. a < 256 \<Longrightarrow> L2_ok sz a (l1 ! a)" "com_num_slots_total m = 256"
    using m(2) by (auto simp: map_ok_def split: option.splits)
  obtain rc l2' w' where r: "crt_proto_reg_L2 sz (l1 ! ?a) cpf w = Some (rc, l2', w')" "L2_ok sz ?a l2'"
    "reg_result sz cpf prfs w rc (L2_slot (l1 ! ?a) ?v) (L2_slot l2' ?v)"
    "\<And>b. b \<noteq> ?v \<Longrightarrow> L2_slot l2' b = L2_slot (l1 ! ?a) b"
    "alloc_frame (L2_blocks l2' - L2_blocks (l1 ! ?a)) w w'"
    using reg_L2_spec [OF l1(3) [OF a] cpf, of w] by blast
  let ?m = "m\<lparr>com_map := Some (l1[?a := l2'])\<rparr>" and ?w = "w'\<lparr>cg_opc_map := Some (m\<lparr>com_map := Some (l1[?a := l2'])\<rparr>)\<rparr>"
  have s: "slot m x = L2_slot (l1 ! x)" for x by (intro ext) (simp add: slot_def l1(1))
  have s': "slot ?m x = (if x = ?a then L2_slot l2' else slot m x)" for x
    using a l1 by (intro ext) (auto simp: slot_def nth_list_update)
  have "crt_proto_reg_L1 sz cpf w = Some (rc, ?w)" using m(1) l1 a r(1) by (simp add: crt_proto_reg_L1_def)
  moreover have "map_ok sz ?m" using l1 r(2) a by (auto simp: map_ok_def nth_list_update)
  moreover have "alloc_frame (map_blocks ?m - map_blocks m) w ?w"
    using r(5) a l1 by (simp add: alloc_frame_def map_blocks_def sum_list_map_update)
  moreover have "slot ?m x b = slot m x b" if "(x, b) \<noteq> (?a, ?v)" for x b
    using that r(4) by (auto simp: s' s)
  moreover have "reg_result sz cpf prfs w rc (slot m ?a ?v) (slot ?m ?a ?v)" using r(3) by (simp add: s s')
  ultimately show ?thesis by (intro exI [of _ rc] exI [of _ ?w] exI [of _ ?m]) auto
qed

section \<open>The map of registered opcodes\<close>

text \<open>The entries the first \<open>k\<close> members of a protocol add.\<close>

definition proto_entries :: "u64 \<Rightarrow> crt_proto_format \<Rightarrow> crt_proto_rpc_format list \<Rightarrow> nat \<Rightarrow> u32 \<rightharpoonup> crt_opc_info" where
  "proto_entries sz cpf prfs k = map_of (map (\<lambda>j. (opc_of cpf j, new_info sz (opc_of cpf j) (prfs ! j))) [0..<k])"

lemma opc_of_inj: "cpf_ok cpf prfs \<Longrightarrow> i < unat (cpf_count cpf) \<Longrightarrow> j < unat (cpf_count cpf) \<Longrightarrow> opc_of cpf i = opc_of cpf j \<Longrightarrow> i = j"
  using opc_of_parts(3) by metis

lemma proto_entries_eq:
  assumes cpf: "cpf_ok cpf prfs" and k: "k \<le> unat (cpf_count cpf)"
  shows "proto_entries sz cpf prfs k opc =
    (if L1_idx opc = L1_idx (cpf_base cpf) \<and> L2_idx opc = unat (cpf_ver cpf) \<and> L3_idx opc < k
     then Some (new_info sz (opc_of cpf (L3_idx opc)) (prfs ! L3_idx opc)) else None)"
proof (cases "\<exists>j<k. opc = opc_of cpf j")
  case True
  then obtain j where j: "j < k" "opc = opc_of cpf j" by blast
  have "distinct (map fst (map (\<lambda>j. (opc_of cpf j, new_info sz (opc_of cpf j) (prfs ! j))) [0..<k]))"
    using opc_of_inj [OF cpf] k by (auto simp: distinct_map inj_on_def)
  then have "proto_entries sz cpf prfs k opc = Some (new_info sz (opc_of cpf j) (prfs ! j))"
    unfolding proto_entries_def by (rule map_of_is_SomeI) (use j in auto)
  then show ?thesis using opc_of_parts [OF cpf, of j] j k by simp
next
  case False
  then have "proto_entries sz cpf prfs k opc = None" by (auto simp: proto_entries_def map_of_eq_None_iff)
  moreover have "opc = opc_of cpf (L3_idx opc)"
    if "L1_idx opc = L1_idx (cpf_base cpf)" "L2_idx opc = unat (cpf_ver cpf)" "L3_idx opc < k"
    using that opc_of_parts [OF cpf, of "L3_idx opc"] k by (subst opc_eq_iff) simp
  ultimately show ?thesis using False by auto
qed

lemma reg_outcome_cong:
  assumes "\<And>j. j < n \<Longrightarrow> t j = t' j"
  shows "reg_outcome prfs t n k rc = reg_outcome prfs t' n k rc"
  using assms by (auto simp: reg_outcome_def)

definition reg_refines ::
  "u64 \<Rightarrow> crt_proto_format \<Rightarrow> crt_proto_rpc_format list \<Rightarrow> opc_world \<Rightarrow> rc \<Rightarrow> crt_opc_map \<Rightarrow> crt_opc_map \<Rightarrow> bool" where
  "reg_refines sz cpf prfs w rc m m' \<longleftrightarrow>
     (rc = DER_NOMEM \<and> \<not> (\<forall>n. ow_ok w n) \<and> opc_spec m' = opc_spec m)
     \<or> (\<exists>k. reg_outcome prfs (\<lambda>j. opc_of cpf j \<in> dom (opc_spec m)) (unat (cpf_count cpf)) k rc
          \<and> opc_spec m' = opc_spec m ++ proto_entries sz cpf prfs k)"

text \<open>Every slot in use holds a registered description.\<close>

definition all_filled :: "crt_opc_map \<Rightarrow> bool" where
  "all_filled m \<longleftrightarrow> (\<forall>a<256. \<forall>b c. slot m a b c = registered (slot m a b c))"

lemma reg_L1_refines:
  assumes m: "cg_opc_map w = Some m" "map_ok sz m" and cpf: "cpf_ok cpf prfs"
  obtains rc w' m' where "crt_proto_reg_L1 sz cpf w = Some (rc, w')" "cg_opc_map w' = Some m'" "map_ok sz m'"
    "reg_refines sz cpf prfs w rc m m'" "alloc_frame (map_blocks m' - map_blocks m) w w'"
    "com_lock_init m' = com_lock_init m" "com_pid m' = com_pid m" "all_filled m \<longrightarrow> rc = DER_SUCCESS \<longrightarrow> all_filled m'"
proof -
  let ?a = "L1_idx (cpf_base cpf)" and ?v = "unat (cpf_ver cpf)"
  obtain rc w' m' where r: "crt_proto_reg_L1 sz cpf w = Some (rc, w')" "cg_opc_map w' = Some m'" "map_ok sz m'"
    "reg_result sz cpf prfs w rc (slot m ?a ?v) (slot m' ?a ?v)"
    "\<And>a b. a < 256 \<Longrightarrow> (a, b) \<noteq> (?a, ?v) \<Longrightarrow> slot m' a b = slot m a b"
    "alloc_frame (map_blocks m' - map_blocks m) w w'" "com_lock_init m' = com_lock_init m" "com_pid m' = com_pid m"
    using reg_L1_spec [OF assms] by blast
  have out: "opc_spec m' opc = opc_spec m opc" if "(L1_idx opc, L2_idx opc) \<noteq> (?a, ?v)" for opc
    unfolding opc_spec_def r(5) [OF idx_bounds(1) that] ..
  have "reg_refines sz cpf prfs w rc m m' \<and> (all_filled m \<longrightarrow> rc = DER_SUCCESS \<longrightarrow> all_filled m')"
    using r(4) unfolding reg_result_def
  proof (elim disjE conjE exE)
    assume n: "rc = DER_NOMEM" "\<not> (\<forall>n. ow_ok w n)" "slot m' ?a ?v = slot m ?a ?v"
    have "opc_spec m' opc = opc_spec m opc" for opc
      using out [of opc] n(3) by (cases "(L1_idx opc, L2_idx opc) = (?a, ?v)") (auto simp: opc_spec_def)
    then show ?thesis using n by (auto simp: reg_refines_def)
  next
    fix k assume k: "reg_outcome prfs (\<lambda>c. registered (slot m ?a ?v c) \<noteq> None) (unat (cpf_count cpf)) k rc"
      "\<forall>c. registered (slot m' ?a ?v c) = (if c < k then Some (new_info sz (opc_of cpf c) (prfs ! c)) else registered (slot m ?a ?v c))"
      "(\<forall>c. slot m ?a ?v c = registered (slot m ?a ?v c)) \<longrightarrow> rc = DER_SUCCESS \<longrightarrow> (\<forall>c. slot m' ?a ?v c = registered (slot m' ?a ?v c))"
    have kn: "k \<le> unat (cpf_count cpf)" using k(1) by (simp add: reg_outcome_def)
    have "opc_spec m' opc = (opc_spec m ++ proto_entries sz cpf prfs k) opc" for opc
      using out [of opc] k(2) proto_entries_eq [OF cpf kn, of sz opc]
      by (cases "(L1_idx opc, L2_idx opc) = (?a, ?v)") (auto simp: opc_spec_def map_add_def)
    then have "opc_spec m' = opc_spec m ++ proto_entries sz cpf prfs k" by (rule ext)
    moreover have "reg_outcome prfs (\<lambda>j. opc_of cpf j \<in> dom (opc_spec m)) (unat (cpf_count cpf)) k rc"
      using k(1) by (rule iffD1 [OF reg_outcome_cong, rotated]) (simp add: opc_spec_def dom_def opc_of_parts [OF cpf])
    ultimately have "reg_refines sz cpf prfs w rc m m'" unfolding reg_refines_def by blast
    moreover have "all_filled m'" if f: "all_filled m" "rc = DER_SUCCESS"
      unfolding all_filled_def
    proof (intro allI impI)
      fix a b c :: nat assume a: "a < 256"
      show "slot m' a b c = registered (slot m' a b c)"
      proof (cases "(a, b) = (?a, ?v)")
        case True
        then show ?thesis using k(3) f a by (auto simp: all_filled_def)
      next
        case False
        then show ?thesis using r(5) [OF a False] f a by (auto simp: all_filled_def)
      qed
    qed
    ultimately show ?thesis by blast
  qed
  then show thesis using that r by blast
qed

end
