(* ===== verification/Opc_Life.thy ===== *)
theory Opc_Life
  imports Opc_Reg
begin

text \<open>
  The life of an opcode map: creation with the internal protocol, registrations, the queries that read it and
  its destruction; and the properties of the component.
\<close>

section \<open>Destruction\<close>

definition L2_sized :: "crt_opc_map_L2 \<Rightarrow> bool" where
  "L2_sized l2 \<longleftrightarrow> unat (L2_num_slots_total l2) \<le> (case L2_map l2 of None \<Rightarrow> 0 | Some l3s \<Rightarrow> length l3s)"

lemma L2_ok_sized: "L2_ok sz a l2 \<Longrightarrow> L2_sized l2"
  by (auto simp: L2_ok_def L2_sized_def split: option.splits)

lemma alloc_frame_trans: "alloc_frame d w w1 \<Longrightarrow> alloc_frame e w1 w2 \<Longrightarrow> alloc_frame (d + e) w w2"
  by (simp add: alloc_frame_def)

lemma L3_destroy_frame:
  "crt_opc_map_L3_destroy l3 w = (l3', w') \<Longrightarrow> alloc_frame (- L3_blocks l3) w w' \<and> cg_opc_map w' = cg_opc_map w"
  by (auto simp: crt_opc_map_L3_destroy_def L3_blocks_def alloc_frame_def opc_free_def Let_def split: if_splits)

lemma L2_destroy_loop_frame:
  "i + n \<le> length l3s \<Longrightarrow> \<exists>l3s' w'. L2_destroy_loop i n l3s w = Some (l3s', w')
    \<and> alloc_frame (- sum_list (map L3_blocks (take n (drop i l3s)))) w w' \<and> cg_opc_map w' = cg_opc_map w"
proof (induction n arbitrary: i l3s w)
  case 0
  then show ?case by (simp add: alloc_frame_def)
next
  case (Suc n)
  obtain l3 w1 where d: "crt_opc_map_L3_destroy (l3s ! i) w = (l3, w1)" by fastforce
  obtain l3s' w' where r: "L2_destroy_loop (Suc i) n (l3s[i := l3]) w1 = Some (l3s', w')"
    "alloc_frame (- sum_list (map L3_blocks (take n (drop (Suc i) l3s)))) w1 w'" "cg_opc_map w' = cg_opc_map w1"
    using Suc.IH [of "Suc i" "l3s[i := l3]" w1] Suc.prems by auto
  have "drop i l3s = l3s ! i # drop (Suc i) l3s" using Suc.prems by (simp add: Cons_nth_drop_Suc)
  then show ?case
    using Suc.prems d r L3_destroy_frame [OF d] alloc_frame_trans [of _ w w1 _ w'] by fastforce
qed

lemma L2_destroy_frame:
  assumes "L2_sized l2"
  shows "\<exists>l2' w'. crt_opc_map_L2_destroy l2 w = Some (l2', w') \<and> alloc_frame (- L2_blocks l2) w w' \<and> cg_opc_map w' = cg_opc_map w"
proof -
  let ?l3s = "case L2_map l2 of None \<Rightarrow> [] | Some xs \<Rightarrow> xs" and ?n = "unat (L2_num_slots_total l2)"
  have n: "0 + ?n \<le> length ?l3s" using assms by (auto simp: L2_sized_def split: option.splits)
  obtain l3s' w1 where r: "L2_destroy_loop 0 ?n ?l3s w = Some (l3s', w1)"
    "alloc_frame (- sum_list (map L3_blocks (take ?n ?l3s))) w w1" "cg_opc_map w1 = cg_opc_map w"
    using L2_destroy_loop_frame [OF n, of w] by auto
  show ?thesis
  proof (cases "L2_map l2")
    case None
    then show ?thesis using r by (simp add: crt_opc_map_L2_destroy_def L2_blocks_def)
  next
    case (Some xs)
    then show ?thesis using r
      by (simp add: crt_opc_map_L2_destroy_def L2_blocks_def alloc_frame_def opc_free_def)
  qed
qed

lemma L1_destroy_loop_frame:
  "i + n \<le> length l2s \<Longrightarrow> \<forall>l2\<in>set (drop i l2s). L2_sized l2 \<Longrightarrow> \<exists>l2s' w'. L1_destroy_loop i n l2s w = Some (l2s', w')
    \<and> alloc_frame (- sum_list (map L2_blocks (take n (drop i l2s)))) w w' \<and> cg_opc_map w' = cg_opc_map w"
proof (induction n arbitrary: i l2s w)
  case 0
  then show ?case by (simp add: alloc_frame_def)
next
  case (Suc n)
  have dr: "drop i l2s = l2s ! i # drop (Suc i) l2s" using Suc.prems by (simp add: Cons_nth_drop_Suc)
  obtain l2 w1 where d: "crt_opc_map_L2_destroy (l2s ! i) w = Some (l2, w1)" "alloc_frame (- L2_blocks (l2s ! i)) w w1"
    "cg_opc_map w1 = cg_opc_map w"
    using L2_destroy_frame [of "l2s ! i" w] Suc.prems(2) dr by auto
  obtain l2s' w' where r: "L1_destroy_loop (Suc i) n (l2s[i := l2]) w1 = Some (l2s', w')"
    "alloc_frame (- sum_list (map L2_blocks (take n (drop (Suc i) l2s)))) w1 w'" "cg_opc_map w' = cg_opc_map w1"
    using Suc.IH [of "Suc i" "l2s[i := l2]" w1] Suc.prems dr by auto
  show ?case
    using Suc.prems d r dr alloc_frame_trans [OF d(2) r(2)] by auto
qed

text \<open>Destruction gives back every block of the map and its lock.\<close>

definition map_sized :: "crt_opc_map \<Rightarrow> bool" where
  "map_sized m \<longleftrightarrow> (case com_map m of None \<Rightarrow> True
     | Some l2s \<Rightarrow> length l2s = unat (com_num_slots_total m) \<and> (\<forall>l2\<in>set l2s. L2_sized l2))"

lemma map_ok_sized: "map_ok sz m \<Longrightarrow> map_sized m"
  by (auto simp: map_ok_def map_sized_def in_set_conv_nth split: option.splits) (blast intro: L2_ok_sized)

lemma map_destroy_frame:
  assumes "map_sized m" "com_pid m = ow_pid w"
  shows "\<exists>w'. crt_opc_map_destroy (Some m) w = Some w' \<and> cg_opc_map w' = None \<and> ow_live w' = ow_live w - map_blocks m
    \<and> ow_locks w' = ow_locks w - (if com_lock_init m then 1 else 0)"
proof (cases "com_map m")
  case None
  then show ?thesis using assms by (simp add: crt_opc_map_destroy_def map_blocks_def opc_free_def)
next
  case (Some l2s)
  then have l: "length l2s = unat (com_num_slots_total m)" "\<forall>l2\<in>set (drop 0 l2s). L2_sized l2"
    using assms by (auto simp: map_sized_def)
  then obtain l2s' w1 where r: "L1_destroy_loop 0 (unat (com_num_slots_total m)) l2s w = Some (l2s', w1)"
    "alloc_frame (- sum_list (map L2_blocks l2s)) w w1" "cg_opc_map w1 = cg_opc_map w"
    using L1_destroy_loop_frame [of 0 "unat (com_num_slots_total m)" l2s w] by auto
  then show ?thesis using Some assms(2)
    by (simp add: crt_opc_map_destroy_def map_blocks_def opc_free_def alloc_frame_def)
qed

section \<open>Creation\<close>

lemma opc_map_count_8: "opc_map_count CRT_OPC_MAP_BITS = 256"
  by (simp add: opc_map_count_def CRT_OPC_MAP_BITS_def)

definition fresh_L2 :: crt_opc_map_L2 where
  "fresh_L2 = zeroed_L2\<lparr>L2_map := Some (replicate 32 zeroed_L3)\<rparr>"

lemma fresh_L2_simps:
  "L2_ok sz a zeroed_L2" "L2_ok sz a fresh_L2" "L2_blocks zeroed_L2 = 0" "L2_blocks fresh_L2 = 1"
  "L2_slot zeroed_L2 b c = None" "L2_slot fresh_L2 b c = None"
  by (simp_all add: L2_ok_def zeroed_L2_def fresh_L2_def L2_blocks_def L2_slot_def)

lemma create_L2_loop_frame:
  "i + n \<le> N \<Longrightarrow> \<exists>rc l2s w'. create_L2_loop i n (replicate i fresh_L2 @ replicate (N - i) zeroed_L2) w = Some (rc, l2s, w')
     \<and> length l2s = N \<and> set l2s \<subseteq> {zeroed_L2, fresh_L2} \<and> (rc = DER_SUCCESS \<or> rc = DER_NOMEM)
     \<and> alloc_frame (sum_list (map L2_blocks l2s) - int i) w w' \<and> cg_opc_map w' = cg_opc_map w"
proof (induction n arbitrary: i w)
  case 0
  then show ?case
    by (auto simp: sum_list_replicate fresh_L2_simps alloc_frame_def)
next
  case (Suc n)
  let ?l2s = "replicate i fresh_L2 @ replicate (N - i) zeroed_L2"
  have nth: "?l2s ! i = zeroed_L2" "i < length ?l2s" using Suc.prems by (auto simp: nth_append)
  show ?case
  proof (cases "ow_ok w (ow_nalloc w)")
    case True
    let ?w = "w\<lparr>ow_nalloc := ow_nalloc w + 1, ow_live := ow_live w + 1\<rparr>"
    have "?l2s[i := fresh_L2] = replicate i fresh_L2 @ (replicate (N - i) zeroed_L2)[0 := fresh_L2]"
      by (simp add: list_update_append)
    also have "(replicate (N - i) zeroed_L2)[0 := fresh_L2] = fresh_L2 # replicate (N - Suc i) zeroed_L2"
      using Suc.prems by (cases "N - i") (auto simp: Suc_diff_Suc)
    finally have u: "?l2s[i := fresh_L2] = replicate (Suc i) fresh_L2 @ replicate (N - Suc i) zeroed_L2"
      by (simp add: replicate_append_same)
    have c: "crt_opc_map_L2_create zeroed_L2 w = (DER_SUCCESS, fresh_L2, ?w)"
      using True by (simp add: crt_opc_map_L2_create_def opc_alloc_def fresh_L2_def)
    obtain rc l2s w' where r: "create_L2_loop (Suc i) n (replicate (Suc i) fresh_L2 @ replicate (N - Suc i) zeroed_L2) ?w
        = Some (rc, l2s, w')" "length l2s = N" "set l2s \<subseteq> {zeroed_L2, fresh_L2}" "rc = DER_SUCCESS \<or> rc = DER_NOMEM"
      "alloc_frame (sum_list (map L2_blocks l2s) - int (Suc i)) ?w w'" "cg_opc_map w' = cg_opc_map ?w"
      using Suc.IH [of "Suc i" ?w] Suc.prems by auto
    have "create_L2_loop i (Suc n) ?l2s w = Some (rc, l2s, w')"
      using nth c r(1) u by simp
    then show ?thesis using r by (auto simp: alloc_frame_def)
  next
    case False
    have c: "crt_opc_map_L2_create zeroed_L2 w = (DER_NOMEM, zeroed_L2, w\<lparr>ow_nalloc := ow_nalloc w + 1\<rparr>)"
      using False by (simp add: crt_opc_map_L2_create_def opc_alloc_def zeroed_L2_def)
    have "?l2s[i := zeroed_L2] = ?l2s" using nth by (metis list_update_id)
    then have "create_L2_loop i (Suc n) ?l2s w = Some (DER_NOMEM, ?l2s, w\<lparr>ow_nalloc := ow_nalloc w + 1\<rparr>)"
      using nth c by simp
    then show ?thesis using Suc.prems
      by (auto simp: sum_list_replicate fresh_L2_simps alloc_frame_def)
  qed
qed

definition internal_cpf :: "crt_proto_rpc_format list \<Rightarrow> crt_proto_format" where
  "internal_cpf rpcs = \<lparr>cpf_name = ''internal-proto'', cpf_ver = 0, cpf_count = of_nat (length rpcs), cpf_prf = Some rpcs,
     cpf_base = CRT_OPC_INTERNAL_BASE\<rparr>"

definition rpcs_ok :: "crt_proto_rpc_format list \<Rightarrow> bool" where
  "rpcs_ok rpcs \<longleftrightarrow> rpcs \<noteq> [] \<and> length rpcs \<le> 0xFFFF"

lemma internal_cpf_ok:
  assumes "rpcs_ok rpcs"
  shows "cpf_ok (internal_cpf rpcs) rpcs" "unat (cpf_count (internal_cpf rpcs)) = length rpcs"
proof -
  have u: "unat (of_nat (length rpcs) :: u32) = length rpcs"
    using assms by (simp add: rpcs_ok_def unsigned_of_nat take_bit_nat_eq_self)
  then show "unat (cpf_count (internal_cpf rpcs)) = length rpcs" by (simp add: internal_cpf_def)
  have "length rpcs \<noteq> 0" "length rpcs \<le> 0xFFFF" using assms by (auto simp: rpcs_ok_def)
  then show "cpf_ok (internal_cpf rpcs) rpcs" using u
    by (simp add: cpf_ok_def internal_cpf_def base_ok_def CRT_OPC_INTERNAL_BASE_def CRT_PROTO_BASEOPC_MASK_def
        word_less_nat_alt word_le_nat_alt CRT_PROTO_MAX_COUNT_def)
qed

lemma register_common_eq:
  assumes "cpf_ok cpf prfs"
  shows "crt_proto_register_common sz cpf w = crt_proto_reg_L1 sz cpf w"
  using assms by (auto simp: crt_proto_register_common_def cpf_ok_def)

lemma internal_register_eq:
  assumes "rpcs_ok rpcs"
  shows "crt_internal_rpc_register sz rpcs w = crt_proto_reg_L1 sz (internal_cpf rpcs) w"
  using register_common_eq [OF internal_cpf_ok(1) [OF assms]]
  by (simp add: crt_internal_rpc_register_def crt_proto_register_internal_def internal_cpf_def CRT_OPC_INTERNAL_BASE_def
      CRT_PROTO_BASEOPC_MASK_def)

text \<open>A live map: well formed, every block it holds and its lock counted since the state \<open>w0\<close>.\<close>

definition live_map :: "u64 \<Rightarrow> opc_world \<Rightarrow> opc_world \<Rightarrow> crt_opc_map \<Rightarrow> bool" where
  "live_map sz w0 w m \<longleftrightarrow> cg_opc_map w = Some m \<and> map_ok sz m \<and> com_pid m = ow_pid w \<and> com_lock_init m
     \<and> ow_live w = ow_live w0 + map_blocks m \<and> ow_locks w = ow_locks w0 + 1"

text \<open>Nothing is left since the state \<open>w0\<close>.\<close>

definition nothing_left :: "opc_world \<Rightarrow> opc_world \<Rightarrow> bool" where
  "nothing_left w0 w \<longleftrightarrow> cg_opc_map w = None \<and> ow_live w = ow_live w0 \<and> ow_locks w = ow_locks w0"

lemma live_map_destroy:
  assumes "live_map sz w0 w m"
  shows "\<exists>w'. crt_opc_map_destroy (Some m) w = Some w' \<and> nothing_left w0 w'"
  using map_destroy_frame [of m w] assms map_ok_sized [of sz m] by (auto simp: live_map_def nothing_left_def)

lemma live_map_reg_L1:
  assumes m: "live_map sz w0 w m" and cpf: "cpf_ok cpf prfs"
  obtains rc w' m' where "crt_proto_reg_L1 sz cpf w = Some (rc, w')" "live_map sz w0 w' m'" "reg_refines sz cpf prfs w rc m m'"
    "all_filled m \<longrightarrow> rc = DER_SUCCESS \<longrightarrow> all_filled m'"
proof -
  have "cg_opc_map w = Some m" "map_ok sz m" using m by (auto simp: live_map_def)
  then obtain rc w' m' where r: "crt_proto_reg_L1 sz cpf w = Some (rc, w')" "cg_opc_map w' = Some m'" "map_ok sz m'"
    "reg_refines sz cpf prfs w rc m m'" "alloc_frame (map_blocks m' - map_blocks m) w w'"
    "com_lock_init m' = com_lock_init m" "com_pid m' = com_pid m" "all_filled m \<longrightarrow> rc = DER_SUCCESS \<longrightarrow> all_filled m'"
    using reg_L1_refines [OF _ _ cpf] by blast
  then have "live_map sz w0 w' m'" using m by (simp add: live_map_def alloc_frame_def)
  then show thesis using that r by blast
qed

text \<open>The map just before the internal protocol is registered.\<close>

lemma fresh_map:
  assumes "length l2s = 256" "set l2s \<subseteq> {zeroed_L2, fresh_L2}"
    and "m = \<lparr>com_lock_init = li, com_pid = p, com_bits = bits, com_num_slots_total = 256, com_map = Some l2s\<rparr>"
  shows "map_ok sz m" "all_filled m" "opc_spec m = Map.empty" "map_blocks m = 2 + sum_list (map L2_blocks l2s)"
proof -
  have e: "l2s ! a = zeroed_L2 \<or> l2s ! a = fresh_L2" if "a < 256" for a
  proof -
    have "l2s ! a \<in> set l2s" using assms(1) that by simp
    then show ?thesis using assms(2) by blast
  qed
  have s: "slot m a b c = None" if "a < 256" for a b c using e [OF that] assms(3) by (auto simp: slot_def fresh_L2_simps)
  show "map_ok sz m" using assms e fresh_L2_simps(1,2) by (auto simp: map_ok_def) metis
  show "all_filled m" by (simp add: all_filled_def s registered_def)
  show "opc_spec m = Map.empty" by (rule ext) (simp add: opc_spec_def s idx_bounds registered_def)
  show "map_blocks m = 2 + sum_list (map L2_blocks l2s)" using assms(3) by (simp add: map_blocks_def)
qed

definition created :: "u64 \<Rightarrow> crt_proto_rpc_format list \<Rightarrow> opc_world \<Rightarrow> rc \<Rightarrow> opc_world \<Rightarrow> bool" where
  "created sz rpcs w rc w' \<longleftrightarrow>
     (if rc = DER_SUCCESS
      then \<exists>m. live_map sz w w' m \<and> all_filled m \<and> opc_spec m = proto_entries sz (internal_cpf rpcs) rpcs (length rpcs)
      else nothing_left w w')"

lemma map_setup_spec:
  assumes m: "m = \<lparr>com_lock_init = False, com_pid = ow_pid w, com_bits = bits, com_num_slots_total = 256, com_map = Some l2s\<rparr>"
    and l2s: "length l2s = 256" "set l2s \<subseteq> {zeroed_L2, fresh_L2}" and rpcs: "rpcs_ok rpcs"
    and w0: "ow_live w = ow_live w0 + map_blocks m" "ow_locks w = ow_locks w0"
  shows "\<exists>rc w'. opc_map_setup sz rpcs lock_rc m w = Some (rc, w') \<and> created sz rpcs w0 rc w'"
proof (cases "lock_rc = DER_SUCCESS")
  case False
  note ok = fresh_map(1) [OF l2s m]
  obtain w' where "crt_opc_map_destroy (Some m) w = Some w'" "nothing_left w0 w'"
    using map_destroy_frame [OF map_ok_sized [OF ok], of w] w0 m by (auto simp: nothing_left_def)
  then show ?thesis using False by (simp add: opc_map_setup_def created_def)
next
  case True
  let ?m = "m\<lparr>com_lock_init := True\<rparr>"
  let ?w = "w\<lparr>ow_locks := ow_locks w + 1, cg_opc_map := Some ?m\<rparr>"
  have e: "?m = \<lparr>com_lock_init = True, com_pid = ow_pid w, com_bits = bits, com_num_slots_total = 256, com_map = Some l2s\<rparr>"
    by (simp add: m)
  note fm = fresh_map [OF l2s e]
  have "map_blocks ?m = map_blocks m" by (simp add: map_blocks_def)
  then have lm: "live_map sz w0 ?w ?m" using w0 fm(1) m by (simp add: live_map_def)
  obtain rc w1 m' where g: "crt_proto_reg_L1 sz (internal_cpf rpcs) ?w = Some (rc, w1)" "live_map sz w0 w1 m'"
    "reg_refines sz (internal_cpf rpcs) rpcs ?w rc ?m m'" "rc = DER_SUCCESS \<longrightarrow> all_filled m'"
    using live_map_reg_L1 [OF lm internal_cpf_ok(1) [OF rpcs]] fm(2) by blast
  obtain w' where d: "crt_opc_map_destroy (Some m') w1 = Some w'" "nothing_left w0 w'"
    using live_map_destroy [OF g(2)] by blast
  have sp: "opc_spec m' = proto_entries sz (internal_cpf rpcs) rpcs (length rpcs)" if "rc = DER_SUCCESS"
    using g(3) that fm(3) internal_cpf_ok(2) [OF rpcs] by (auto simp: reg_refines_def reg_outcome_def split: if_splits)
  have cg: "cg_opc_map w1 = Some m'" using g(2) by (simp add: live_map_def)
  have "opc_map_setup sz rpcs lock_rc m w = Some (if rc = DER_SUCCESS then (DER_SUCCESS, w1) else (rc, w'))"
    unfolding opc_map_setup_def Let_def internal_register_eq [OF rpcs] g(1) using True d(1) cg by simp
  then show ?thesis using g(2,4) sp d(2) by (auto simp: created_def)
qed

lemma map_create_spec:
  assumes cg: "cg_opc_map w = None" and rpcs: "rpcs_ok rpcs"
  shows "\<exists>rc w'. crt_opc_map_create sz rpcs lock_rc CRT_OPC_MAP_BITS w = Some (rc, w') \<and> created sz rpcs w rc w'"
proof (cases "ow_ok w (ow_nalloc w)")
  case False
  then show ?thesis using cg by (simp add: crt_opc_map_create_def opc_alloc_def nothing_left_def created_def)
next
  case a1: True
  let ?m0 = "\<lparr>com_lock_init = False, com_pid = ow_pid w, com_bits = CRT_OPC_MAP_BITS, com_num_slots_total = 0, com_map = None\<rparr>"
  note create = crt_opc_map_create_def opc_alloc_def opc_map_count_8 Let_def
  have bits: "\<not> 64 \<le> unat CRT_OPC_MAP_BITS" by (simp add: CRT_OPC_MAP_BITS_def)
  show ?thesis
  proof (cases "ow_ok w (Suc (ow_nalloc w))")
    case False
    let ?w2 = "w\<lparr>ow_nalloc := ow_nalloc w + 2, ow_live := ow_live w + 1\<rparr>"
    obtain w' where "crt_opc_map_destroy (Some ?m0) ?w2 = Some w'" "nothing_left w w'"
      using map_destroy_frame [of ?m0 ?w2] by (auto simp: map_sized_def nothing_left_def map_blocks_def)
    then show ?thesis using a1 False bits by (simp add: create created_def)
  next
    case a2: True
    let ?w2 = "w\<lparr>ow_nalloc := ow_nalloc w + 2, ow_live := 2 + ow_live w\<rparr>"
    obtain rc l2s w3 where r: "create_L2_loop 0 16 (replicate 256 zeroed_L2) ?w2 = Some (rc, l2s, w3)"
      "length l2s = 256" "set l2s \<subseteq> {zeroed_L2, fresh_L2}" "rc = DER_SUCCESS \<or> rc = DER_NOMEM"
      "alloc_frame (sum_list (map L2_blocks l2s)) ?w2 w3" "cg_opc_map w3 = cg_opc_map w"
      using create_L2_loop_frame [of 0 16 256 ?w2] by auto
    let ?m = "\<lparr>com_lock_init = False, com_pid = ow_pid w, com_bits = CRT_OPC_MAP_BITS, com_num_slots_total = 256, com_map = Some l2s\<rparr>"
    have fr: "ow_live w3 = ow_live w + map_blocks ?m" "ow_locks w3 = ow_locks w" "ow_pid w3 = ow_pid w"
      using r(5) by (simp_all add: alloc_frame_def map_blocks_def)
    have c: "crt_opc_map_create sz rpcs lock_rc CRT_OPC_MAP_BITS w =
        (if rc \<noteq> DER_SUCCESS then map_option (\<lambda>w. (rc, w)) (crt_opc_map_destroy (Some ?m) w3)
         else opc_map_setup sz rpcs lock_rc ?m w3)"
      using a1 a2 bits r(1) by (simp add: create)
    show ?thesis
    proof (cases "rc = DER_SUCCESS")
      case False
      have "map_ok sz ?m" by (rule fresh_map [OF r(2,3) refl])
      then obtain w' where "crt_opc_map_destroy (Some ?m) w3 = Some w'" "nothing_left w w'"
        using map_destroy_frame [OF map_ok_sized, of sz ?m w3] fr by (auto simp: nothing_left_def)
      then show ?thesis unfolding c using False by (simp add: created_def)
    next
      case True
      have m: "?m = \<lparr>com_lock_init = False, com_pid = ow_pid w3, com_bits = CRT_OPC_MAP_BITS, com_num_slots_total = 256, com_map = Some l2s\<rparr>"
        using fr by simp
      show ?thesis unfolding c using map_setup_spec [OF m r(2,3) rpcs fr(1,2)] True by simp
    qed
  qed
qed

section \<open>Registrations\<close>

fun register_all :: "u64 \<Rightarrow> crt_proto_format option list \<Rightarrow> opc_world \<Rightarrow> opc_world option" where
  "register_all sz [] w = Some w"
| "register_all sz (cpf # cpfs) w = Option.bind (crt_proto_register sz cpf w) (\<lambda>(rc, w). register_all sz cpfs w)"

text \<open>The array of a protocol has as many members as its count says, which only its owner can ensure.\<close>

definition prf_array_ok :: "crt_proto_format option \<Rightarrow> bool" where
  "prf_array_ok cpf \<longleftrightarrow>
     (case cpf of None \<Rightarrow> True
      | Some f \<Rightarrow> (case cpf_prf f of None \<Rightarrow> True | Some prfs \<Rightarrow> unat (cpf_count f) \<le> length prfs))"

lemma register_cases:
  assumes "prf_array_ok cpf"
  obtains "crt_proto_register sz cpf w = Some (DER_INVAL, w)"
  | f prfs where "cpf = Some f" "cpf_ok f prfs" "crt_proto_register sz cpf w = crt_proto_reg_L1 sz f w"
proof (cases cpf)
  case None
  then show thesis using that(1) by (simp add: crt_proto_register_def)
next
  case (Some f)
  show thesis
  proof (cases "validate_base_opcode (cpf_base f) \<and> cpf_ver f \<le> CRT_PROTO_MAX_VER \<and> cpf_count f \<le> CRT_PROTO_MAX_COUNT
      \<and> cpf_count f \<noteq> 0 \<and> cpf_prf f \<noteq> None")
    case True
    then have "base_ok (cpf_base f)" using validate_base_ok by blast
    then obtain prfs where "cpf_ok f prfs"
      using assms Some True by (auto simp: cpf_ok_def prf_array_ok_def word_neq_0_conv)
    then show thesis using that(2) Some True register_common_eq by (simp add: crt_proto_register_def)
  next
    case False
    then have "crt_proto_register sz cpf w = Some (DER_INVAL, w)"
      using Some by (auto simp: crt_proto_register_def crt_proto_register_common_def not_le)
    then show thesis by (rule that(1))
  qed
qed

lemma register_all_live:
  "live_map sz w0 w m \<Longrightarrow> \<forall>cpf\<in>set cpfs. prf_array_ok cpf \<Longrightarrow> \<exists>w' m'. register_all sz cpfs w = Some w' \<and> live_map sz w0 w' m'"
proof (induction cpfs arbitrary: w m)
  case Nil
  then show ?case by auto
next
  case (Cons cpf cpfs)
  have p: "prf_array_ok cpf" using Cons.prems(2) by simp
  show ?case
  proof (cases rule: register_cases [OF p, of sz w])
    case 1
    then show ?thesis using Cons by simp
  next
    case (2 f prfs)
    obtain rc w1 m1 where "crt_proto_reg_L1 sz f w = Some (rc, w1)" "live_map sz w0 w1 m1"
      using live_map_reg_L1 [OF Cons.prems(1) 2(2)] by blast
    then show ?thesis using Cons.IH [of w1 m1] Cons.prems(2) 2(3) by simp
  qed
qed

section \<open>Layout of a request\<close>

lemma alignup_eq:
  assumes "unat x + 63 < 2 ^ 64"
  shows "unat (D_ALIGNUP x 64) = (unat x + 63) div 64 * 64"
proof -
  have u: "unat (x + 63) = unat x + 63" using assms by (simp add: unat_word_ariths)
  have e: "D_ALIGNUP x 64 = push_bit 6 (drop_bit 6 (x + 63))"
  proof (rule bit_word_eqI)
    fix n assume n: "n < LENGTH(64)"
    have "bit (63 :: u64) n \<longleftrightarrow> n < 6"
      using bit_mask_iff [of 6 n, where 'a = u64] n by (simp add: mask_eq_exp_minus_1)
    then show "bit (D_ALIGNUP x 64) n = bit (push_bit 6 (drop_bit 6 (x + 63))) n"
      using n by (auto simp: D_ALIGNUP_def bit_simps)
  qed
  have "unat (D_ALIGNUP x 64) = take_bit 64 ((unat x + 63) div 64 * 64)"
    unfolding e unsigned_push_bit_eq unsigned_drop_bit_eq u using assms
    by (simp add: push_bit_eq_mult drop_bit_eq_div take_bit_nat_eq_self)
  moreover have "(unat x + 63) div 64 * 64 \<le> unat x + 63" by simp
  then have "(unat x + 63) div 64 * 64 < 2 ^ 64" using assms by linarith
  ultimately show ?thesis by (simp add: take_bit_nat_eq_self)
qed

lemma div_mult_bounds: "x \<le> (x + 63) div 64 * 64" "(x + 63) div 64 * 64 \<le> x + 63" for x :: nat
proof -
  have "(x + 63) div 64 * 64 + (x + 63) mod 64 = x + 63" "(x + 63) mod 64 < 64" by simp_all
  then show "x \<le> (x + 63) div 64 * 64" "(x + 63) div 64 * 64 \<le> x + 63" by linarith+
qed

section \<open>Queries\<close>

text \<open>The versions of a protocol of which some member is registered, and what a query should answer.\<close>

definition known_version :: "crt_opc_map \<Rightarrow> u32 \<Rightarrow> u32 \<Rightarrow> bool" where
  "known_version m base v \<longleftrightarrow> (\<exists>opc\<in>dom (opc_spec m). L1_idx opc = L1_idx base \<and> L2_idx opc = unat v)"

definition query_reference :: "(u32 \<Rightarrow> bool) \<Rightarrow> u32 list \<Rightarrow> u32 option" where
  "query_reference known vers = (case filter known vers of [] \<Rightarrow> None | v # vs \<Rightarrow> Some (fold max vs v))"

lemma query_reference_snoc:
  "query_reference known (xs @ [v]) =
    (if known v then Some (case query_reference known xs of None \<Rightarrow> v | Some h \<Rightarrow> max v h) else query_reference known xs)"
  by (auto simp: query_reference_def split: list.splits)

lemma proto_lookup_iff:
  assumes m: "map_ok sz m" "all_filled m" and b: "base_ok base" and v: "v \<le> CRT_PROTO_MAX_VER"
  shows "\<exists>rc. crt_proto_lookup m (CRT_PROTO_OPC base v 0) = Some rc \<and> (rc = DER_SUCCESS \<longleftrightarrow> known_version m base v)
    \<and> (rc = DER_SUCCESS \<or> rc = DER_NONEXIST \<or> rc = DER_UNREG)"
proof -
  let ?opc = "CRT_PROTO_OPC base v 0" and ?a = "L1_idx base" and ?b = "unat v"
  have p: "L1_idx ?opc = ?a" "L2_idx ?opc = ?b" "L3_idx ?opc = 0"
    using opc_parts [OF b v, of 0] by simp_all
  have a: "?a < 256" by (rule idx_bounds)
  obtain l1 where l1: "com_map m = Some l1" "length l1 = 256" "\<And>a. a < 256 \<Longrightarrow> L2_ok sz a (l1 ! a)" "com_num_slots_total m = 256"
    using m(1) by (auto simp: map_ok_def split: option.splits)
  let ?l2 = "l1 ! ?a"
  have l2: "L2_ok sz ?a ?l2" by (rule l1(3) [OF a])
  have sl: "slot m ?a ?b c = L2_slot ?l2 ?b c" for c by (simp add: slot_def l1(1))
  have known: "known_version m base v \<longleftrightarrow> (\<exists>c. L2_slot ?l2 ?b c \<noteq> None)"
  proof
    assume "known_version m base v"
    then obtain opc where "opc_spec m opc \<noteq> None" "L1_idx opc = ?a" "L2_idx opc = ?b"
      by (auto simp: known_version_def)
    then show "\<exists>c. L2_slot ?l2 ?b c \<noteq> None" using sl by (auto simp: opc_spec_def registered_def split: option.splits)
  next
    assume "\<exists>c. L2_slot ?l2 ?b c \<noteq> None"
    then have "L2_slot ?l2 ?b 0 \<noteq> None" by (cases "L2_map ?l2") (auto simp: L2_slot_def L3_slot_def split: if_splits)
    then have "registered (slot m ?a ?b 0) \<noteq> None" using m(2) a sl by (metis all_filled_def)
    then have "?opc \<in> dom (opc_spec m)" by (simp add: opc_spec_def p domIff)
    then show "known_version m base v" using p by (auto simp: known_version_def)
  qed
  have e: "crt_proto_lookup m ?opc =
     (if L2_num_slots_total ?l2 = 0 then Some DER_NONEXIST
      else if unat (L2_num_slots_total ?l2) \<le> ?b then Some DER_UNREG
      else Option.bind (L2_map ?l2) (\<lambda>l3s.
            if length l3s \<le> ?b then None
            else if L3_num_slots_total (l3s ! ?b) = 0 then Some DER_UNREG else Some DER_SUCCESS))"
    unfolding crt_proto_lookup_def Let_def p using a l1 by simp
  show ?thesis
  proof (cases "unat (L2_num_slots_total ?l2) \<le> ?b")
    case True
    then have "\<not> known_version m base v" by (simp add: known L2_slot_def)
    then show ?thesis unfolding e using True by auto
  next
    case False
    then obtain l3s where l3s: "L2_map ?l2 = Some l3s" "?b < length l3s" "L3_ok sz ?a ?b (l3s ! ?b)"
      using l2 by (auto simp: L2_ok_def split: option.splits)
    have "known_version m base v \<longleftrightarrow> L3_num_slots_total (l3s ! ?b) \<noteq> 0"
    proof
      assume "known_version m base v"
      then show "L3_num_slots_total (l3s ! ?b) \<noteq> 0" by (auto simp: known L2_slot_def L3_slot_def l3s(1) split: if_splits)
    next
      assume n: "L3_num_slots_total (l3s ! ?b) \<noteq> 0"
      then have "L3_slot (l3s ! ?b) 0 \<noteq> None"
        using l3s(3) by (auto simp: L3_slot_def L3_ok_def unat_gt_0 split: option.splits)
      then show "known_version m base v" using False l3s(1) by (auto simp: known L2_slot_def)
    qed
    moreover have "L2_num_slots_total ?l2 \<noteq> 0" using False by auto
    ultimately show ?thesis unfolding e using False l3s by auto
  qed
qed

text \<open>The state of the loop after a prefix of the versions.\<close>

definition query_state :: "(u32 \<Rightarrow> bool) \<Rightarrow> u32 list \<Rightarrow> u32 \<Rightarrow> rc \<Rightarrow> rc \<Rightarrow> bool" where
  "query_state known done high_ver rc_tmp rc \<longleftrightarrow>
     (case query_reference known done of
        None \<Rightarrow> high_ver = 0 \<and> rc = DER_NONEXIST \<and> (rc_tmp = DER_NONEXIST \<or> rc_tmp = DER_UNREG)
      | Some h \<Rightarrow> high_ver = h \<and> rc = DER_SUCCESS)"

lemma query_loop_spec:
  assumes look: "\<And>v. v \<in> set vers \<Longrightarrow> \<exists>rc. crt_proto_query_local base v w = Some rc \<and> (rc = DER_SUCCESS \<longleftrightarrow> known v)
      \<and> (rc = DER_SUCCESS \<or> rc = DER_NONEXIST \<or> rc = DER_UNREG)"
    and "i + n = length vers" "query_state known (take i vers) high_ver rc_tmp rc"
  shows "\<exists>h t r. query_loop base vers w i n high_ver rc_tmp rc = Some (h, t, r) \<and> query_state known vers h t r"
  using assms(2,3)
proof (induction n arbitrary: i high_ver rc_tmp rc)
  case 0
  then show ?case by simp
next
  case (Suc n)
  let ?v = "vers ! i"
  have t: "take (Suc i) vers = take i vers @ [?v]" using Suc.prems(1) by (simp add: take_Suc_conv_app_nth)
  obtain r where r: "crt_proto_query_local base ?v w = Some r" "r = DER_SUCCESS \<longleftrightarrow> known ?v"
    "r = DER_SUCCESS \<or> r = DER_NONEXIST \<or> r = DER_UNREG"
    using look [of ?v] Suc.prems(1) by auto
  note ih = Suc.IH [of "Suc i"]
  show ?case
  proof (cases "?v < high_ver")
    case True
    have "query_state known (take (Suc i) vers) high_ver rc_tmp rc"
      using Suc.prems(2) True unfolding t query_state_def query_reference_snoc
      by (auto split: option.splits if_splits simp: max_def)
    then show ?thesis using ih [of high_ver rc_tmp rc] Suc.prems(1) True by simp
  next
    case False
    show ?thesis
    proof (cases "known ?v")
      case True
      have "query_state known (take (Suc i) vers) ?v r DER_SUCCESS"
        using Suc.prems(2) True False unfolding t query_state_def query_reference_snoc
        by (auto split: option.splits if_splits simp: max_def)
      then show ?thesis using ih [of ?v r DER_SUCCESS] Suc.prems(1) True False leI [OF False] r by (simp add: Let_def)
    next
      case nk: False
      have "query_state known (take (Suc i) vers) high_ver r rc"
        using Suc.prems(2) nk r(2,3) unfolding t query_state_def query_reference_snoc by (auto split: option.splits)
      then show ?thesis using ih [of high_ver r rc] Suc.prems(1) nk False r by (simp add: Let_def)
    qed
  qed
qed

section \<open>Properties\<close>

text \<open>
  Property C11. The three-level opcode map implements one map from opcodes to descriptions. Registering a protocol
  with valid parameters returns, keeps the map well formed, and adds the descriptions of the first \<open>k\<close> members, where
  \<open>k\<close> is the index of the first member whose buffers are too large (\<open>DER_INVAL\<close>) or whose opcode is already
  registered (\<open>DER_EXIST\<close>), and all of them if there is none (\<open>DER_SUCCESS\<close>); only when an allocation fails may it
  return \<open>DER_NOMEM\<close>, and then it registers nothing. A lookup afterwards returns what was registered.
\<close>

theorem opc_register_refines:
  assumes "cg_opc_map w = Some m" "map_ok sz m"
    and "validate_base_opcode (cpf_base cpf)" "cpf_ver cpf \<le> CRT_PROTO_MAX_VER" "0 < cpf_count cpf"
      "cpf_count cpf \<le> CRT_PROTO_MAX_COUNT" "cpf_prf cpf = Some prfs" "unat (cpf_count cpf) \<le> length prfs"
  shows "\<exists>rc w' m'. crt_proto_register sz (Some cpf) w = Some (rc, w') \<and> cg_opc_map w' = Some m' \<and> map_ok sz m'
    \<and> ((rc = DER_NOMEM \<and> \<not> (\<forall>n. ow_ok w n) \<and> opc_spec m' = opc_spec m)
       \<or> (\<exists>k. reg_outcome prfs (\<lambda>j. opc_of cpf j \<in> dom (opc_spec m)) (unat (cpf_count cpf)) k rc
            \<and> opc_spec m' = opc_spec m ++ proto_entries sz cpf prfs k))
    \<and> (\<forall>opc i. opc_spec m' opc = Some i \<longrightarrow> crt_opc_lookup m' opc = Some (Some i))"
proof -
  have ok: "cpf_ok cpf prfs" using assms(3-) validate_base_ok by (simp add: cpf_ok_def)
  have e: "crt_proto_register sz (Some cpf) w = crt_proto_reg_L1 sz cpf w"
    using assms(3) register_common_eq [OF ok] by (simp add: crt_proto_register_def)
  obtain rc w' m' where r: "crt_proto_reg_L1 sz cpf w = Some (rc, w')" "cg_opc_map w' = Some m'" "map_ok sz m'"
    "reg_refines sz cpf prfs w rc m m'"
    using reg_L1_refines [OF assms(1,2) ok] by blast
  have "crt_opc_lookup m' opc = Some (Some i)" if "opc_spec m' opc = Some i" for opc i
    using that opc_lookup_slot [OF r(3), of opc] by (auto simp: opc_spec_def registered_def split: option.splits if_splits)
  then show ?thesis unfolding e using r(1-3) r(4) [unfolded reg_refines_def]
    by (intro exI [of _ rc] exI [of _ w'] exI [of _ m']) simp
qed

text \<open>A protocol with two members on a map without entries.\<close>

definition demo_prf :: crt_proto_rpc_format where
  "demo_prf = \<lparr>prf_req_fmt = Some \<lparr>crf_proc_in = Some 1, crf_proc_out = Some 2, crf_size_in = 24, crf_size_out = 8\<rparr>,
     prf_hdlr = Some 7, prf_co_ops = None, prf_flags = 0\<rparr>"

definition demo_cpf :: crt_proto_format where
  "demo_cpf = \<lparr>cpf_name = ''demo'', cpf_ver = 3, cpf_count = 2, cpf_prf = Some [demo_prf, demo_prf], cpf_base = 0x01000000\<rparr>"

definition empty_map :: crt_opc_map where
  "empty_map = \<lparr>com_lock_init = True, com_pid = 42, com_bits = 8, com_num_slots_total = 256, com_map = Some (replicate 256 zeroed_L2)\<rparr>"

definition empty_opc_world :: opc_world where
  "empty_opc_world = \<lparr>cg_opc_map = None, ow_pid = 42, ow_live = 0, ow_locks = 0, ow_ok = (\<lambda>_. True), ow_nalloc = 0\<rparr>"

lemma demo_cpf_simps [simp]:
  "cpf_name demo_cpf = ''demo''" "cpf_ver demo_cpf = 3" "cpf_count demo_cpf = 2" "cpf_prf demo_cpf = Some [demo_prf, demo_prf]"
  "cpf_base demo_cpf = 0x01000000"
  by (simp_all add: demo_cpf_def)

lemma demo_cpf_valid:
  "validate_base_opcode (cpf_base demo_cpf)" "cpf_ver demo_cpf \<le> CRT_PROTO_MAX_VER" "0 < cpf_count demo_cpf"
  "cpf_count demo_cpf \<le> CRT_PROTO_MAX_COUNT" "unat (cpf_count demo_cpf) \<le> length [demo_prf, demo_prf]"
  "\<not> crf_too_large (prf_req_fmt demo_prf)"
  by (simp_all add: validate_base_opcode_def CRT_PROTO_BASEOPC_MASK_def CRT_PROTO_MAX_VER_def CRT_PROTO_MAX_COUNT_def
      demo_prf_def crf_too_large_def CRT_MAX_INPUT_SIZE_def CRT_MAX_OUTPUT_SIZE_def)

lemma empty_map_ok: "map_ok sz empty_map" "all_filled empty_map" "opc_spec empty_map = Map.empty"
  by (rule fresh_map [where l2s = "replicate 256 zeroed_L2", OF _ _ empty_map_def], simp, simp)+

lemma demo_outcome:
  assumes "reg_outcome [demo_prf, demo_prf] (\<lambda>j. opc_of demo_cpf j \<in> dom (opc_spec empty_map)) 2 k rc"
  shows "rc = DER_SUCCESS" "k = 2"
proof -
  have n: False if "k = 0 \<or> k = 1" using that assms demo_cpf_valid(6) by (auto simp: reg_outcome_def empty_map_ok)
  have "k \<le> 2" using assms by (simp add: reg_outcome_def)
  then show "k = 2" using n by (cases "k = 0 \<or> k = 1") auto
  then show "rc = DER_SUCCESS" using assms by (simp add: reg_outcome_def)
qed

theorem opc_register_refines_witness:
  "\<exists>w' m' i. crt_proto_register 512 (Some demo_cpf) (empty_opc_world\<lparr>cg_opc_map := Some empty_map\<rparr>) = Some (DER_SUCCESS, w')
    \<and> cg_opc_map w' = Some m' \<and> crt_opc_lookup m' 0x01030001 = Some (Some i) \<and> coi_rpc_cb i = Some 7"
proof -
  let ?w = "empty_opc_world\<lparr>cg_opc_map := Some empty_map\<rparr>"
  have "cg_opc_map ?w = Some empty_map" "cpf_prf demo_cpf = Some [demo_prf, demo_prf]" by simp_all
  from opc_register_refines [OF this(1) empty_map_ok(1) demo_cpf_valid(1-4) this(2) demo_cpf_valid(5), of 512]
  obtain rc w' m' k where r: "crt_proto_register 512 (Some demo_cpf) ?w = Some (rc, w')" "cg_opc_map w' = Some m'"
    "reg_outcome [demo_prf, demo_prf] (\<lambda>j. opc_of demo_cpf j \<in> dom (opc_spec empty_map)) 2 k rc"
    "opc_spec m' = opc_spec empty_map ++ proto_entries 512 demo_cpf [demo_prf, demo_prf] k"
    "\<And>opc i. opc_spec m' opc = Some i \<Longrightarrow> crt_opc_lookup m' opc = Some (Some i)"
    by (auto simp: empty_opc_world_def)
  have o: "opc_of demo_cpf 0 = 0x01030000" "opc_of demo_cpf 1 = 0x01030001"
    by (simp_all add: opc_of_def CRT_PROTO_OPC_def)
  then have "opc_spec m' 0x01030001 = Some (new_info 512 0x01030001 demo_prf)"
    using demo_outcome(2) [OF r(3)] by (simp add: r(4) empty_map_ok proto_entries_def upt_rec)
  moreover have "coi_rpc_cb (new_info 512 0x01030001 demo_prf) = Some 7" by (simp add: demo_prf_def)
  ultimately show ?thesis using r(1,2,5) demo_outcome(1) [OF r(3)] by blast
qed


definition demo_L2 :: crt_opc_map_L2 where
  "demo_L2 = \<lparr>L2_num_slots_total = 1, L2_num_slots_used = 1, L2_map = Some
     [\<lparr>L3_num_slots_total = 1, L3_num_slots_used = 0, L3_map = Some [new_info 512 0x01000000 demo_prf]\<rparr>]\<rparr>"

definition demo_map :: crt_opc_map where
  "demo_map = empty_map\<lparr>com_map := Some ((replicate 256 zeroed_L2)[1 := demo_L2])\<rparr>"

lemma demo_idx: "L1_idx 0x01000000 = 1" "L2_idx 0x01000000 = 0" "L3_idx 0x01000000 = 0"
  by (simp_all add: L1_idx_def L2_idx_def L3_idx_def CRT_PROTO_VER_MASK_def CRT_PROTO_COUNT_MASK_def)

lemma demo_map_ok: "map_ok 512 demo_map" "opc_spec demo_map 0x01000000 = Some (new_info 512 0x01000000 demo_prf)" "all_filled demo_map"
proof -
  have "info_ok 512 (1, 0, 0) (new_info 512 0x01000000 demo_prf)"
    using demo_cpf_valid(6) by (auto simp: info_ok_def demo_idx)
  then have "L2_ok 512 1 demo_L2"
    by (simp add: L2_ok_def L3_ok_def demo_L2_def CRT_PROTO_MAX_COUNT_def)
  then show "map_ok 512 demo_map"
    using fresh_L2_simps(1) by (auto simp: map_ok_def demo_map_def empty_map_def nth_list_update)
  have sl: "slot demo_map a b c = (if (a, b, c) = (1, 0, 0) then Some (new_info 512 0x01000000 demo_prf) else None)" if "a < 256" for a b c
    using that by (auto simp: slot_def demo_map_def nth_list_update L2_slot_def L3_slot_def demo_L2_def zeroed_L2_def)
  then show "opc_spec demo_map 0x01000000 = Some (new_info 512 0x01000000 demo_prf)"
    by (simp add: opc_spec_def demo_idx registered_def)
  show "all_filled demo_map" using sl by (auto simp: all_filled_def registered_def)
qed


text \<open>
  Property C14. A map gives back all it took: if its creation fails, whatever allocation or other step failed, nothing
  is left allocated and there is no map; if it succeeds, then after any sequence of registrations, failing ones included,
  the destruction runs without error and leaves as many blocks and locks as before the creation.
\<close>

theorem opc_map_no_leak:
  assumes "cg_opc_map w = None" "rpcs_ok rpcs" "\<forall>cpf\<in>set cpfs. prf_array_ok cpf"
  shows "\<exists>rc w1. crt_opc_map_create sz rpcs lock_rc CRT_OPC_MAP_BITS w = Some (rc, w1)
    \<and> (if rc = DER_SUCCESS
       then \<exists>w2 w3. register_all sz cpfs w1 = Some w2 \<and> crt_opc_map_destroy (cg_opc_map w2) w2 = Some w3
          \<and> cg_opc_map w3 = None \<and> ow_live w3 = ow_live w \<and> ow_locks w3 = ow_locks w
       else cg_opc_map w1 = None \<and> ow_live w1 = ow_live w \<and> ow_locks w1 = ow_locks w)"
proof -
  obtain rc w1 where c: "crt_opc_map_create sz rpcs lock_rc CRT_OPC_MAP_BITS w = Some (rc, w1)" "created sz rpcs w rc w1"
    using map_create_spec [OF assms(1,2)] by blast
  show ?thesis
  proof (cases "rc = DER_SUCCESS")
    case True
    then obtain m where "live_map sz w w1 m" using c(2) by (auto simp: created_def)
    then obtain w2 m2 where r: "register_all sz cpfs w1 = Some w2" "live_map sz w w2 m2"
      using register_all_live assms(3) by blast
    then obtain w3 where "crt_opc_map_destroy (Some m2) w2 = Some w3" "nothing_left w w3"
      using live_map_destroy by blast
    moreover have "cg_opc_map w2 = Some m2" using r(2) by (simp add: live_map_def)
    ultimately show ?thesis using c(1) r(1) True by (auto simp: nothing_left_def)
  next
    case False
    then show ?thesis using c by (auto simp: created_def nothing_left_def)
  qed
qed

theorem opc_map_no_leak_witness:
  "\<exists>rc w1. crt_opc_map_create 512 [demo_prf] DER_SUCCESS CRT_OPC_MAP_BITS empty_opc_world = Some (rc, w1)
    \<and> (if rc = DER_SUCCESS
       then \<exists>w2 w3. register_all 512 [Some demo_cpf, None, Some demo_cpf] w1 = Some w2
          \<and> crt_opc_map_destroy (cg_opc_map w2) w2 = Some w3 \<and> ow_live w3 = 0
       else ow_live w1 = 0)"
proof -
  have h: "cg_opc_map empty_opc_world = None" "rpcs_ok [demo_prf]" "\<forall>cpf\<in>set [Some demo_cpf, None, Some demo_cpf]. prf_array_ok cpf"
    and l: "ow_live empty_opc_world = 0"
    by (simp_all add: empty_opc_world_def rpcs_ok_def prf_array_ok_def)
  obtain rc w1 where "crt_opc_map_create 512 [demo_prf] DER_SUCCESS CRT_OPC_MAP_BITS empty_opc_world = Some (rc, w1)"
    "if rc = DER_SUCCESS
     then \<exists>w2 w3. register_all 512 [Some demo_cpf, None, Some demo_cpf] w1 = Some w2
        \<and> crt_opc_map_destroy (cg_opc_map w2) w2 = Some w3 \<and> ow_live w3 = 0
     else ow_live w1 = 0"
    using opc_map_no_leak [OF h, of 512 DER_SUCCESS] unfolding l by (metis (no_types, lifting))
  then show ?thesis by (intro exI [of _ rc] exI [of _ w1]) simp
qed



text \<open>
  Versions are not limited in a query: an offered version above 255 runs into the bits of the base opcode, so a query for
  the protocol 0x01000000 with version 0x200 is answered from the protocol 0x03000000, and a server that has only
  that one reports version 0x200 as supported.
\<close>

lemma query_version_spills: "CRT_PROTO_OPC 0x01000000 0x200 0 = CRT_PROTO_OPC 0x03000000 0 0"
  by (simp add: CRT_PROTO_OPC_def)

text \<open>
  A registration that fails at its first member still leaves an empty slot, which a lookup finds: the
  description is all zero.
\<close>

lemma lookup_unregistered_slot:
  "crt_opc_lookup (empty_map\<lparr>com_map := Some ((replicate 256 zeroed_L2)[1 := demo_L2\<lparr>L2_map := Some
     [\<lparr>L3_num_slots_total = 1, L3_num_slots_used = 0, L3_map = Some [zeroed_info]\<rparr>]\<rparr>])\<rparr>) 0x01000000 = Some (Some zeroed_info)"
  by (simp add: crt_opc_lookup_def demo_idx demo_L2_def empty_map_def)

end
