(* ===== verification/Spec2Isabelle.thy ===== *)
theory Spec2Isabelle
  imports Rank_List Tree_Topo Crt_Tree Heap_Life Rpc_Priv Hlc Handle_Hash Ctx_Life Swim_Service Opc_Life
begin

text \<open>
  \<^bold>\<open>CaRT\<close>, the collective and RPC transport of DAOS: a verification development for the C sources under
  \<^verbatim>\<open>src/src\<close> (paths below are relative to it).

  \<^bold>\<open>The program.\<close> A process creates contexts, registers protocols and sends requests to ranks of a group. A request is
  a descriptor (\<^verbatim>\<open>struct crt_rpc_priv\<close>) whose layout comes from the registered protocol. The context limits how many
  requests are in flight to one rank, keeps the waiting ones in a queue, and keeps all of them in a binary heap
  ordered by expiry. A collective request is forwarded along a tree over the members of the group. The SWIM service
  watches the members by pings and spreads what it learns in the messages it sends anyway. Stamps of a hybrid logical
  clock order events of different processes. Below lies a library (\<^verbatim>\<open>gurt\<close>) of rank lists, heaps, hash functions and hash
  tables. The network itself is the external library Mercury.

  \<^bold>\<open>Conventions.\<close> A struct is a record with the field names of the source, an enumeration a datatype, a 32 or 64-bit
  integer a word (theory \<open>Crt_Prelude\<close>, which also has the return codes as the datatype \<open>rc\<close>, the collections of rules
  and the shared facts on lists). An object that others point to is named by a number, its address, and lives in a
  memory, a function from addresses. A null pointer is \<open>None\<close>. A failed assertion, a null dereference or an access
  outside an array makes the operation return \<open>None\<close>, so that a theorem with a result \<open>Some\<close> includes that none of
  these happens. The outcome of an allocation is a schedule: a function says of the \<open>k\<close>-th one whether it succeeds,
  and theorems hold for every schedule. Clock readings are schedules as well. Mutexes and read-write locks only delimit
  critical sections, which are single steps of the models. User callbacks and Mercury are arguments of the operations.

  \<^bold>\<open>Theories, and what they model and show.\<close>

  \<^item> \<open>Rank_List\<close>: the rank lists and the readers of environment variables of \<^verbatim>\<open>gurt/misc.c\<close>. Contents of the
    results of filtering, sorting without duplicates, deletion, appending and comparison, on every branch. The removal of
    duplicates keeps a rank twice when it occurs three times, which is proved exactly.

  \<^item> \<open>Tree_Topo\<close>: the topologies of \<^verbatim>\<open>cart/crt_tree_flat.c\<close>, \<^verbatim>\<open>crt_tree_kary.c\<close>, \<^verbatim>\<open>crt_tree_knomial.c\<close> and
    \<^verbatim>\<open>crt_tree.h\<close> on 32-bit ranks. Children and parent are inverse, and forwarding visits every rank once (the locales
    \<open>spanning_topo\<close> and \<open>rotated_topo\<close> state this once for all three). \<open>Crt_Tree\<close>: \<^verbatim>\<open>cart/crt_tree.c\<close> over the members of a group with
    excluded or exclusive ranks. A collective call reaches exactly its targets, each once; error branches.

  \<^item> \<open>Bin_Heap\<close>, \<open>Heap_Order\<close>, \<open>Heap_Life\<close>: \<^verbatim>\<open>gurt/heap.c\<close> with its three levels of index blocks, growth and the
    callbacks of the user. Insertion and removal keep the order and the contents, the root is a least node, creation and
    destruction are balanced. The locale \<open>heap_order\<close> is the contract of a comparison.

  \<^item> \<open>Hash_Fn\<close>, \<open>Hash_Table\<close>, \<open>Hash_Map\<close>, \<open>Handle_Hash\<close>: the hash functions, the generic table over user
    operations and the handle table of \<^verbatim>\<open>gurt/hash.c\<close>. A table refines a finite map for every client that satisfies the
    locale \<open>hash_client\<close>; the handle table (\<open>Handle_Hash\<close>) and the endpoint table of a context (\<open>Epi\<close>) interpret it.

  \<^item> \<open>Hlc\<close>: \<^verbatim>\<open>cart/crt_hlc.c\<close>. The compare-and-exchange loops run against an interference function; stamps respect the
    happens-before order of a history of threads, processes and messages.

  \<^item> \<open>Opc_Map\<close>, \<open>Opc_Reg\<close>, \<open>Opc_Life\<close>: \<^verbatim>\<open>cart/crt_register.c\<close>, the three-level opcode map. \<open>opc_spec\<close> is the flat map
    it implements. Registration and lookup refine that map on every branch, the buffers of a request do not overlap,
    destruction returns all memory, and a version query equals its reference.

  \<^item> \<open>Rpc_Priv\<close>: the part of the descriptor of \<^verbatim>\<open>cart/crt_rpc.h\<close> that the context uses and the order of the timeout
    heap. \<open>Epi\<close>, \<open>Ctx_State\<close>, \<open>Ctx_Timeout\<close>, \<open>Ctx_Track\<close>, \<open>Ctx_Life\<close>: \<^verbatim>\<open>cart/crt_context.c\<close>. The state is the record
    \<open>crt_world\<close>, the code outside it the record \<open>crt_env\<close>. Expired requests leave the heap in order; tracking and
    untracking refine a pair of queues per rank with a bound on the requests in flight (\<open>flows\<close>), and the recursive
    submission of waiting requests ends; aborting, creation and lookup of contexts on their branches.

  \<^item> \<open>Swim_State\<close>, \<open>Swim_Proto\<close>, \<open>Swim_Inv\<close>, \<open>Swim_Run\<close>: \<^verbatim>\<open>swim/swim.c\<close> over the operations of an abstract group, whose
    contract is the locale \<open>swim_group\<close>. \<open>Crt_Swim\<close>: the group of \<^verbatim>\<open>cart/crt_swim.c\<close>. \<open>Swim_Service\<close> interprets the
    locale on it and treats the service as an inductive step relation (\<open>swim_event\<close>): an invariant of all reachable
    states, a refinement to an abstract membership machine in which incarnations never fall, termination of the progress
    callback, well-formed messages, the end of every suspicion and the round robin of the ping targets.

  Each property of the development is a theorem after a block of text that names it and says what it means; a theorem
  with hypotheses is followed by its application to a concrete state.

  \<^bold>\<open>Loops and bounds.\<close> Counted loops are structural recursions on what is left to do, other loops functions with a
  measure. The loops without a bound in the source are partial functions whose result \<open>None\<close> includes divergence;
  for the expiry of requests, the resubmission of waiting ones and the SWIM rounds it is proved that they return. The loops
  that wait for Mercury (progress, flush and abort of a context) return only if Mercury does its part; they are
  defined, without a theorem that they return. No fuel is used except the number
  of attempts the source itself limits. Word sizes are those of the source; where a sum could wrap around, the
  theorem has the bound that excludes it or covers the wrapped value.

  \<^bold>\<open>Assumptions on code outside the models.\<close> Flow control assumes of \<^verbatim>\<open>crt_req_send_internal\<close> and of the completion
  callback what \<open>env_quiet\<close> says: they return, keep the invariant and the queues, and touch no other descriptor.
  The properties of a hash table assume the laws of \<open>hash_client\<close> of its member functions. The layout of a
  request depends on the size of the descriptor, an argument below 4 GB. The formats of the internal protocol are an
  argument of the creation of the opcode map.

  \<^bold>\<open>Not modelled.\<close> Groups and their caches (\<^verbatim>\<open>cart/crt_group.c\<close>) apart from the member lists the trees and SWIM read;
  the creation and sending of requests with the address lookups behind it (\<^verbatim>\<open>cart/crt_rpc.c\<close>), which need the caches and
  Mercury; the bookkeeping of collective requests (\<^verbatim>\<open>crt_corpc.c\<close>) and the incast variables (\<^verbatim>\<open>crt_iv.c\<close>) built on
  them; the Mercury layer, serialisation and bulk transfers (\<^verbatim>\<open>crt_hg.c\<close>, \<^verbatim>\<open>crt_hg_proc.c\<close>, \<^verbatim>\<open>crt_bulk.c\<close>), which call an
  external library; start-up, control, self test, logging, fault injection, command line tools and tests, which are
  configuration, input and output. Of \<^verbatim>\<open>crt_register.c\<close> the client side of a version query is left out, since it sends a
  request; of \<^verbatim>\<open>gurt/hash.c\<close> the table keyed by UUIDs, a wrapper around the generic one. Interleavings inside a critical
  section are not considered.
\<close>

end
